(* ===== verification/Prelude.thy ===== *)
theory Prelude
  imports Main "HOL-Library.Word" "HOL-Library.AList"
begin

text \<open>
  Shared vocabulary of the development: machine-integer type names, Rust's saturating,
  wrapping and checked arithmetic on unsigned integers written out over the naturals,
  the result types of fallible operations, list lemmas the components share, and the
  contract of an invariant that a family of operations preserves.

  Conventions used by every theory.
  \<^item> Wire fields and sequence numbers are words of their width (\<open>u8\<close>, \<open>u16\<close>, \<open>u32\<close>), and so is
    the generator state of the initial sequence numbers (\<open>u64\<close>).
  \<^item> Sizes (\<open>usize\<close>), milliseconds (\<open>u64\<close>), small counters (\<open>u8\<close>) and the byte counters
    (\<open>u128\<close>) are naturals, with the ceiling or the wrap-around of the Rust operator written
    out in the operation. \<open>usize\<close> has 64 bits.
  \<^item> A plain \<open>+\<close>, \<open>-\<close> or \<open>*\<close> that can overflow behaves as in Rust's release profile (it wraps).
  \<^item> A call that panics (\<open>expect\<close>, indexing a missing key) or never returns is \<open>None\<close>; a call
    that returns is \<open>Some\<close>; an \<open>Err\<close> of the source is \<open>Inl\<close> and an \<open>Ok\<close> is \<open>Inr\<close>.
\<close>

section \<open>Machine integers\<close>

unbundle bit_operations_syntax

type_synonym u8 = "8 word"
type_synonym u16 = "16 word"
type_synonym u32 = "32 word"
type_synonym u64 = "64 word"
type_synonym bytes = "u8 list"

definition u8_max :: nat where "u8_max = 255"
definition u16_max :: nat where "u16_max = 65535"
definition u64_max :: nat where "u64_max = 2 ^ 64 - 1"
definition u128_max :: nat where "u128_max = 2 ^ 128 - 1"

definition sat_add8 :: "nat \<Rightarrow> nat \<Rightarrow> nat" where
  "sat_add8 a b = min (a + b) u8_max"

definition sat_add64 :: "nat \<Rightarrow> nat \<Rightarrow> nat" where
  "sat_add64 a b = min (a + b) u64_max"

definition sat_mul64 :: "nat \<Rightarrow> nat \<Rightarrow> nat" where
  "sat_mul64 a b = min (a * b) u64_max"

definition wrap64 :: "nat \<Rightarrow> nat" where
  "wrap64 a = a mod 2 ^ 64"

definition checked_add :: "nat \<Rightarrow> nat \<Rightarrow> nat \<Rightarrow> nat option" where
  "checked_add bound a b = (if a + b \<le> bound then Some (a + b) else None)"

definition clamp :: "nat \<Rightarrow> nat \<Rightarrow> nat \<Rightarrow> nat" where
  "clamp x lo hi = (if x < lo then lo else if hi < x then hi else x)"

definition div_ceil :: "nat \<Rightarrow> nat \<Rightarrow> nat" where
  "div_ceil a b = a div b + (if 0 < a mod b then 1 else 0)"

definition abs_diff :: "nat \<Rightarrow> nat \<Rightarrow> nat" where
  "abs_diff a b = (if a < b then b - a else a - b)"

text \<open>The integer facts that the component proofs rewrite with.\<close>

named_theorems arith_defs
declare sat_add8_def [arith_defs] sat_add64_def [arith_defs] sat_mul64_def [arith_defs]
  u8_max_def [arith_defs] u16_max_def [arith_defs] clamp_def [arith_defs]

lemma wrap64_id [simp]: "n \<le> u64_max \<Longrightarrow> wrap64 n = n"
  by (simp add: wrap64_def u64_max_def)

lemma clamp_bounds: "lo \<le> hi \<Longrightarrow> lo \<le> clamp x lo hi \<and> clamp x lo hi \<le> hi"
  by (simp add: clamp_def)

lemma checked_add_Some [simp]:
  "checked_add bound a b = Some c \<longleftrightarrow> c = a + b \<and> a + b \<le> bound"
  by (auto simp: checked_add_def)

lemma sat_add64_mono: "a \<le> a' \<Longrightarrow> sat_add64 a b \<le> sat_add64 a' b"
  by (simp add: sat_add64_def)

lemma sat_add64_ge: "a \<le> u64_max \<Longrightarrow> a \<le> sat_add64 a b"
  by (simp add: sat_add64_def)

section \<open>Calls that can fail\<close>

text \<open>
  A method of the source that mutates its receiver and returns \<open>Result\<close>: the receiver comes
  back in both cases, since an early \<open>return Err\<close> or a \<open>?\<close> keeps the mutations made so far.
  \<open>call_bind\<close> is the \<open>?\<close> operator.
\<close>

type_synonym ('e, 'a, 's) call = "(('e + 'a) \<times> 's) option"

definition call_bind ::
  "('e, 'a, 's) call \<Rightarrow> ('a \<Rightarrow> 's \<Rightarrow> ('e, 'b, 's) call) \<Rightarrow> ('e, 'b, 's) call" where
  "call_bind m f = (case m of
     None \<Rightarrow> None
   | Some (Inl e, s) \<Rightarrow> Some (Inl e, s)
   | Some (Inr a, s) \<Rightarrow> f a s)"

lemma call_bind_simps [simp]:
  "call_bind None f = None"
  "call_bind (Some (Inl e, s)) f = Some (Inl e, s)"
  "call_bind (Some (Inr a, s)) f = f a s"
  by (simp_all add: call_bind_def)

lemma call_bind_split:
  "P (call_bind m f) \<longleftrightarrow>
     (m = None \<longrightarrow> P None) \<and>
     (\<forall>e s. m = Some (Inl e, s) \<longrightarrow> P (Some (Inl e, s))) \<and>
     (\<forall>a s. m = Some (Inr a, s) \<longrightarrow> P (f a s))"
  by (cases m) (auto simp: call_bind_def split: sum.splits)

lemma call_bind_Some:
  "call_bind m f = Some (r, s') \<longleftrightarrow>
     (\<exists>e. m = Some (Inl e, s') \<and> r = Inl e) \<or>
     (\<exists>a s. m = Some (Inr a, s) \<and> f a s = Some (r, s'))"
  by (cases m) (auto simp: call_bind_def split: sum.splits)

section \<open>Lists\<close>

text \<open>\<open>find_map\<close> of Rust's iterators: the first defined image.\<close>

fun find_map :: "('a \<Rightarrow> 'b option) \<Rightarrow> 'a list \<Rightarrow> 'b option" where
  "find_map f [] = None"
| "find_map f (x # xs) = (case f x of Some y \<Rightarrow> Some y | None \<Rightarrow> find_map f xs)"

text \<open>Minimum of the defined values, as \<open>Iterator::min\<close> returns it.\<close>

fun opt_min :: "nat option \<Rightarrow> nat option \<Rightarrow> nat option" where
  "opt_min None b = b"
| "opt_min a None = a"
| "opt_min (Some a) (Some b) = Some (min a b)"

definition min_list_opt :: "nat list \<Rightarrow> nat option" where
  "min_list_opt xs = foldr (\<lambda>x acc. opt_min (Some x) acc) xs None"

lemma min_list_opt_simps [simp]:
  "min_list_opt [] = None"
  "min_list_opt (x # xs) = opt_min (Some x) (min_list_opt xs)"
  by (simp_all add: min_list_opt_def)

lemma min_list_opt_None [simp]: "min_list_opt xs = None \<longleftrightarrow> xs = []"
proof (cases xs)
  case (Cons y ys)
  then show ?thesis by (cases "min_list_opt ys") auto
qed simp

lemma min_list_opt_Some: "min_list_opt xs = Some m \<Longrightarrow> m \<in> set xs \<and> (\<forall>x \<in> set xs. m \<le> x)"
proof (induction xs arbitrary: m)
  case (Cons x xs)
  then show ?case by (cases "min_list_opt xs") (auto simp: min_def split: if_splits)
qed simp

lemma filter_key_unique:
  "distinct (map fst al) \<Longrightarrow> (k, v) \<in> set al \<Longrightarrow> map_of al k = Some v"
  by simp

section \<open>Invariants of a family of operations\<close>

text \<open>
  A component is a start predicate and a step relation; \<open>reach\<close> is its set of reachable
  states. The contract \<open>invariant_system\<close> is what a component proves of its invariant, and its
  facts are what the clients of the component use.
\<close>

inductive reach :: "('s \<Rightarrow> bool) \<Rightarrow> ('s \<Rightarrow> 's \<Rightarrow> bool) \<Rightarrow> 's \<Rightarrow> bool"
  for start :: "'s \<Rightarrow> bool" and step :: "'s \<Rightarrow> 's \<Rightarrow> bool" where
  reach_start: "start s \<Longrightarrow> reach start step s"
| reach_step: "reach start step s \<Longrightarrow> step s t \<Longrightarrow> reach start step t"

locale invariant_system =
  fixes start :: "'s \<Rightarrow> bool"
    and step :: "'s \<Rightarrow> 's \<Rightarrow> bool"
    and inv :: "'s \<Rightarrow> bool"
  assumes inv_start: "start s \<Longrightarrow> inv s"
    and inv_step: "inv s \<Longrightarrow> step s t \<Longrightarrow> inv t"
begin

lemma inv_reach: "reach start step s \<Longrightarrow> inv s"
  by (induction rule: reach.induct) (auto intro: inv_start inv_step)

lemma inv_steps: "inv s \<Longrightarrow> step\<^sup>*\<^sup>* s t \<Longrightarrow> inv t"
  by (rotate_tac 1, induction rule: rtranclp_induct) (auto intro: inv_step)

end

end
