(* ===== verification/Wire.thy ===== *)
theory Wire
  imports Prelude
begin

text \<open>
  \<open>rust/fips-tcp/src/wire.rs\<close>: flags, options, segments, and the byte codec
  (\<open>Segment::encode\<close>, \<open>Segment::decode\<close>, \<open>decode_options\<close>). \<open>Display\<close> of the errors is not
  modelled. The contract \<open>codec\<close> is the promise the stack relies on: what one side encodes the
  other decodes, and whatever decodes has a canonical encoding.
\<close>

section \<open>Data\<close>

definition HEADER_LEN :: nat where "HEADER_LEN = 20"
definition FIPS_OPTION_KIND :: u8 where "FIPS_OPTION_KIND = 254"
definition FIPS_VERSION :: u8 where "FIPS_VERSION = 1"

type_synonym flags = u16

definition FIN :: flags where "FIN = 0x001"
definition SYN :: flags where "SYN = 0x002"
definition RST :: flags where "RST = 0x004"
definition PSH :: flags where "PSH = 0x008"
definition ACK :: flags where "ACK = 0x010"
definition ECE :: flags where "ECE = 0x040"
definition CWR :: flags where "CWR = 0x080"

lemmas flag_defs = FIN_def SYN_def RST_def PSH_def ACK_def ECE_def CWR_def

datatype wire_error =
    Truncated
  | InvalidHeaderLength
  | NonZeroChecksum
  | UrgentUnsupported
  | UnsupportedFlags u16
  | WireZeroPort
  | AckFlagMismatch
  | HeaderTooLong
  | OptionTooLong
  | MalformedOption

definition SUPPORTED_MASK :: flags where
  "SUPPORTED_MASK = FIN OR SYN OR RST OR PSH OR ACK OR ECE OR CWR"

definition flags_empty :: flags where
  "flags_empty = 0"

definition contains :: "flags \<Rightarrow> flags \<Rightarrow> bool" where
  "contains fs flag \<longleftrightarrow> fs AND flag = flag"

definition flags_union :: "flags \<Rightarrow> flags \<Rightarrow> flags" where
  "flags_union fs flag = fs OR flag"

definition flags_from_wire :: "u16 \<Rightarrow> wire_error + flags" where
  "flags_from_wire bits =
     (if bits AND NOT SUPPORTED_MASK \<noteq> 0 then Inl (UnsupportedFlags bits) else Inr bits)"

datatype tcp_option =
    EndOfList
  | NoOperation
  | MaxSegmentSize u16
  | FipsVersion u8 u8
  | UnknownOption u8 bytes

record segment =
  seg_src_port :: u16
  seg_dst_port :: u16
  seg_seq :: u32
  seg_ack :: "u32 option"
  seg_flags :: flags
  seg_window :: u16
  seg_options :: "tcp_option list"
  seg_payload :: bytes

section \<open>Big-endian fields\<close>

definition be16 :: "u16 \<Rightarrow> bytes" where
  "be16 w = [ucast (drop_bit 8 w), ucast w]"

definition be32 :: "u32 \<Rightarrow> bytes" where
  "be32 w = [ucast (drop_bit 24 w), ucast (drop_bit 16 w), ucast (drop_bit 8 w), ucast w]"

definition from_be16 :: "u8 \<Rightarrow> u8 \<Rightarrow> u16" where
  "from_be16 a b = push_bit 8 (ucast a) OR ucast b"

definition from_be32 :: "u8 \<Rightarrow> u8 \<Rightarrow> u8 \<Rightarrow> u8 \<Rightarrow> u32" where
  "from_be32 a b c d =
     push_bit 24 (ucast a) OR push_bit 16 (ucast b) OR push_bit 8 (ucast c) OR ucast d"

section \<open>Options\<close>

fun encoded_len :: "tcp_option \<Rightarrow> nat" where
  "encoded_len EndOfList = 1"
| "encoded_len NoOperation = 1"
| "encoded_len (MaxSegmentSize value) = 4"
| "encoded_len (FipsVersion version reserved) = 4"
| "encoded_len (UnknownOption kind data) = length data + 2"

fun encode_into :: "tcp_option \<Rightarrow> bytes \<Rightarrow> wire_error + bytes" where
  "encode_into EndOfList output = Inr (output @ [0])"
| "encode_into NoOperation output = Inr (output @ [1])"
| "encode_into (MaxSegmentSize value) output = Inr (output @ [2, 4] @ be16 value)"
| "encode_into (FipsVersion version reserved) output =
     Inr (output @ [FIPS_OPTION_KIND, 4, version, reserved])"
| "encode_into (UnknownOption kind data) output =
     (let len = length data + 2
      in if 255 < len then Inl OptionTooLong
         else if kind \<le> 1 then Inl MalformedOption
         else Inr (output @ [kind, of_nat len] @ data))"

fun encode_options :: "tcp_option list \<Rightarrow> bytes \<Rightarrow> wire_error + bytes" where
  "encode_options [] output = Inr output"
| "encode_options (opt # opts) output =
     (case encode_into opt output of
        Inl e \<Rightarrow> Inl e
      | Inr output' \<Rightarrow> encode_options opts output')"

definition decode_option :: "u8 \<Rightarrow> nat \<Rightarrow> bytes \<Rightarrow> wire_error + tcp_option" where
  "decode_option kind len data =
     (if kind = 2 \<and> len = 4 then Inr (MaxSegmentSize (from_be16 (data ! 0) (data ! 1)))
      else if kind = FIPS_OPTION_KIND \<and> len = 4 then Inr (FipsVersion (data ! 0) (data ! 1))
      else if kind = 2 \<or> kind = FIPS_OPTION_KIND then Inl MalformedOption
      else Inr (UnknownOption kind data))"

function (sequential) decode_options :: "bytes \<Rightarrow> wire_error + tcp_option list" where
  "decode_options [] = Inr []"
| "decode_options (kind # rest) =
     (if kind = 0 then Inr []
      else if kind = 1 then
        (case decode_options rest of
           Inl e \<Rightarrow> Inl e
         | Inr opts \<Rightarrow> Inr (NoOperation # opts))
      else (case rest of
          [] \<Rightarrow> Inl MalformedOption
        | len_byte # tail \<Rightarrow>
            (let len = unat len_byte
             in if len < 2 \<or> length (kind # rest) < len then Inl MalformedOption
                else (case decode_option kind len (take (len - 2) tail) of
                    Inl e \<Rightarrow> Inl e
                  | Inr opt \<Rightarrow>
                      (case decode_options (drop (len - 2) tail) of
                         Inl e \<Rightarrow> Inl e
                       | Inr opts \<Rightarrow> Inr (opt # opts))))))"
  by pat_completeness auto
termination
  by (relation "measure length") auto

section \<open>Segments\<close>

definition segment_new :: "u16 \<Rightarrow> u16 \<Rightarrow> u32 \<Rightarrow> segment" where
  "segment_new src dst seq =
     \<lparr>seg_src_port = src, seg_dst_port = dst, seg_seq = seq, seg_ack = None,
      seg_flags = flags_empty, seg_window = 65535, seg_options = [], seg_payload = []\<rparr>"

definition fips_version :: "segment \<Rightarrow> u8 option" where
  "fips_version s =
     find_map (\<lambda>opt. case opt of FipsVersion version reserved \<Rightarrow> Some version | _ \<Rightarrow> None)
       (seg_options s)"

definition supports_fips_version :: "segment \<Rightarrow> u8 \<Rightarrow> bool" where
  "supports_fips_version s expected \<longleftrightarrow>
     list_ex (\<lambda>opt. case opt of
         FipsVersion version reserved \<Rightarrow> reserved = 0 \<and> version = expected
       | _ \<Rightarrow> False) (seg_options s)"

definition max_segment_size :: "segment \<Rightarrow> u16 option" where
  "max_segment_size s =
     find_map (\<lambda>opt. case opt of MaxSegmentSize value \<Rightarrow> Some value | _ \<Rightarrow> None) (seg_options s)"

definition flag_len :: "flags \<Rightarrow> flags \<Rightarrow> u32" where
  "flag_len fs flag = (if contains fs flag then 1 else 0)"

definition sequence_len :: "segment \<Rightarrow> u32" where
  "sequence_len s =
     of_nat (length (seg_payload s)) + flag_len (seg_flags s) SYN + flag_len (seg_flags s) FIN"

definition next_multiple_of_4 :: "nat \<Rightarrow> nat" where
  "next_multiple_of_4 n = (n + 3) div 4 * 4"

definition resize :: "bytes \<Rightarrow> nat \<Rightarrow> u8 \<Rightarrow> bytes" where
  "resize xs n x = take n xs @ replicate (n - length xs) x"

definition encode :: "segment \<Rightarrow> wire_error + bytes" where
  "encode s =
     (if seg_src_port s = 0 \<or> seg_dst_port s = 0 then Inl WireZeroPort
      else if contains (seg_flags s) ACK \<noteq> (seg_ack s \<noteq> None) then Inl AckFlagMismatch
      else let
        options_len = sum_list (map encoded_len (seg_options s));
        padded_options_len = next_multiple_of_4 options_len;
        header_len = HEADER_LEN + padded_options_len
      in if 60 < header_len then Inl HeaderTooLong
      else let
        offset_and_flags = push_bit 12 ((of_nat header_len :: u16) div 4) OR seg_flags s;
        output = be16 (seg_src_port s) @ be16 (seg_dst_port s) @ be32 (seg_seq s)
          @ be32 (case seg_ack s of None \<Rightarrow> 0 | Some a \<Rightarrow> a)
          @ be16 offset_and_flags @ be16 (seg_window s) @ be16 0 @ be16 0
      in (case encode_options (seg_options s) output of
            Inl e \<Rightarrow> Inl e
          | Inr output' \<Rightarrow> Inr (resize output' header_len 0 @ seg_payload s)))"

definition decode :: "bytes \<Rightarrow> wire_error + segment" where
  "decode bs =
     (if length bs < HEADER_LEN then Inl Truncated
      else let
        src_port = from_be16 (bs ! 0) (bs ! 1);
        dst_port = from_be16 (bs ! 2) (bs ! 3)
      in if src_port = 0 \<or> dst_port = 0 then Inl WireZeroPort
      else let
        seq = from_be32 (bs ! 4) (bs ! 5) (bs ! 6) (bs ! 7);
        raw_ack = from_be32 (bs ! 8) (bs ! 9) (bs ! 10) (bs ! 11);
        offset_and_flags = from_be16 (bs ! 12) (bs ! 13);
        header_len = unat (drop_bit 12 offset_and_flags) * 4
      in if \<not> (HEADER_LEN \<le> header_len \<and> header_len \<le> 60) \<or> length bs < header_len
         then Inl InvalidHeaderLength
      else if from_be16 (bs ! 16) (bs ! 17) \<noteq> 0 then Inl NonZeroChecksum
      else if from_be16 (bs ! 18) (bs ! 19) \<noteq> 0 then Inl UrgentUnsupported
      else (case flags_from_wire (offset_and_flags AND 0x1ff) of
          Inl e \<Rightarrow> Inl e
        | Inr fs \<Rightarrow>
            (let win = from_be16 (bs ! 14) (bs ! 15) in
             case decode_options (take (header_len - HEADER_LEN) (drop HEADER_LEN bs)) of
               Inl e \<Rightarrow> Inl e
             | Inr opts \<Rightarrow> Inr \<lparr>seg_src_port = src_port, seg_dst_port = dst_port, seg_seq = seq,
                 seg_ack = (if contains fs ACK then Some raw_ack else None), seg_flags = fs,
                 seg_window = win, seg_options = opts, seg_payload = drop header_len bs\<rparr>)))"

section \<open>Field lemmas\<close>

lemma from_be16_be16 [simp]: "from_be16 (ucast (drop_bit 8 w)) (ucast w) = w"
  unfolding from_be16_def
  by (rule bit_word_eqI)
     (auto simp: bit_or_iff bit_push_bit_iff bit_unsigned_iff bit_drop_bit_eq)

lemma from_be32_be32 [simp]:
  "from_be32 (ucast (drop_bit 24 w)) (ucast (drop_bit 16 w)) (ucast (drop_bit 8 w)) (ucast w) = w"
proof (rule bit_word_eqI)
  fix n :: nat
  assume "n < LENGTH(32)"
  then consider "n < 8" | "8 \<le> n" "n < 16" | "16 \<le> n" "n < 24" | "24 \<le> n" "n < 32"
    by fastforce
  then show "bit (from_be32 (ucast (drop_bit 24 w)) (ucast (drop_bit 16 w)) (ucast (drop_bit 8 w))
      (ucast w)) n = bit w n"
    by cases (auto simp: from_be32_def bit_or_iff bit_push_bit_iff bit_unsigned_iff bit_drop_bit_eq)
qed

lemma from_be16_0 [simp]: "from_be16 0 0 = 0"
  by (simp add: from_be16_def)

lemma bit_unat_less: "bit w n \<Longrightarrow> unat w < 2 ^ k \<Longrightarrow> n < k" for w :: "'a::len word"
proof -
  assume b: "bit w n" and u: "unat w < 2 ^ k"
  have "take_bit k (unat w) = unat w"
    using u by (rule take_bit_nat_eq_self)
  moreover have "bit (unat w) n"
    using b by (simp add: bit_unsigned_iff bit_imp_le_length)
  ultimately show "n < k"
    by (metis bit_take_bit_iff)
qed

lemma supported_mask: "SUPPORTED_MASK = 0xDF"
  by (simp add: SUPPORTED_MASK_def flag_defs)

lemma supported_bits: "fs AND NOT SUPPORTED_MASK = 0 \<Longrightarrow> bit fs n \<Longrightarrow> n < 8"
proof -
  assume h: "fs AND NOT SUPPORTED_MASK = 0" "bit fs n"
  have "bit SUPPORTED_MASK n"
  proof (rule ccontr)
    assume "\<not> bit SUPPORTED_MASK n"
    with h(2) have "bit (fs AND NOT SUPPORTED_MASK) n"
      using bit_imp_le_length [OF h(2)] by (simp add: bit_and_iff bit_not_iff)
    with h(1) show False by simp
  qed
  moreover have "SUPPORTED_MASK = SUPPORTED_MASK AND mask 8"
    by (simp add: supported_mask mask_numeral)
  ultimately show ?thesis
    by (metis bit_and_iff bit_mask_iff)
qed

lemma low_flags:
  assumes "fs AND NOT SUPPORTED_MASK = 0"
  shows "(push_bit 12 h OR fs) AND 0x1ff = fs"
proof -
  have "0x1ff = (mask 9 :: u16)" by (simp add: mask_numeral)
  moreover have "(push_bit 12 h OR fs) AND mask 9 = fs"
    using supported_bits [OF assms]
    by (intro bit_word_eqI) (fastforce simp: bit_and_iff bit_or_iff bit_push_bit_iff bit_mask_iff)
  ultimately show ?thesis by simp
qed

lemma high_offset:
  assumes "fs AND NOT SUPPORTED_MASK = 0" "h < 16"
  shows "drop_bit 12 (push_bit 12 h OR fs) = (h :: u16)"
proof -
  have "bit h n \<Longrightarrow> n < 4" for n
    using assms(2) bit_unat_less [of h n 4] by (simp add: word_less_nat_alt)
  then show ?thesis
    using supported_bits [OF assms(1)]
    by (intro bit_word_eqI) (fastforce simp: bit_or_iff bit_push_bit_iff bit_drop_bit_eq)
qed

section \<open>Options round trip\<close>

text \<open>The options that survive an encoding: well-formed, and not the end marker itself.\<close>

fun option_ok :: "tcp_option \<Rightarrow> bool" where
  "option_ok EndOfList = False"
| "option_ok NoOperation = True"
| "option_ok (MaxSegmentSize value) = True"
| "option_ok (FipsVersion version reserved) = True"
| "option_ok (UnknownOption kind data) =
     (1 < kind \<and> kind \<noteq> 2 \<and> kind \<noteq> FIPS_OPTION_KIND \<and> length data + 2 \<le> 255)"

fun option_bytes :: "tcp_option \<Rightarrow> bytes" where
  "option_bytes EndOfList = [0]"
| "option_bytes NoOperation = [1]"
| "option_bytes (MaxSegmentSize value) = [2, 4] @ be16 value"
| "option_bytes (FipsVersion version reserved) = [FIPS_OPTION_KIND, 4, version, reserved]"
| "option_bytes (UnknownOption kind data) = [kind, of_nat (length data + 2)] @ data"

lemma length_option_bytes [simp]: "length (option_bytes opt) = encoded_len opt"
  by (cases opt) (auto simp: be16_def)

lemma encode_into_ok: "option_ok opt \<Longrightarrow> encode_into opt out = Inr (out @ option_bytes opt)"
  by (cases opt) (auto simp: Let_def not_le)

lemma encode_options_ok:
  "\<forall>opt \<in> set opts. option_ok opt \<Longrightarrow>
     encode_options opts out = Inr (out @ concat (map option_bytes opts))"
  by (induction opts arbitrary: out) (auto simp: encode_into_ok)

lemma length_concat_option_bytes:
  "length (concat (map option_bytes opts)) = sum_list (map encoded_len opts)"
  by (induction opts) auto

lemma unat_of_nat_u8: "n < 256 \<Longrightarrow> unat (of_nat n :: u8) = n"
  by (simp add: unat_of_nat take_bit_nat_eq_self)

lemma decode_option_bytes:
  assumes "option_ok opt"
  shows "decode_options (option_bytes opt @ rest) =
    (case decode_options rest of Inl e \<Rightarrow> Inl e | Inr opts \<Rightarrow> Inr (opt # opts))"
proof (cases opt)
  case (UnknownOption kind data)
  have "unat (of_nat (length data + 2) :: u8) = length data + 2"
    using assms UnknownOption by (intro unat_of_nat_u8) simp
  moreover have "kind \<noteq> 0" "kind \<noteq> 1" "kind \<noteq> 2" "kind \<noteq> FIPS_OPTION_KIND"
    using assms UnknownOption by auto
  ultimately show ?thesis
    using UnknownOption by (simp add: Let_def decode_option_def del: of_nat_add split: sum.split)
qed (use assms in \<open>auto simp: Let_def decode_option_def FIPS_OPTION_KIND_def be16_def
      split: sum.split\<close>)

lemma decode_options_padding: "decode_options (replicate n 0) = Inr []"
  by (cases n) auto

lemma decode_options_encoded:
  "\<forall>opt \<in> set opts. option_ok opt \<Longrightarrow>
     decode_options (concat (map option_bytes opts) @ replicate n 0) = Inr opts"
  by (induction opts) (auto simp: decode_options_padding decode_option_bytes)

lemma u8_gt_1: "kind \<noteq> 0 \<Longrightarrow> kind \<noteq> 1 \<Longrightarrow> 1 < kind" for kind :: u8
  by unat_arith

lemma decode_option_ok:
  "decode_option kind len data = Inr opt \<Longrightarrow> kind \<noteq> 0 \<Longrightarrow> kind \<noteq> 1 \<Longrightarrow> len \<le> 255 \<Longrightarrow> 2 \<le> len \<Longrightarrow>
     length data = len - 2 \<Longrightarrow> option_ok opt \<and> encoded_len opt = len"
  by (auto simp: decode_option_def u8_gt_1 split: if_splits)

lemma decode_options_ok:
  "decode_options bs = Inr opts \<Longrightarrow>
     (\<forall>opt \<in> set opts. option_ok opt) \<and> sum_list (map encoded_len opts) \<le> length bs"
proof (induction bs arbitrary: opts rule: decode_options.induct)
  case (2 kind rest)
  show ?case
  proof (cases "kind = 0 \<or> kind = 1 \<or> rest = []")
    case True
    with 2 show ?thesis by (fastforce split: if_splits sum.splits)
  next
    case False
    then obtain len_byte tail where rest: "rest = len_byte # tail" by (cases rest) auto
    let ?len = "unat len_byte"
    have len: "2 \<le> ?len" "?len \<le> Suc (Suc (length tail))" "?len \<le> 255"
      using "2.prems" False rest unsigned_less [of len_byte, where ?'a = nat]
      by (auto simp: Let_def split: if_splits)
    obtain opt opts' where o: "decode_option kind ?len (take (?len - 2) tail) = Inr opt"
        "decode_options (drop (?len - 2) tail) = Inr opts'" "opts = opt # opts'"
      using "2.prems" False rest by (auto simp: Let_def split: if_splits sum.splits)
    have "option_ok opt \<and> encoded_len opt = ?len"
      using o(1) False len by (intro decode_option_ok) auto
    moreover have "(\<forall>opt \<in> set opts'. option_ok opt) \<and>
        sum_list (map encoded_len opts') \<le> length (drop (?len - 2) tail)"
      using "2.IH"(2) [OF _ _ rest refl _ o(1) o(2)] False len rest by simp
    ultimately show ?thesis
      using o(3) len rest by auto
  qed
qed simp

section \<open>Segments round trip\<close>

definition good_segment :: "segment \<Rightarrow> bool" where
  "good_segment s \<longleftrightarrow>
     seg_src_port s \<noteq> 0 \<and> seg_dst_port s \<noteq> 0 \<and>
     (contains (seg_flags s) ACK \<longleftrightarrow> seg_ack s \<noteq> None) \<and>
     seg_flags s AND NOT SUPPORTED_MASK = 0 \<and>
     (\<forall>opt \<in> set (seg_options s). option_ok opt) \<and>
     sum_list (map encoded_len (seg_options s)) \<le> 40"

definition header_len :: "segment \<Rightarrow> nat" where
  "header_len s = HEADER_LEN + next_multiple_of_4 (sum_list (map encoded_len (seg_options s)))"

lemma next_multiple_of_4_bounds: "n \<le> next_multiple_of_4 n" "next_multiple_of_4 n < n + 4"
  unfolding next_multiple_of_4_def by arith+

lemma header_len_cases:
  assumes "good_segment s"
  obtains k where "header_len s = 4 * k" "5 \<le> k" "k \<le> 15"
proof (rule that [of "5 + (sum_list (map encoded_len (seg_options s)) + 3) div 4"])
  show "header_len s = 4 * (5 + (sum_list (map encoded_len (seg_options s)) + 3) div 4)"
    by (simp add: header_len_def HEADER_LEN_def next_multiple_of_4_def)
  show "5 + (sum_list (map encoded_len (seg_options s)) + 3) div 4 \<le> 15"
    using assms unfolding good_segment_def by linarith
qed simp

text \<open>The 20 fixed bytes, with the data offset word given.\<close>

definition fixed_header :: "segment \<Rightarrow> u16 \<Rightarrow> bytes" where
  "fixed_header s offset_and_flags =
     be16 (seg_src_port s) @ be16 (seg_dst_port s) @ be32 (seg_seq s)
       @ be32 (case seg_ack s of None \<Rightarrow> 0 | Some a \<Rightarrow> a)
       @ be16 offset_and_flags @ be16 (seg_window s) @ be16 0 @ be16 0"

definition wire_bytes :: "segment \<Rightarrow> bytes" where
  "wire_bytes s = fixed_header s (push_bit 12 ((of_nat (header_len s) :: u16) div 4) OR seg_flags s)
     @ concat (map option_bytes (seg_options s))
     @ replicate (header_len s - HEADER_LEN - sum_list (map encoded_len (seg_options s))) 0
     @ seg_payload s"

lemma length_fixed_header [simp]: "length (fixed_header s w) = 20"
  by (simp add: fixed_header_def be16_def be32_def)

lemma length_wire_bytes: "length (wire_bytes s) = header_len s + length (seg_payload s)"
  using next_multiple_of_4_bounds [of "sum_list (map encoded_len (seg_options s))"]
  by (simp add: wire_bytes_def length_concat_option_bytes header_len_def HEADER_LEN_def)

lemma encode_good:
  assumes "good_segment s"
  shows "encode s = Inr (wire_bytes s)"
proof -
  let ?n = "sum_list (map encoded_len (seg_options s))"
  have hl: "header_len s \<le> 60" "20 + ?n \<le> header_len s"
    using header_len_cases [OF assms] next_multiple_of_4_bounds [of ?n]
    by (fastforce, simp add: header_len_def HEADER_LEN_def)
  let ?w = "push_bit 12 ((of_nat (header_len s) :: u16) div 4) OR seg_flags s"
  have "encode s = (case encode_options (seg_options s) (fixed_header s ?w) of
      Inl e \<Rightarrow> Inl e | Inr out \<Rightarrow> Inr (resize out (header_len s) 0 @ seg_payload s))"
    using assms hl(1)
    by (simp add: encode_def good_segment_def Let_def flip: header_len_def fixed_header_def
        split: sum.split)
  moreover have "encode_options (seg_options s) (fixed_header s ?w)
      = Inr (fixed_header s ?w @ concat (map option_bytes (seg_options s)))"
    using assms by (intro encode_options_ok) (simp add: good_segment_def)
  ultimately show ?thesis
    using hl(2) by (simp add: wire_bytes_def resize_def length_concat_option_bytes HEADER_LEN_def)
qed

lemma offset_word:
  assumes "good_segment s"
  shows "unat (drop_bit 12 (push_bit 12 ((of_nat (header_len s) :: u16) div 4) OR seg_flags s)) * 4
    = header_len s"
proof -
  from header_len_cases [OF assms] obtain k where k: "header_len s = 4 * k" "5 \<le> k" "k \<le> 15" .
  have u: "unat ((of_nat (4 * k) :: u16) div 4) = k"
    using k by (simp add: unat_div unat_of_nat take_bit_nat_eq_self del: of_nat_mult)
  then have "(of_nat (4 * k) :: u16) div 4 < 16"
    using k by (simp add: word_less_nat_alt)
  then have "drop_bit 12 (push_bit 12 ((of_nat (4 * k) :: u16) div 4) OR seg_flags s)
      = (of_nat (4 * k) :: u16) div 4"
    using assms by (intro high_offset) (simp_all add: good_segment_def)
  with k u show ?thesis by simp
qed

lemma decode_wire_bytes:
  assumes g: "good_segment s"
  shows "decode (wire_bytes s) = Inr s"
proof -
  define w where "w = push_bit 12 ((of_nat (header_len s) :: u16) div 4) OR seg_flags s"
  define rest where "rest = concat (map option_bytes (seg_options s))
    @ replicate (header_len s - HEADER_LEN - sum_list (map encoded_len (seg_options s))) 0"
  define bs where "bs = wire_bytes s"
  have bs: "bs = fixed_header s w @ rest @ seg_payload s"
    by (simp add: bs_def wire_bytes_def w_def rest_def)
  have hl: "20 \<le> header_len s" "header_len s \<le> 60"
    using header_len_cases [OF g] by (fastforce, fastforce)
  have len: "length bs = header_len s + length (seg_payload s)"
    by (simp add: bs_def length_wire_bytes)
  then have rest: "length rest = header_len s - 20"
    using bs by simp
  have w: "unat (drop_bit 12 w) * 4 = header_len s" "w AND 0x1ff = seg_flags s"
    using offset_word [OF g] low_flags g by (simp_all add: good_segment_def w_def)
  have opts: "decode_options (take (header_len s - HEADER_LEN) (drop HEADER_LEN bs))
      = Inr (seg_options s)"
    using g decode_options_encoded [of "seg_options s"] rest
    by (simp add: bs HEADER_LEN_def good_segment_def) (simp add: rest_def HEADER_LEN_def)
  have payload: "drop (header_len s) bs = seg_payload s"
    using hl rest by (simp add: bs)
  have fields: "from_be16 (bs ! 0) (bs ! 1) = seg_src_port s"
    "from_be16 (bs ! 2) (bs ! 3) = seg_dst_port s"
    "from_be32 (bs ! 4) (bs ! 5) (bs ! 6) (bs ! 7) = seg_seq s"
    "from_be32 (bs ! 8) (bs ! 9) (bs ! 10) (bs ! 11) = (case seg_ack s of None \<Rightarrow> 0 | Some a \<Rightarrow> a)"
    "from_be16 (bs ! 12) (bs ! 13) = w" "from_be16 (bs ! 14) (bs ! 15) = seg_window s"
    "from_be16 (bs ! 16) (bs ! 17) = 0" "from_be16 (bs ! 18) (bs ! 19) = 0"
    by (simp_all add: bs fixed_header_def be16_def be32_def)
  have "decode bs = Inr s"
    using g hl len unfolding decode_def Let_def fields w payload opts
    by (cases "seg_ack s") (simp_all add: good_segment_def flags_from_wire_def HEADER_LEN_def)
  then show ?thesis by (simp add: bs_def)
qed

lemma decode_good:
  assumes "decode bs = Inr s"
  shows "good_segment s"
proof -
  let ?w = "from_be16 (bs ! 12) (bs ! 13)"
  let ?h = "unat (drop_bit 12 ?w) * 4"
  have h: "?h \<le> 60"
    using assms by (simp add: decode_def Let_def split: if_splits)
  have "decode_options (take (?h - HEADER_LEN) (drop HEADER_LEN bs)) = Inr (seg_options s)"
    and "seg_flags s AND NOT SUPPORTED_MASK = 0"
    and "contains (seg_flags s) ACK \<longleftrightarrow> seg_ack s \<noteq> None"
    and "seg_src_port s \<noteq> 0" "seg_dst_port s \<noteq> 0"
    using assms by (auto simp: decode_def Let_def flags_from_wire_def split: if_splits sum.splits)
  with h decode_options_ok [OF this(1)] show ?thesis
    by (auto simp: good_segment_def HEADER_LEN_def)
qed

section \<open>The contract of the codec\<close>

locale codec =
  fixes enc :: "'m \<Rightarrow> 'e + 'b"
    and dec :: "'b \<Rightarrow> 'e + 'm"
    and good :: "'m \<Rightarrow> bool"
    and canonical :: "'m \<Rightarrow> 'b"
  assumes enc_good: "good m \<Longrightarrow> enc m = Inr (canonical m)"
    and dec_canonical: "good m \<Longrightarrow> dec (canonical m) = Inr m"
    and dec_good: "dec b = Inr m \<Longrightarrow> good m"
begin

lemma round_trip: "good m \<Longrightarrow> \<exists>b. enc m = Inr b \<and> dec b = Inr m"
  by (simp add: enc_good dec_canonical)

lemma decoded_encodes: "dec b = Inr m \<Longrightarrow> \<exists>b'. enc m = Inr b' \<and> dec b' = Inr m"
  by (rule round_trip) (rule dec_good)

lemma enc_injective: "good m \<Longrightarrow> good m' \<Longrightarrow> enc m = enc m' \<Longrightarrow> m = m'"
  by (metis dec_canonical enc_good sum.inject(2))

end

interpretation wire: codec encode decode good_segment wire_bytes
  by unfold_locales (simp_all add: encode_good decode_wire_bytes decode_good)

end
