(* ===== verification/Types.thy ===== *)
theory Types
  imports Wire
begin

text \<open>
  \<open>rust/fips-tcp/src/types.rs\<close>: the configuration and its validation, the connection states,
  outbound datagrams and the stack's errors. \<open>Display\<close> of the errors is not modelled.
\<close>

section \<open>Errors and states\<close>

datatype tcp_state =
    SynSent
  | SynReceived
  | Established
  | FinWait1
  | FinWait2
  | CloseWait
  | Closing
  | LastAck
  | TimeWait

datatype stack_error =
    Wire wire_error
  | InvalidConfig string
  | ZeroPort
  | AlreadyListening u16
  | ConnectionExists
  | ConnectionLimit
  | NoEphemeralPort
  | UnknownConnection
  | InvalidState tcp_state

text \<open>\<open>ConnectionId(u64)\<close>; \<open>get\<close> and \<open>from_raw\<close> are the identity here.\<close>

type_synonym connection_id = nat

record 'p outbound =
  out_peer :: 'p
  out_bytes :: bytes

section \<open>Configuration\<close>

record config =
  cfg_mss :: u16
  receive_buffer :: nat
  send_buffer :: nat
  max_connections :: nat
  max_connections_per_peer :: nat
  max_reassembly_segments :: nat
  initial_rto_ms :: nat
  min_rto_ms :: nat
  max_rto_ms :: nat
  max_retransmissions :: nat
  fin_wait_2_ms :: nat
  time_wait_ms :: nat

definition config_default :: config where
  "config_default = \<lparr>
     cfg_mss = 1024,
     receive_buffer = u16_max,
     send_buffer = 1024 * 1024,
     max_connections = 1024,
     max_connections_per_peer = u64_max,
     max_reassembly_segments = 128,
     initial_rto_ms = 1000,
     min_rto_ms = 200,
     max_rto_ms = 60000,
     max_retransmissions = 8,
     fin_wait_2_ms = 60000,
     time_wait_ms = 30000\<rparr>"

definition validate :: "config \<Rightarrow> stack_error + unit" where
  "validate cfg =
     (if cfg_mss cfg = 0 then Inl (InvalidConfig ''MSS must be non-zero'')
      else if receive_buffer cfg = 0 \<or> u16_max < receive_buffer cfg
      then Inl (InvalidConfig ''receive buffer must be between 1 and 65535 bytes'')
      else if send_buffer cfg = 0 then Inl (InvalidConfig ''send buffer must be non-zero'')
      else if max_connections cfg = 0 \<or> max_connections_per_peer cfg = 0
        \<or> max_reassembly_segments cfg = 0
      then Inl (InvalidConfig ''connection limits must be non-zero'')
      else if min_rto_ms cfg = 0 \<or> initial_rto_ms cfg < min_rto_ms cfg
        \<or> max_rto_ms cfg < initial_rto_ms cfg
      then Inl (InvalidConfig ''invalid retransmission timeout bounds'')
      else if fin_wait_2_ms cfg = 0
      then Inl (InvalidConfig ''FIN-WAIT-2 duration must be non-zero'')
      else Inr ())"

text \<open>What a validated configuration gives the other components.\<close>

definition valid_config :: "config \<Rightarrow> bool" where
  "valid_config cfg \<longleftrightarrow>
     cfg_mss cfg \<noteq> 0 \<and> 0 < receive_buffer cfg \<and> receive_buffer cfg \<le> u16_max \<and>
     0 < send_buffer cfg \<and> 0 < max_connections cfg \<and> 0 < max_connections_per_peer cfg \<and>
     0 < max_reassembly_segments cfg \<and> 0 < min_rto_ms cfg \<and>
     min_rto_ms cfg \<le> initial_rto_ms cfg \<and> initial_rto_ms cfg \<le> max_rto_ms cfg \<and>
     0 < fin_wait_2_ms cfg"

lemma validate_ok: "validate cfg = Inr () \<longleftrightarrow> valid_config cfg"
  by (auto simp: validate_def valid_config_def)

lemma valid_config_default: "valid_config config_default"
  by (simp add: valid_config_def config_default_def u16_max_def u64_max_def)

text \<open>The bounds that the field types \<open>u64\<close>, \<open>usize\<close> and \<open>u8\<close> give by themselves.\<close>

definition config_typed :: "config \<Rightarrow> bool" where
  "config_typed cfg \<longleftrightarrow> max_rto_ms cfg \<le> u64_max \<and> max_connections cfg \<le> u64_max \<and>
     max_retransmissions cfg \<le> u8_max"

lemma config_typed_default: "config_typed config_default"
  by (simp add: config_typed_def config_default_def u64_max_def u8_max_def)

lemma valid_config_mss: "valid_config cfg \<Longrightarrow> 0 < unat (cfg_mss cfg)"
  by (simp add: valid_config_def unat_gt_0)

section \<open>The order of the connection states\<close>

text \<open>
  The states in the order of their declaration. Every operation moves a connection forward in
  this order (theory \<open>Conn_System\<close>), so the order is the library's \<open>linorder\<close> on the type.
\<close>

fun state_rank :: "tcp_state \<Rightarrow> nat" where
  "state_rank SynSent = 0"
| "state_rank SynReceived = 1"
| "state_rank Established = 2"
| "state_rank FinWait1 = 3"
| "state_rank FinWait2 = 4"
| "state_rank CloseWait = 5"
| "state_rank Closing = 6"
| "state_rank LastAck = 7"
| "state_rank TimeWait = 8"

lemma state_rank_inj: "state_rank s = state_rank t \<Longrightarrow> s = t"
  by (cases s; cases t) simp_all

instantiation tcp_state :: linorder
begin

definition less_eq_tcp_state :: "tcp_state \<Rightarrow> tcp_state \<Rightarrow> bool" where
  "s \<le> t \<longleftrightarrow> state_rank s \<le> state_rank t"

definition less_tcp_state :: "tcp_state \<Rightarrow> tcp_state \<Rightarrow> bool" where
  "s < t \<longleftrightarrow> state_rank s < state_rank t"

instance
  by standard (auto simp: less_eq_tcp_state_def less_tcp_state_def dest: state_rank_inj)

end

end
