(* ===== verification/Seq_Arith.thy ===== *)
theory Seq_Arith
  imports Prelude
begin

text \<open>
  \<open>rust/fips-tcp/src/seq.rs\<close>: TCP's wrapping 32-bit sequence arithmetic. The contract
  \<open>stream_order\<close> says what the rest of the program relies on: on numbers less than half the
  circle apart the comparisons are the order of the stream offsets behind them.
\<close>

definition before :: "u32 \<Rightarrow> u32 \<Rightarrow> bool" where
  "before left right \<longleftrightarrow> sint (left - right) < 0"

definition after :: "u32 \<Rightarrow> u32 \<Rightarrow> bool" where
  "after left right \<longleftrightarrow> before right left"

definition before_or_equal :: "u32 \<Rightarrow> u32 \<Rightarrow> bool" where
  "before_or_equal left right \<longleftrightarrow> left = right \<or> before left right"

definition in_closed_interval :: "u32 \<Rightarrow> u32 \<Rightarrow> u32 \<Rightarrow> bool" where
  "in_closed_interval value start end \<longleftrightarrow> \<not> before value start \<and> \<not> after value end"

definition distance :: "u32 \<Rightarrow> u32 \<Rightarrow> nat" where
  "distance start end = unat (end - start)"

lemmas seq_defs = before_def after_def before_or_equal_def in_closed_interval_def distance_def

section \<open>The comparisons as bounds on the unsigned distance\<close>

lemma bit31_unat: "bit w 31 \<longleftrightarrow> 2 ^ 31 \<le> unat w" for w :: u32
proof -
  have lt: "unat w < 2 ^ 32"
    using unsigned_less [of w, where ?'a = nat] by simp
  have "bit w 31 \<longleftrightarrow> odd (unat w div 2 ^ 31)"
    using bit_iff_odd [of "unat w" 31] by (simp add: bit_unsigned_iff)
  also have "\<dots> \<longleftrightarrow> 2 ^ 31 \<le> unat w"
  proof -
    have "unat w div 2 ^ 31 < 2" using lt by (simp add: less_mult_imp_div_less)
    then have "unat w div 2 ^ 31 = (if 2 ^ 31 \<le> unat w then 1 else 0)"
      by (auto simp: div_greater_zero_iff)
    then show ?thesis by simp
  qed
  finally show ?thesis .
qed

lemma before_unat: "before a b \<longleftrightarrow> 2 ^ 31 \<le> unat (a - b)"
  using bit_last_iff [of "a - b"] by (simp add: before_def bit31_unat)

text \<open>
  Positions of a stream. \<open>seq_at base n\<close> is the sequence number of offset \<open>n\<close> in a stream that
  starts at \<open>base\<close>; the offset is unbounded, the number wraps.
\<close>

definition seq_at :: "u32 \<Rightarrow> nat \<Rightarrow> u32" where
  "seq_at base n = base + of_nat n"

lemma seq_at_0 [simp]: "seq_at base 0 = base"
  by (simp add: seq_at_def)

lemma seq_at_add [simp]: "seq_at base m + of_nat n = seq_at base (m + n)"
  by (simp add: seq_at_def)

lemma unat_of_nat_u32: "n < 2 ^ 32 \<Longrightarrow> unat (of_nat n :: u32) = n"
  by (simp add: unat_of_nat take_bit_nat_eq_self)

lemma distance_seq_at: "m \<le> n \<Longrightarrow> n - m < 2 ^ 32 \<Longrightarrow> distance (seq_at b m) (seq_at b n) = n - m"
  by (simp add: distance_def seq_at_def unat_of_nat_u32 flip: of_nat_diff)

lemma unat_minus_u32: "0 < n \<Longrightarrow> n < 2 ^ 32 \<Longrightarrow> unat (- of_nat n :: u32) = 2 ^ 32 - n"
  using unat_sub_if' [of "0 :: u32" "of_nat n"] by (auto simp: unat_of_nat_u32 word_le_nat_alt)

lemma before_seq_at:
  assumes "m < n + 2 ^ 31" "n < m + 2 ^ 31"
  shows "before (seq_at b m) (seq_at b n) \<longleftrightarrow> m < n"
proof (cases "m < n")
  case True
  then have "seq_at b m - seq_at b n = - of_nat (n - m)"
    by (simp add: seq_at_def)
  moreover have "unat (- of_nat (n - m) :: u32) = 2 ^ 32 - (n - m)"
    using True assms by (intro unat_minus_u32) auto
  ultimately show ?thesis
    using True assms by (simp add: before_unat)
next
  case False
  then have "seq_at b m - seq_at b n = of_nat (m - n)"
    by (simp add: seq_at_def)
  moreover have "unat (of_nat (m - n) :: u32) = m - n"
    using False assms by (intro unat_of_nat_u32) auto
  ultimately show ?thesis
    using False assms by (simp add: before_unat)
qed

lemma seq_at_inj: "m < n + 2 ^ 32 \<Longrightarrow> n < m + 2 ^ 32 \<Longrightarrow> seq_at b m = seq_at b n \<longleftrightarrow> m = n"
proof -
  assume "m < n + 2 ^ 32" "n < m + 2 ^ 32"
  have *: "i = j" if "i \<le> j" "j < i + 2 ^ 32" "seq_at b i = seq_at b j" for i j
  proof -
    have "distance (seq_at b i) (seq_at b j) = j - i"
      using that by (intro distance_seq_at) auto
    with that show ?thesis by (simp add: distance_def)
  qed
  show ?thesis
    using *[of m n] *[of n m] \<open>m < n + 2 ^ 32\<close> \<open>n < m + 2 ^ 32\<close>
    by (metis linorder_le_cases)
qed

section \<open>The contract of sequence arithmetic\<close>

locale stream_order =
  fixes lt :: "'w \<Rightarrow> 'w \<Rightarrow> bool"
    and dist :: "'w \<Rightarrow> 'w \<Rightarrow> nat"
    and pos :: "nat \<Rightarrow> 'w"
    and half :: nat
  assumes lt_pos: "m < n + half \<Longrightarrow> n < m + half \<Longrightarrow> lt (pos m) (pos n) \<longleftrightarrow> m < n"
    and dist_pos: "m \<le> n \<Longrightarrow> n < m + half + half \<Longrightarrow> dist (pos m) (pos n) = n - m"
    and half_pos: "0 < half"
begin

lemma lt_irrefl: "\<not> lt (pos m) (pos m)"
  using half_pos by (simp add: lt_pos)

lemma lt_trans:
  "i < j + half \<Longrightarrow> j < i + half \<Longrightarrow> j < k + half \<Longrightarrow> k < j + half \<Longrightarrow>
   i < k + half \<Longrightarrow> k < i + half \<Longrightarrow> lt (pos i) (pos j) \<Longrightarrow> lt (pos j) (pos k) \<Longrightarrow> lt (pos i) (pos k)"
  by (simp add: lt_pos)

lemma pos_eq_iff: "m < n + half \<Longrightarrow> n < m + half \<Longrightarrow> pos m = pos n \<longleftrightarrow> m = n"
  by (metis lt_irrefl lt_pos linorder_neqE_nat)

text \<open>Trimming: how far the next expected position is inside data that starts earlier.\<close>

lemma dist_trim: "lt (pos m) (pos n) \<Longrightarrow> m < n + half \<Longrightarrow> n < m + half \<Longrightarrow>
    pos (m + dist (pos m) (pos n)) = pos n \<and> 0 < dist (pos m) (pos n)"
  by (simp add: lt_pos dist_pos)

end

interpretation sq: stream_order before distance "seq_at b" "2 ^ 31"
  by unfold_locales (simp_all add: before_seq_at distance_seq_at)

section \<open>Facts the connection proofs use\<close>

lemma distance_self [simp]: "distance a a = 0"
  by (simp add: distance_def)

lemma distance_less: "distance a b < 2 ^ 32"
  using unsigned_less [of "b - a", where ?'a = nat] by (simp add: distance_def)

lemma not_before_self [simp]: "\<not> before a a"
  by (simp add: before_unat)

lemma not_after_self [simp]: "\<not> after a a"
  by (simp add: after_def)

lemma seq_at_distance: "seq_at a (distance a b) = b"
  by (simp add: seq_at_def distance_def)

end
