(* ===== verification/Rtt.thy ===== *)
theory Rtt
  imports Types Seq_Arith
begin

text \<open>
  \<open>rust/fips-tcp/src/rtt.rs\<close>: the RFC 6298 estimator. \<open>rtt_ok\<close> is the invariant the connection
  relies on: the timeout stays between the configured bounds. The contract \<open>timer\<close> packages it.
\<close>

record rtt_estimator =
  have_measurement :: bool
  srtt_ms :: nat
  rttvar_ms :: nat
  rto_ms :: nat
  rtt_min_rto_ms :: nat
  rtt_max_rto_ms :: nat
  consecutive_rtos :: nat
  sample_after :: "u32 option"

definition rtt_new :: "nat \<Rightarrow> nat \<Rightarrow> nat \<Rightarrow> rtt_estimator" where
  "rtt_new initial min_rto max_rto = \<lparr>
     have_measurement = False,
     srtt_ms = 0,
     rttvar_ms = 0,
     rto_ms = clamp initial min_rto max_rto,
     rtt_min_rto_ms = min_rto,
     rtt_max_rto_ms = max_rto,
     consecutive_rtos = 0,
     sample_after = None\<rparr>"

definition timeout_ms :: "rtt_estimator \<Rightarrow> nat" where
  "timeout_ms r = rto_ms r"

definition can_sample :: "rtt_estimator \<Rightarrow> u32 \<Rightarrow> bool" where
  "can_sample r end_seq =
     (case sample_after r of None \<Rightarrow> True | Some e \<Rightarrow> after end_seq e)"

definition on_retransmit :: "u32 \<Rightarrow> rtt_estimator \<Rightarrow> rtt_estimator" where
  "on_retransmit end_seq r = r\<lparr>sample_after := Some end_seq\<rparr>"

definition sample_measure :: "nat \<Rightarrow> rtt_estimator \<Rightarrow> rtt_estimator" where
  "sample_measure sample r =
     (if have_measurement r
      then r\<lparr>rttvar_ms := div_ceil (wrap64 (wrap64 (rttvar_ms r * 3) + abs_diff (srtt_ms r) sample)) 4,
             srtt_ms := div_ceil (wrap64 (wrap64 (srtt_ms r * 7) + sample)) 8\<rparr>
      else r\<lparr>have_measurement := True, srtt_ms := sample, rttvar_ms := sample div 2\<rparr>)"

definition rtt_sample :: "nat \<Rightarrow> rtt_estimator \<Rightarrow> rtt_estimator" where
  "rtt_sample sample_ms r =
     (let sample = max sample_ms 1;
          r1 = sample_measure sample r;
          margin = max 5 (sat_mul64 (rttvar_ms r1) 4)
      in r1\<lparr>rto_ms := clamp (sat_add64 (srtt_ms r1) margin) (rtt_min_rto_ms r1) (rtt_max_rto_ms r1),
            consecutive_rtos := 0,
            sample_after := None\<rparr>)"

definition rtt_on_timeout :: "rtt_estimator \<Rightarrow> rtt_estimator" where
  "rtt_on_timeout r =
     (let r1 = r\<lparr>rto_ms := min (sat_mul64 (rto_ms r) 2) (rtt_max_rto_ms r),
                 consecutive_rtos := sat_add8 (consecutive_rtos r) 1\<rparr>
      in if 3 \<le> consecutive_rtos r1
         then r1\<lparr>have_measurement := False, consecutive_rtos := 0\<rparr> else r1)"

section \<open>The timeout stays in its bounds\<close>

definition rtt_ok :: "nat \<Rightarrow> nat \<Rightarrow> rtt_estimator \<Rightarrow> bool" where
  "rtt_ok lo hi r \<longleftrightarrow>
     rtt_min_rto_ms r = lo \<and> rtt_max_rto_ms r = hi \<and>
     lo \<le> rto_ms r \<and> rto_ms r \<le> hi \<and> hi \<le> u64_max"

lemma rtt_ok_new: "lo \<le> hi \<Longrightarrow> hi \<le> u64_max \<Longrightarrow> rtt_ok lo hi (rtt_new initial lo hi)"
  by (simp add: rtt_ok_def rtt_new_def clamp_bounds)

lemma rtt_ok_on_retransmit [simp]: "rtt_ok lo hi (on_retransmit e r) \<longleftrightarrow> rtt_ok lo hi r"
  by (simp add: rtt_ok_def on_retransmit_def)

lemma sample_measure_frame [simp]:
  "rtt_min_rto_ms (sample_measure s r) = rtt_min_rto_ms r"
  "rtt_max_rto_ms (sample_measure s r) = rtt_max_rto_ms r"
  by (simp_all add: sample_measure_def)

lemma rtt_ok_sample: "rtt_ok lo hi r \<Longrightarrow> rtt_ok lo hi (rtt_sample s r)"
  by (auto simp: rtt_ok_def rtt_sample_def Let_def clamp_bounds)

lemma rtt_ok_on_timeout: "rtt_ok lo hi r \<Longrightarrow> rtt_ok lo hi (rtt_on_timeout r)"
  by (auto simp: rtt_ok_def rtt_on_timeout_def Let_def sat_mul64_def)

locale timer =
  fixes timeout :: "'r \<Rightarrow> nat"
    and backoff :: "'r \<Rightarrow> 'r"
    and sampled :: "nat \<Rightarrow> 'r \<Rightarrow> 'r"
    and ok :: "nat \<Rightarrow> nat \<Rightarrow> 'r \<Rightarrow> bool"
  assumes ok_bounds: "ok lo hi r \<Longrightarrow> lo \<le> timeout r \<and> timeout r \<le> hi"
    and ok_backoff: "ok lo hi r \<Longrightarrow> ok lo hi (backoff r)"
    and ok_sampled: "ok lo hi r \<Longrightarrow> ok lo hi (sampled s r)"
    and backoff_doubles: "ok lo hi r \<Longrightarrow> timeout (backoff r) = min (2 * timeout r) hi"
begin

lemma ok_iterate: "ok lo hi r \<Longrightarrow> ok lo hi ((backoff ^^ n) r)"
  by (induction n) (auto intro: ok_backoff)

lemma iterate_timeout: "ok lo hi r \<Longrightarrow> timeout ((backoff ^^ n) r) = min (2 ^ n * timeout r) hi"
proof (induction n)
  case 0
  then show ?case using ok_bounds by simp
next
  case (Suc n)
  then have "timeout ((backoff ^^ Suc n) r) = min (2 * min (2 ^ n * timeout r) hi) hi"
    using backoff_doubles [OF ok_iterate [of lo hi r n]] by simp
  also have "\<dots> = min (2 ^ Suc n * timeout r) hi"
    by (simp add: min_def)
  finally show ?case .
qed

lemma timeout_positive: "ok lo hi r \<Longrightarrow> 0 < lo \<Longrightarrow> 0 < timeout ((backoff ^^ n) r)"
  using ok_bounds [OF ok_iterate] by (meson less_le_trans)

end

lemma timeout_on_timeout: "rtt_ok lo hi r \<Longrightarrow> timeout_ms (rtt_on_timeout r) = min (2 * timeout_ms r) hi"
  by (auto simp: rtt_ok_def timeout_ms_def rtt_on_timeout_def Let_def sat_mul64_def min_def)

interpretation rto: timer timeout_ms rtt_on_timeout rtt_sample rtt_ok
  by unfold_locales
     (auto simp: rtt_ok_on_timeout rtt_ok_sample timeout_on_timeout, auto simp: rtt_ok_def timeout_ms_def)

section \<open>Karn's rule and the estimate\<close>

lemma can_sample_after_retransmit: "can_sample (on_retransmit e r) s \<longleftrightarrow> after s e"
  by (simp add: can_sample_def on_retransmit_def)

text \<open>
  The plain multiplications of \<open>sample\<close> do not wrap while the estimates and the samples stay
  below \<open>2 ^ 60\<close> milliseconds, and then stay below it.
\<close>

definition rtt_small :: "rtt_estimator \<Rightarrow> bool" where
  "rtt_small r \<longleftrightarrow> srtt_ms r \<le> 2 ^ 60 \<and> rttvar_ms r \<le> 2 ^ 60"

lemma sample_measure_small:
  assumes "rtt_small r" "have_measurement r" "s \<le> 2 ^ 60"
  shows "srtt_ms (sample_measure s r) = div_ceil (srtt_ms r * 7 + s) 8"
    and "rttvar_ms (sample_measure s r) = div_ceil (rttvar_ms r * 3 + abs_diff (srtt_ms r) s) 4"
proof -
  have "srtt_ms r * 7 + s \<le> u64_max" "srtt_ms r * 7 \<le> u64_max"
    "rttvar_ms r * 3 + abs_diff (srtt_ms r) s \<le> u64_max" "rttvar_ms r * 3 \<le> u64_max"
    using assms by (auto simp: rtt_small_def u64_max_def abs_diff_def)
  with assms(2) show "srtt_ms (sample_measure s r) = div_ceil (srtt_ms r * 7 + s) 8"
    and "rttvar_ms (sample_measure s r) = div_ceil (rttvar_ms r * 3 + abs_diff (srtt_ms r) s) 4"
    by (simp_all add: sample_measure_def)
qed

lemma div_ceil_le: "0 < k \<Longrightarrow> a \<le> k * m \<Longrightarrow> div_ceil a k \<le> m"
proof -
  assume k: "0 < k" and a: "a \<le> k * m"
  show "div_ceil a k \<le> m"
  proof (cases "a mod k = 0")
    case True
    then show ?thesis using k a by (simp add: div_ceil_def) (metis div_le_mono nonzero_mult_div_cancel_left not_gr0)
  next
    case False
    then have "a < k * m" using a by (metis mod_mult_self1_is_0 le_neq_implies_less)
    then show ?thesis using k False by (simp add: div_ceil_def Suc_leI less_mult_imp_div_less mult.commute)
  qed
qed

lemma rtt_small_sample: "rtt_small r \<Longrightarrow> s \<le> 2 ^ 60 \<Longrightarrow> rtt_small (rtt_sample s r)"
  using sample_measure_small [of r "max s 1"]
  by (cases "have_measurement r")
     (auto simp: rtt_small_def rtt_sample_def Let_def abs_diff_def sample_measure_def [of _ r]
        intro!: div_ceil_le)

end
