(* ===== verification/Reno.thy ===== *)
theory Reno
  imports Prelude
begin

text \<open>
  \<open>rust/fips-tcp/src/reno.rs\<close>: Reno congestion control. The contract \<open>congestion\<close> is what the
  sender relies on: the window never falls below one segment, whatever happens, so that data
  keeps moving once the peer's window allows it.
\<close>

record reno =
  cwnd :: nat
  reno_mss :: nat
  ssthresh :: nat
  in_fast_recovery :: bool
  in_rto_recovery :: bool

definition reno_new :: "nat \<Rightarrow> reno" where
  "reno_new mss = \<lparr>
     cwnd = sat_mul64 mss 2,
     reno_mss = mss,
     ssthresh = u64_max,
     in_fast_recovery = False,
     in_rto_recovery = False\<rparr>"

definition reno_window :: "reno \<Rightarrow> nat" where
  "reno_window r = max (cwnd r) (reno_mss r)"

definition set_mss :: "nat \<Rightarrow> reno \<Rightarrow> reno" where
  "set_mss mss r = r\<lparr>reno_mss := max mss 1, cwnd := max (cwnd r) (max mss 1)\<rparr>"

definition reno_on_ack :: "nat \<Rightarrow> reno \<Rightarrow> reno" where
  "reno_on_ack acked r =
     (if acked = 0 then r
      else let r1 = r\<lparr>in_rto_recovery := False\<rparr>
      in if in_fast_recovery r1
         then r1\<lparr>in_fast_recovery := False, cwnd := ssthresh r1\<rparr>
      else let increment =
        (if cwnd r1 < ssthresh r1 then min acked (reno_mss r1)
         else max (if cwnd r1 = 0 then 0 else sat_mul64 (reno_mss r1) (reno_mss r1) div cwnd r1) 1)
      in r1\<lparr>cwnd := max (sat_add64 (cwnd r1) increment) (reno_mss r1)\<rparr>)"

definition reno_on_duplicate_ack :: "reno \<Rightarrow> reno" where
  "reno_on_duplicate_ack r =
     (if in_fast_recovery r then r\<lparr>cwnd := sat_add64 (cwnd r) (reno_mss r)\<rparr> else r)"

definition reno_on_fast_loss :: "nat \<Rightarrow> reno \<Rightarrow> reno" where
  "reno_on_fast_loss in_flight r =
     (if in_fast_recovery r then r
      else let r1 = r\<lparr>ssthresh := max (in_flight div 2) (sat_mul64 (reno_mss r) 2)\<rparr>
      in r1\<lparr>cwnd := sat_add64 (ssthresh r1) (sat_mul64 (reno_mss r1) 3), in_fast_recovery := True\<rparr>)"

definition reno_on_timeout :: "nat \<Rightarrow> reno \<Rightarrow> reno" where
  "reno_on_timeout in_flight r =
     (let r1 = (if in_rto_recovery r then r
                else r\<lparr>ssthresh := max (in_flight div 2) (sat_mul64 (reno_mss r) 2),
                       in_rto_recovery := True\<rparr>)
      in r1\<lparr>cwnd := reno_mss r1, in_fast_recovery := False\<rparr>)"

lemmas reno_defs = reno_new_def reno_window_def set_mss_def reno_on_ack_def
  reno_on_duplicate_ack_def reno_on_fast_loss_def reno_on_timeout_def Let_def

section \<open>What each event does to the segment size and the window\<close>

lemma reno_mss_frame [simp]:
  "reno_mss (reno_on_ack n r) = reno_mss r"
  "reno_mss (reno_on_duplicate_ack r) = reno_mss r"
  "reno_mss (reno_on_fast_loss n r) = reno_mss r"
  "reno_mss (reno_on_timeout n r) = reno_mss r"
  "reno_mss (reno_new m) = m"
  "reno_mss (set_mss m r) = max m 1"
  by (simp_all add: reno_defs)

lemma reno_window_ge: "reno_mss r \<le> reno_window r"
  by (simp add: reno_window_def)

lemma reno_window_timeout: "reno_window (reno_on_timeout n r) = reno_mss r"
  by (simp add: reno_defs)

section \<open>The congestion window keeps at least one segment\<close>

text \<open>
  \<open>reno_ok\<close> is the estimator's invariant: both the window and the threshold hold a segment, so
  the \<open>max\<close> in \<open>window\<close> never decides, and leaving fast recovery cannot shrink the window to less
  than a segment.
\<close>

definition reno_ok :: "reno \<Rightarrow> bool" where
  "reno_ok r \<longleftrightarrow>
     0 < reno_mss r \<and> reno_mss r \<le> u16_max \<and> reno_mss r \<le> cwnd r \<and> reno_mss r \<le> ssthresh r"

lemma reno_ok_new: "0 < m \<Longrightarrow> m \<le> u16_max \<Longrightarrow> reno_ok (reno_new m)"
  by (simp add: reno_ok_def reno_defs sat_mul64_def u16_max_def u64_max_def)

lemma reno_ok_set_mss: "reno_ok r \<Longrightarrow> 0 < m \<Longrightarrow> m \<le> reno_mss r \<Longrightarrow> reno_ok (set_mss m r)"
  by (simp add: reno_ok_def set_mss_def)

lemma reno_ok_on_ack: "reno_ok r \<Longrightarrow> reno_ok (reno_on_ack n r)"
  by (auto simp: reno_ok_def reno_on_ack_def Let_def)

lemma reno_ok_on_duplicate_ack: "reno_ok r \<Longrightarrow> reno_ok (reno_on_duplicate_ack r)"
  by (simp add: reno_ok_def reno_on_duplicate_ack_def sat_add64_def u16_max_def u64_max_def)

lemma reno_ok_on_fast_loss: "reno_ok r \<Longrightarrow> reno_ok (reno_on_fast_loss n r)"
  by (auto simp: reno_ok_def reno_on_fast_loss_def Let_def arith_defs u64_max_def)

lemma reno_ok_on_timeout: "reno_ok r \<Longrightarrow> reno_ok (reno_on_timeout n r)"
  by (auto simp: reno_ok_def reno_on_timeout_def Let_def arith_defs u64_max_def)

lemmas reno_ok_intros = reno_ok_set_mss reno_ok_on_ack reno_ok_on_duplicate_ack
  reno_ok_on_fast_loss reno_ok_on_timeout

text \<open>Outside fast recovery one acknowledgment opens the window by at most one segment.\<close>

lemma congestion_avoidance_step:
  assumes "0 < (m::nat)" "m \<le> c"
  shows "max (min (m * m) b div c) 1 \<le> m"
proof -
  have "min (m * m) b div c \<le> m * m div c" by (simp add: div_le_mono)
  also have "\<dots> \<le> c * m div c" using assms by (intro div_le_mono) simp
  also have "\<dots> = m" using assms by simp
  finally show ?thesis using assms by simp
qed

lemma reno_window_on_ack_growth:
  assumes "reno_ok r" "\<not> in_fast_recovery r"
  shows "reno_window (reno_on_ack n r) \<le> reno_window r + reno_mss r"
  using assms congestion_avoidance_step [of "reno_mss r" "cwnd r" u64_max]
  by (auto simp: reno_ok_def reno_on_ack_def reno_window_def Let_def sat_add64_def sat_mul64_def)

text \<open>A loss halves what was in flight, with two segments as the floor.\<close>

lemma reno_ssthresh_loss:
  "\<not> in_fast_recovery r \<Longrightarrow>
     ssthresh (reno_on_fast_loss n r) = max (n div 2) (sat_mul64 (reno_mss r) 2)"
  "\<not> in_rto_recovery r \<Longrightarrow>
     ssthresh (reno_on_timeout n r) = max (n div 2) (sat_mul64 (reno_mss r) 2)"
  by (simp_all add: reno_on_fast_loss_def reno_on_timeout_def Let_def)

section \<open>The contract of congestion control\<close>

inductive reno_event :: "reno \<Rightarrow> reno \<Rightarrow> bool" where
  "reno_event r (reno_on_ack n r)"
| "reno_event r (reno_on_duplicate_ack r)"
| "reno_event r (reno_on_fast_loss n r)"
| "reno_event r (reno_on_timeout n r)"

locale congestion =
  fixes win :: "'c \<Rightarrow> nat"
    and size_of :: "'c \<Rightarrow> nat"
    and event :: "'c \<Rightarrow> 'c \<Rightarrow> bool"
    and ok :: "'c \<Rightarrow> bool"
  assumes ok_win: "ok c \<Longrightarrow> 0 < size_of c \<and> size_of c \<le> win c"
    and ok_event: "ok c \<Longrightarrow> event c c' \<Longrightarrow> ok c'"
    and event_size: "event c c' \<Longrightarrow> size_of c' = size_of c"
begin

lemma ok_events: "event\<^sup>*\<^sup>* c c' \<Longrightarrow> ok c \<Longrightarrow> ok c' \<and> size_of c' = size_of c"
  by (induction rule: rtranclp_induct) (auto simp: event_size dest: ok_event)

lemma window_never_closes: "event\<^sup>*\<^sup>* c c' \<Longrightarrow> ok c \<Longrightarrow> size_of c \<le> win c' \<and> 0 < win c'"
  using ok_events ok_win by fastforce

end

interpretation rn: congestion reno_window reno_mss reno_event reno_ok
proof
  fix c c' :: reno
  show "reno_ok c \<Longrightarrow> 0 < reno_mss c \<and> reno_mss c \<le> reno_window c"
    by (simp add: reno_ok_def reno_window_def)
  show "reno_ok c \<Longrightarrow> reno_event c c' \<Longrightarrow> reno_ok c'"
    by (auto elim!: reno_event.cases intro: reno_ok_intros)
  show "reno_event c c' \<Longrightarrow> reno_mss c' = reno_mss c"
    by (auto elim: reno_event.cases)
qed

end
