(* ===== verification/Marker.thy ===== *)
theory Marker
  imports Types
begin

text \<open>
  \<open>rust/fips-tcp/src/marker.rs\<close>: send markers. The process-wide counter
  \<open>NEXT_CONNECTION_TOKEN\<close> is an argument and a result of \<open>send_progress_new\<close>. The contract
  \<open>boundary\<close> is what a marker means: it is reached exactly when the bytes accepted before it
  are acknowledged, and it never becomes pending again.
\<close>

record send_marker =
  marker_connection_id :: connection_id
  marker_token :: nat
  marker_accepted :: nat

datatype marker_status = Pending | Acked | ConnectionGone

record send_progress =
  connection_token :: nat
  accepted_payload_bytes :: nat
  acked_payload_bytes :: nat

definition send_progress_new :: "nat \<Rightarrow> (send_progress \<times> nat) option" where
  "send_progress_new next_token =
     (case checked_add u64_max next_token 1 of
        None \<Rightarrow> None
      | Some t \<Rightarrow> Some (\<lparr>connection_token = next_token, accepted_payload_bytes = 0,
                         acked_payload_bytes = 0\<rparr>, t))"

definition progress_accept :: "nat \<Rightarrow> send_progress \<Rightarrow> send_progress option" where
  "progress_accept n p =
     (case checked_add u128_max (accepted_payload_bytes p) n of
        None \<Rightarrow> None
      | Some m \<Rightarrow> Some (p\<lparr>accepted_payload_bytes := m\<rparr>))"

definition progress_acknowledge :: "nat \<Rightarrow> send_progress \<Rightarrow> send_progress option" where
  "progress_acknowledge n p =
     (case checked_add u128_max (acked_payload_bytes p) n of
        None \<Rightarrow> None
      | Some m \<Rightarrow> Some (p\<lparr>acked_payload_bytes := m\<rparr>))"

definition progress_marker :: "connection_id \<Rightarrow> send_progress \<Rightarrow> send_marker" where
  "progress_marker cid p = \<lparr>
     marker_connection_id = cid,
     marker_token = connection_token p,
     marker_accepted = accepted_payload_bytes p\<rparr>"

definition progress_status :: "send_marker \<Rightarrow> send_progress \<Rightarrow> marker_status" where
  "progress_status m p =
     (if marker_token m \<noteq> connection_token p then ConnectionGone
      else if marker_accepted m \<le> acked_payload_bytes p then Acked
      else Pending)"

lemma progress_accept_Some:
  "progress_accept n p = Some p' \<longleftrightarrow>
     p' = p\<lparr>accepted_payload_bytes := accepted_payload_bytes p + n\<rparr> \<and>
     accepted_payload_bytes p + n \<le> u128_max"
  by (auto simp: progress_accept_def split: option.splits) (auto simp: checked_add_def)

lemma progress_acknowledge_Some:
  "progress_acknowledge n p = Some p' \<longleftrightarrow>
     p' = p\<lparr>acked_payload_bytes := acked_payload_bytes p + n\<rparr> \<and>
     acked_payload_bytes p + n \<le> u128_max"
  by (auto simp: progress_acknowledge_def split: option.splits) (auto simp: checked_add_def)

lemma send_progress_new_Some:
  "send_progress_new tok = Some (p, tok') \<longleftrightarrow>
     p = \<lparr>connection_token = tok, accepted_payload_bytes = 0, acked_payload_bytes = 0\<rparr> \<and>
     tok' = tok + 1 \<and> tok < u64_max"
  by (auto simp: send_progress_new_def split: option.splits) (auto simp: checked_add_def)

section \<open>The contract of a boundary\<close>

inductive progress_step :: "send_progress \<Rightarrow> send_progress \<Rightarrow> bool" where
  step_accept: "progress_accept n p = Some p' \<Longrightarrow> progress_step p p'"
| step_acknowledge: "progress_acknowledge n p = Some p' \<Longrightarrow> progress_step p p'"

locale boundary =
  fixes mark :: "'p \<Rightarrow> 'm"
    and acked :: "'m \<Rightarrow> 'p \<Rightarrow> bool"
    and gone :: "'m \<Rightarrow> 'p \<Rightarrow> bool"
    and step :: "'p \<Rightarrow> 'p \<Rightarrow> bool"
    and outstanding :: "'p \<Rightarrow> nat"
  assumes acked_mark: "acked (mark p) p \<longleftrightarrow> outstanding p = 0"
    and gone_mark: "\<not> gone (mark p) p"
    and step_acked: "step p p' \<Longrightarrow> acked m p \<Longrightarrow> acked m p'"
    and step_gone: "step p p' \<Longrightarrow> gone m p' \<longleftrightarrow> gone m p"
begin

lemma acked_stable: "step\<^sup>*\<^sup>* p p' \<Longrightarrow> acked m p \<Longrightarrow> acked m p'"
  by (induction rule: rtranclp_induct) (auto dest: step_acked)

lemma mark_never_gone: "step\<^sup>*\<^sup>* p p' \<Longrightarrow> \<not> gone (mark p) p'"
  by (induction rule: rtranclp_induct) (auto simp: gone_mark step_gone)

lemma barrier_acked: "step\<^sup>*\<^sup>* p p' \<Longrightarrow> outstanding p = 0 \<Longrightarrow> acked (mark p) p'"
  using acked_stable [of p p' "mark p"] acked_mark [of p] by blast

end

interpretation marker: boundary "progress_marker cid" "\<lambda>m p. progress_status m p = Acked"
  "\<lambda>m p. progress_status m p = ConnectionGone" progress_step
  "\<lambda>p. accepted_payload_bytes p - acked_payload_bytes p"
  by unfold_locales
     (auto simp: progress_marker_def progress_status_def progress_accept_Some
        progress_acknowledge_Some elim!: progress_step.cases split: if_splits)

end
