(* ===== verification/Segments.thy ===== *)
theory Segments
  imports Wire Seq_Arith
begin

text \<open>
  \<open>rust/fips-tcp/src/segment.rs\<close> and \<open>connection_types.rs\<close>: building an outgoing segment, and
  the two queue entries of a connection, the tracked (sent, unacknowledged) segment and the
  reassembly segment.
\<close>

record segment_header =
  hdr_local_port :: u16
  hdr_remote_port :: u16
  hdr_seq :: u32
  hdr_ack :: u32
  hdr_window :: u16
  hdr_mss :: u16
  hdr_flags :: flags

definition build_segment :: "segment_header \<Rightarrow> bytes \<Rightarrow> segment" where
  "build_segment header payload =
     (let s0 = segment_new (hdr_local_port header) (hdr_remote_port header) (hdr_seq header);
          s1 = s0\<lparr>seg_flags := hdr_flags header, seg_window := hdr_window header,
                  seg_payload := payload\<rparr>;
          s2 = (if contains (hdr_flags header) ACK
                then s1\<lparr>seg_ack := Some (hdr_ack header)\<rparr> else s1)
      in if contains (hdr_flags header) SYN
         then s2\<lparr>seg_options := [MaxSegmentSize (hdr_mss header), FipsVersion FIPS_VERSION 0]\<rparr>
         else s2)"

definition is_duplicate_ack_candidate :: "segment \<Rightarrow> u32 \<Rightarrow> nat \<Rightarrow> bool" where
  "is_duplicate_ack_candidate s una remote_win \<longleftrightarrow>
     seg_ack s = Some una \<and>
     seg_payload s = [] \<and>
     \<not> contains (seg_flags s) SYN \<and>
     \<not> contains (seg_flags s) FIN \<and>
     unat (seg_window s) \<le> remote_win"

record tracked_segment =
  trk_seq :: u32
  trk_flags :: flags
  trk_payload :: bytes
  sent_at_ms :: nat
  transmissions :: nat

definition trk_end_seq :: "tracked_segment \<Rightarrow> u32" where
  "trk_end_seq t =
     trk_seq t + of_nat (length (trk_payload t)) + flag_len (trk_flags t) SYN
       + flag_len (trk_flags t) FIN"

record reassembly_segment =
  rsm_seq :: u32
  rsm_payload :: bytes
  rsm_fin :: bool

definition rsm_end_seq :: "reassembly_segment \<Rightarrow> u32" where
  "rsm_end_seq r = rsm_seq r + of_nat (length (rsm_payload r)) + (if rsm_fin r then 1 else 0)"

section \<open>What a built segment carries\<close>

lemma build_segment_simps [simp]:
  "seg_src_port (build_segment h p) = hdr_local_port h"
  "seg_dst_port (build_segment h p) = hdr_remote_port h"
  "seg_seq (build_segment h p) = hdr_seq h"
  "seg_flags (build_segment h p) = hdr_flags h"
  "seg_window (build_segment h p) = hdr_window h"
  "seg_payload (build_segment h p) = p"
  "seg_ack (build_segment h p) = (if contains (hdr_flags h) ACK then Some (hdr_ack h) else None)"
  "seg_options (build_segment h p) =
     (if contains (hdr_flags h) SYN
      then [MaxSegmentSize (hdr_mss h), FipsVersion FIPS_VERSION 0] else [])"
  by (simp_all add: build_segment_def segment_new_def Let_def)

text \<open>Everything a connection sends is encodable and decodes to itself on the other side.\<close>

lemma build_segment_good:
  "hdr_local_port h \<noteq> 0 \<Longrightarrow> hdr_remote_port h \<noteq> 0 \<Longrightarrow> hdr_flags h AND NOT SUPPORTED_MASK = 0 \<Longrightarrow>
     good_segment (build_segment h p)"
  by (simp add: good_segment_def)

section \<open>Flag sets in use\<close>

text \<open>Membership of each flag in the combinations the program builds.\<close>

lemma contains_flags [simp]:
  "contains SYN SYN" "\<not> contains SYN FIN" "\<not> contains SYN ACK" "\<not> contains SYN RST"
  "contains (SYN OR ACK) SYN" "contains (SYN OR ACK) ACK" "\<not> contains (SYN OR ACK) FIN"
  "\<not> contains (SYN OR ACK) RST"
  "contains ACK ACK" "\<not> contains ACK SYN" "\<not> contains ACK FIN" "\<not> contains ACK RST"
  "contains (ACK OR PSH) ACK" "\<not> contains (ACK OR PSH) SYN" "\<not> contains (ACK OR PSH) FIN"
  "\<not> contains (ACK OR PSH) RST"
  "contains (FIN OR ACK) FIN" "contains (FIN OR ACK) ACK" "\<not> contains (FIN OR ACK) SYN"
  "\<not> contains (FIN OR ACK) RST"
  "contains RST RST" "\<not> contains RST ACK" "\<not> contains RST SYN" "\<not> contains RST FIN"
  "contains (RST OR ACK) RST" "contains (RST OR ACK) ACK" "\<not> contains (RST OR ACK) SYN"
  "\<not> contains (RST OR ACK) FIN"
  by (simp_all add: contains_def flag_defs)

lemma supported_flags [simp]:
  "SYN AND NOT SUPPORTED_MASK = 0" "(SYN OR ACK) AND NOT SUPPORTED_MASK = 0"
  "ACK AND NOT SUPPORTED_MASK = 0" "(ACK OR PSH) AND NOT SUPPORTED_MASK = 0"
  "(FIN OR ACK) AND NOT SUPPORTED_MASK = 0" "RST AND NOT SUPPORTED_MASK = 0"
  "(RST OR ACK) AND NOT SUPPORTED_MASK = 0"
  by (simp_all add: supported_mask flag_defs)

lemma flag_len_simps [simp]:
  "flag_len SYN SYN = 1" "flag_len SYN FIN = 0"
  "flag_len (SYN OR ACK) SYN = 1" "flag_len (SYN OR ACK) FIN = 0"
  "flag_len (ACK OR PSH) SYN = 0" "flag_len (ACK OR PSH) FIN = 0"
  "flag_len (FIN OR ACK) SYN = 0" "flag_len (FIN OR ACK) FIN = 1"
  by (simp_all add: flag_len_def)

end
