(* ===== verification/Connection.thy ===== *)
theory Connection
  imports Rtt Reno Marker Segments
begin

text \<open>
  One connection: the record \<open>Connection\<close> of \<open>stack_types.rs\<close> and every method of its
  \<open>impl\<close> blocks in \<open>stack.rs\<close>, \<open>stack_poll.rs\<close>, \<open>connection_reset.rs\<close> and
  \<open>connection_recovery.rs\<close>, in that form: a method takes the connection and returns it updated.
  A method whose result is an \<open>option\<close> may panic or fail to return (\<open>None\<close>); theory
  \<open>Conn_Invariant\<close> shows when it does not.
\<close>

section \<open>State\<close>

record 'p connection =
  peer :: 'p
  local_port :: u16
  remote_port :: u16
  state :: tcp_state
  send_una :: u32
  send_nxt :: u32
  recv_nxt :: u32
  remote_window :: nat
  mss :: nat
  receive_capacity :: nat
  max_transmissions :: nat
  send_queue :: bytes
  recv_queue :: bytes
  reassembly :: "reassembly_segment list"
  unacked :: "tracked_segment list"
  rtt :: rtt_estimator
  reno :: reno
  duplicate_acks :: nat
  rto_recovery_until :: "u32 option"
  close_requested :: bool
  next_zero_window_probe_ms :: "nat option"
  zero_window_probes :: nat
  read_closed :: bool
  send_progress :: send_progress
  fin_wait_2_until_ms :: "nat option"
  time_wait_until_ms :: "nat option"

record update =
  upd_segments :: "segment list"
  upd_accepted :: bool
  upd_closed :: bool

definition update_open :: "segment list \<Rightarrow> update" where
  "update_open segments = \<lparr>upd_segments = segments, upd_accepted = False, upd_closed = False\<rparr>"

definition update_close :: "segment list \<Rightarrow> update" where
  "update_close segments = \<lparr>upd_segments = segments, upd_accepted = False, upd_closed = True\<rparr>"

record ack_outcome =
  ack_fin_acked :: bool
  ack_retransmit :: "segment option"

definition no_outcome :: ack_outcome where
  "no_outcome = \<lparr>ack_fin_acked = False, ack_retransmit = None\<rparr>"

section \<open>Receive window and outgoing segments\<close>

definition available_window :: "'p connection \<Rightarrow> nat" where
  "available_window c =
     receive_capacity c -
       sat_add64 (length (recv_queue c)) (sum_list (map (length \<circ> rsm_payload) (reassembly c)))"

definition available_window_u16 :: "'p connection \<Rightarrow> u16" where
  "available_window_u16 c = of_nat (min (available_window c) u16_max)"

definition ack_segment :: "'p connection \<Rightarrow> segment" where
  "ack_segment c = build_segment
     \<lparr>hdr_local_port = local_port c, hdr_remote_port = remote_port c, hdr_seq = send_nxt c,
      hdr_ack = recv_nxt c, hdr_window = available_window_u16 c, hdr_mss = of_nat (mss c),
      hdr_flags = ACK\<rparr> []"

definition reset_segment :: "'p connection \<Rightarrow> segment" where
  "reset_segment c = build_segment
     \<lparr>hdr_local_port = local_port c, hdr_remote_port = remote_port c, hdr_seq = send_nxt c,
      hdr_ack = recv_nxt c, hdr_window = 0, hdr_mss = of_nat (mss c),
      hdr_flags = RST\<rparr> []"

definition segment_for :: "tracked_segment \<Rightarrow> 'p connection \<Rightarrow> segment" where
  "segment_for tracked c = build_segment
     \<lparr>hdr_local_port = local_port c, hdr_remote_port = remote_port c, hdr_seq = trk_seq tracked,
      hdr_ack = recv_nxt c, hdr_window = available_window_u16 c, hdr_mss = of_nat (mss c),
      hdr_flags = trk_flags tracked\<rparr> (trk_payload tracked)"

definition negotiate_mss :: "segment \<Rightarrow> config \<Rightarrow> 'p connection \<Rightarrow> 'p connection" where
  "negotiate_mss s cfg c =
     (let offered = (case max_segment_size s of None \<Rightarrow> 1024 | Some m \<Rightarrow> m);
          m = max (unat (min offered (cfg_mss cfg))) 1
      in c\<lparr>mss := m, reno := set_mss m (reno c)\<rparr>)"

definition update_remote_window :: "u16 \<Rightarrow> nat \<Rightarrow> 'p connection \<Rightarrow> 'p connection" where
  "update_remote_window win now_ms c =
     (let c1 = c\<lparr>remote_window := unat win\<rparr>
      in if win = 0
         then c1\<lparr>next_zero_window_probe_ms :=
               (case next_zero_window_probe_ms c1 of
                  Some d \<Rightarrow> Some d
                | None \<Rightarrow> Some (sat_add64 now_ms (timeout_ms (rtt c1))))\<rparr>
         else c1\<lparr>next_zero_window_probe_ms := None, zero_window_probes := 0\<rparr>)"

section \<open>Sending\<close>

definition send_tracked :: "flags \<Rightarrow> bytes \<Rightarrow> nat \<Rightarrow> 'p connection \<Rightarrow> segment \<times> 'p connection" where
  "send_tracked fs payload now_ms c =
     (let tracked = \<lparr>trk_seq = send_nxt c, trk_flags = fs, trk_payload = payload,
                     sent_at_ms = now_ms, transmissions = 1\<rparr>;
          c1 = c\<lparr>send_nxt := trk_end_seq tracked\<rparr>
      in (segment_for tracked c1, c1\<lparr>unacked := unacked c1 @ [tracked]\<rparr>))"

definition send_window :: "'p connection \<Rightarrow> nat" where
  "send_window c = min (remote_window c) (reno_window (reno c)) - distance (send_una c) (send_nxt c)"

text \<open>
  The loop of \<open>flush_data\<close>. Its only exits are an exhausted window and an empty queue, so a
  segment size of zero would never leave it: the result is an option.
\<close>

partial_function (option) flush_loop ::
  "nat \<Rightarrow> segment list \<Rightarrow> 'p connection \<Rightarrow> (segment list \<times> 'p connection) option" where
  "flush_loop now_ms output c =
     (let available = send_window c
      in if available = 0 \<or> send_queue c = [] then Some (output, c)
      else let
        count = min (min available (mss c)) (length (send_queue c));
        payload = take count (send_queue c);
        sent = send_tracked (ACK OR PSH) payload now_ms
          (c\<lparr>send_queue := drop count (send_queue c)\<rparr>)
      in flush_loop now_ms (output @ [fst sent]) (snd sent))"

definition flush_fin :: "nat \<Rightarrow> segment list \<Rightarrow> 'p connection \<Rightarrow> segment list \<times> 'p connection" where
  "flush_fin now_ms output c =
     (if close_requested c \<and> send_queue c = [] \<and> 0 < send_window c
      then let
        c1 = c\<lparr>close_requested := False,
               state := (if state c = Established then FinWait1 else LastAck)\<rparr>;
        sent = send_tracked (FIN OR ACK) [] now_ms c1
      in (output @ [fst sent], snd sent)
      else (output, c))"

definition flush_data ::
  "nat \<Rightarrow> 'p connection \<Rightarrow> (segment list \<times> 'p connection) option" where
  "flush_data now_ms c =
     (if state c \<noteq> Established \<and> state c \<noteq> CloseWait then Some ([], c)
      else (case flush_loop now_ms [] c of
          None \<Rightarrow> None
        | Some (output, c1) \<Rightarrow> Some (flush_fin now_ms output c1)))"

definition zero_window_probe ::
  "nat \<Rightarrow> 'p connection \<Rightarrow> segment option \<times> 'p connection" where
  "zero_window_probe now_ms c =
     (case find (\<lambda>t. trk_payload t \<noteq> []) (unacked c) of
        Some t \<Rightarrow>
          (Some (build_segment
             \<lparr>hdr_local_port = local_port c, hdr_remote_port = remote_port c, hdr_seq = trk_seq t,
              hdr_ack = recv_nxt c, hdr_window = available_window_u16 c, hdr_mss = of_nat (mss c),
              hdr_flags = ACK OR PSH\<rparr> [trk_payload t ! 0]),
           c\<lparr>rtt := on_retransmit (send_nxt c) (rtt c)\<rparr>)
      | None \<Rightarrow>
          (case send_queue c of
             [] \<Rightarrow> (None, c)
           | byte # rest \<Rightarrow>
               (let sent = send_tracked (ACK OR PSH) [byte] now_ms (c\<lparr>send_queue := rest\<rparr>)
                in (Some (fst sent), snd sent))))"

definition retransmit_oldest ::
  "nat \<Rightarrow> bool \<Rightarrow> 'p connection \<Rightarrow> segment option \<times> 'p connection" where
  "retransmit_oldest now_ms timeout c =
     (case unacked c of
        [] \<Rightarrow> (None, c)
      | tracked # rest \<Rightarrow>
          if max_transmissions c \<le> transmissions tracked then (None, c)
          else let
            tracked' = tracked\<lparr>sent_at_ms := now_ms,
                               transmissions := sat_add8 (transmissions tracked) 1\<rparr>;
            c1 = c\<lparr>rtt := on_retransmit (send_nxt c) (rtt c), unacked := tracked' # rest,
                   duplicate_acks := (if timeout then 0 else duplicate_acks c)\<rparr>
          in (Some (build_segment
                \<lparr>hdr_local_port = local_port c, hdr_remote_port = remote_port c,
                 hdr_seq = trk_seq tracked', hdr_ack = recv_nxt c,
                 hdr_window = available_window_u16 c, hdr_mss = of_nat (mss c),
                 hdr_flags = trk_flags tracked'\<rparr> (trk_payload tracked')), c1))"

definition repair_timed_out_flight ::
  "nat \<Rightarrow> config \<Rightarrow> 'p connection \<Rightarrow> segment option \<times> 'p connection" where
  "repair_timed_out_flight now_ms cfg c =
     (if rto_recovery_until c = None then (None, c)
      else (case unacked c of
          [] \<Rightarrow> (None, c)
        | oldest # rest \<Rightarrow>
            if remote_window c = 0 \<or> max_retransmissions cfg \<le> transmissions oldest
            then (None, c)
            else retransmit_oldest now_ms False c))"

section \<open>Acknowledgments\<close>

text \<open>
  The pop loop of \<open>apply_ack\<close>; its accumulators are the payload bytes and the FIN acknowledged so
  far and the last round-trip sample.
\<close>

fun pop_acked ::
  "rtt_estimator \<Rightarrow> u32 \<Rightarrow> nat \<Rightarrow> nat \<Rightarrow> bool \<Rightarrow> nat option \<Rightarrow> tracked_segment list
     \<Rightarrow> nat \<times> bool \<times> nat option \<times> tracked_segment list" where
  "pop_acked r ack now_ms payload fin sample [] = (payload, fin, sample, [])"
| "pop_acked r ack now_ms payload fin sample (t # ts) =
     (if before_or_equal (trk_end_seq t) ack
      then pop_acked r ack now_ms
        (payload + length (trk_payload t))
        (fin \<or> contains (trk_flags t) FIN)
        (if can_sample r (trk_end_seq t) then Some (now_ms - sent_at_ms t) else sample)
        ts
      else (payload, fin, sample, t # ts))"

text \<open>A partial acknowledgment trims the segment it falls into.\<close>

fun trim_front :: "u32 \<Rightarrow> tracked_segment list \<Rightarrow> nat \<times> tracked_segment list" where
  "trim_front ack [] = (0, [])"
| "trim_front ack (t # ts) =
     (if before (trk_seq t) ack \<and> before ack (trk_end_seq t)
         \<and> \<not> contains (trk_flags t) SYN \<and> \<not> contains (trk_flags t) FIN
      then let count = min (distance (trk_seq t) ack) (length (trk_payload t))
        in (count, t\<lparr>trk_payload := drop count (trk_payload t), trk_seq := ack\<rparr> # ts)
      else (0, t # ts))"

definition apply_new_ack ::
  "u32 \<Rightarrow> nat \<Rightarrow> 'p connection \<Rightarrow> (ack_outcome \<times> 'p connection) option" where
  "apply_new_ack ack now_ms c =
     (case pop_acked (rtt c) ack now_ms 0 False None (unacked c) of
        (popped, fin_acked, sample, rest) \<Rightarrow>
          (case trim_front ack rest of
             (count, rest') \<Rightarrow>
               (case progress_acknowledge (popped + count) (send_progress c) of
                  None \<Rightarrow> None
                | Some progress \<Rightarrow> Some
                    (\<lparr>ack_fin_acked = fin_acked, ack_retransmit = None\<rparr>,
                     c\<lparr>duplicate_acks := 0, unacked := rest', send_una := ack,
                       rto_recovery_until := (case rto_recovery_until c of
                           None \<Rightarrow> None
                         | Some e \<Rightarrow> if \<not> before ack e then None else Some e),
                       rtt := (case sample of None \<Rightarrow> rtt c | Some ms \<Rightarrow> rtt_sample ms (rtt c)),
                       reno := reno_on_ack (popped + count) (reno c),
                       send_progress := progress\<rparr>))))"

definition apply_duplicate_ack :: "nat \<Rightarrow> 'p connection \<Rightarrow> ack_outcome \<times> 'p connection" where
  "apply_duplicate_ack now_ms c =
     (let c1 = c\<lparr>duplicate_acks := sat_add8 (duplicate_acks c) 1,
                 reno := reno_on_duplicate_ack (reno c)\<rparr>
      in if duplicate_acks c1 = 3
         then let
           c2 = c1\<lparr>reno := reno_on_fast_loss (distance (send_una c1) (send_nxt c1)) (reno c1)\<rparr>;
           sent = retransmit_oldest now_ms False c2
         in (\<lparr>ack_fin_acked = False, ack_retransmit = fst sent\<rparr>, snd sent)
         else (no_outcome, c1))"

definition apply_ack ::
  "u32 \<Rightarrow> nat \<Rightarrow> bool \<Rightarrow> 'p connection \<Rightarrow> (ack_outcome \<times> 'p connection) option" where
  "apply_ack ack now_ms duplicate_candidate c =
     (if after ack (send_nxt c) \<or> before ack (send_una c) then Some (no_outcome, c)
      else if ack = send_una c
      then (if duplicate_candidate \<and> unacked c \<noteq> [] then Some (apply_duplicate_ack now_ms c)
            else Some (no_outcome, c\<lparr>duplicate_acks := 0\<rparr>))
      else apply_new_ack ack now_ms c)"

section \<open>Receiving\<close>

definition insert_received ::
  "u32 \<Rightarrow> bytes \<Rightarrow> bool \<Rightarrow> config \<Rightarrow> 'p connection \<Rightarrow> 'p connection" where
  "insert_received seq payload fin cfg c =
     (let original_end = seq + of_nat (length payload);
          trim = distance seq (recv_nxt c);
          start = (if before seq (recv_nxt c) then recv_nxt c else seq);
          data = (if before seq (recv_nxt c)
                  then (if length payload \<le> trim then [] else drop trim payload)
                  else payload);
          win = available_window c;
          offset = distance (recv_nxt c) start
      in if after start (recv_nxt c) \<and> win \<le> offset then c
      else let
        allowed = min (length data) (win - offset);
        kept_fin = (fin \<and> allowed = length data
          \<and> original_end = start + of_nat (length data));
        chunk = \<lparr>rsm_seq = start, rsm_payload = take allowed data, rsm_fin = kept_fin\<rparr>
      in if rsm_payload chunk = [] \<and> \<not> rsm_fin chunk then c
      else if list_ex (\<lambda>e. rsm_seq e = rsm_seq chunk \<and> rsm_end_seq e = rsm_end_seq chunk)
          (reassembly c) then c
      else if length (reassembly c) < max_reassembly_segments cfg
      then c\<lparr>reassembly := reassembly c @ [chunk]\<rparr>
      else c)"

definition enter_time_wait :: "nat \<Rightarrow> config \<Rightarrow> 'p connection \<Rightarrow> 'p connection" where
  "enter_time_wait now_ms cfg c =
     c\<lparr>state := TimeWait, fin_wait_2_until_ms := None,
       time_wait_until_ms := Some (sat_add64 now_ms (time_wait_ms cfg))\<rparr>"

definition on_remote_fin :: "nat \<Rightarrow> config \<Rightarrow> 'p connection \<Rightarrow> 'p connection" where
  "on_remote_fin now_ms cfg c =
     (let c1 = c\<lparr>read_closed := True\<rparr>
      in case state c1 of
           Established \<Rightarrow> c1\<lparr>state := CloseWait\<rparr>
         | FinWait1 \<Rightarrow> c1\<lparr>state := Closing\<rparr>
         | FinWait2 \<Rightarrow> enter_time_wait now_ms cfg c1
         | _ \<Rightarrow> c1)"

definition drain_retain :: "'p connection \<Rightarrow> 'p connection" where
  "drain_retain c =
     c\<lparr>reassembly := filter (\<lambda>s.
         \<not> before_or_equal (rsm_end_seq s) (recv_nxt c)
         \<or> (rsm_fin s \<and> rsm_end_seq s = recv_nxt c + 1)) (reassembly c)\<rparr>"

definition drain_trim :: "'p connection \<Rightarrow> reassembly_segment \<Rightarrow> reassembly_segment" where
  "drain_trim c s =
     (if before (rsm_seq s) (recv_nxt c)
      then let trim = min (distance (rsm_seq s) (recv_nxt c)) (length (rsm_payload s))
        in s\<lparr>rsm_payload := drop trim (rsm_payload s), rsm_seq := recv_nxt c\<rparr>
      else s)"

function drain_reassembly :: "nat \<Rightarrow> config \<Rightarrow> 'p connection \<Rightarrow> 'p connection" where
  "drain_reassembly now_ms cfg c =
     (let c1 = drain_retain c
      in case List.extract (\<lambda>s. rsm_seq s = recv_nxt c1 \<or> before (rsm_seq s) (recv_nxt c1))
             (reassembly c1) of
           None \<Rightarrow> c1
         | Some (pre, s0, post) \<Rightarrow>
             (let s = drain_trim c1 s0;
                  accepted = min (receive_buffer cfg - length (recv_queue c1)) (length (rsm_payload s));
                  rest = drop accepted (rsm_payload s);
                  c2 = c1\<lparr>reassembly := pre @ post,
                          recv_queue := recv_queue c1 @ take accepted (rsm_payload s),
                          recv_nxt := recv_nxt c1 + of_nat accepted\<rparr>
              in if rest \<noteq> []
                 then c2\<lparr>reassembly :=
                        reassembly c2 @ [s\<lparr>rsm_payload := rest, rsm_seq := recv_nxt c2\<rparr>]\<rparr>
                 else drain_reassembly now_ms cfg
                   (if rsm_fin s
                    then on_remote_fin now_ms cfg (c2\<lparr>recv_nxt := recv_nxt c2 + 1\<rparr>)
                    else c2)))"
  by pat_completeness auto

lemma reassembly_on_remote_fin [simp]: "reassembly (on_remote_fin now cfg c) = reassembly c"
  by (simp add: on_remote_fin_def enter_time_wait_def Let_def split: tcp_state.split)

text \<open>Every round takes a segment off the list, so the loop ends.\<close>

termination drain_reassembly
proof (relation "measure (\<lambda>(now, cfg, c). length (reassembly c))", goal_cases)
  case (2 now_ms cfg c c1 sp pre q s0 post s accepted rest c2)
  then have "length (reassembly c1) = Suc (length (pre @ post))"
    by (auto dest!: extract_SomeE)
  moreover have "length (reassembly c1) \<le> length (reassembly c)"
    using 2 by (simp add: drain_retain_def)
  ultimately show ?case using 2 by simp
qed simp

declare drain_reassembly.simps [simp del]

definition receive_stream_data ::
  "segment \<Rightarrow> nat \<Rightarrow> config \<Rightarrow> 'p connection \<Rightarrow> segment list \<times> 'p connection" where
  "receive_stream_data s now_ms cfg c =
     (let fin = contains (seg_flags s) FIN;
          c1 = drain_reassembly now_ms cfg (insert_received (seg_seq s) (seg_payload s) fin cfg c)
      in ([ack_segment c1], c1))"

end
