(* ===== verification/Machine.thy ===== *)
theory Machine
  imports Connection
begin

text \<open>
  The entry points of a connection that the stack calls: creation (\<open>client\<close>, \<open>server\<close>),
  \<open>on_segment\<close> with the reset rules of \<open>connection_reset.rs\<close>, \<open>write\<close>, \<open>read\<close>, \<open>close\<close>, and the
  timers of \<open>stack_poll.rs\<close> (\<open>poll\<close>, \<open>next_poll_at\<close>).
\<close>

section \<open>Creation\<close>

definition conn_new ::
  "'p \<Rightarrow> u16 \<Rightarrow> u16 \<Rightarrow> tcp_state \<Rightarrow> u32 \<Rightarrow> u32 \<Rightarrow> config \<Rightarrow> nat
     \<Rightarrow> ('p connection \<times> nat) option" where
  "conn_new p lport rport st send_isn rcv_nxt cfg token =
     (case send_progress_new token of
        None \<Rightarrow> None
      | Some (progress, token') \<Rightarrow> Some (\<lparr>
          peer = p,
          local_port = lport,
          remote_port = rport,
          state = st,
          send_una = send_isn,
          send_nxt = send_isn,
          recv_nxt = rcv_nxt,
          remote_window = u16_max,
          mss = unat (cfg_mss cfg),
          receive_capacity = receive_buffer cfg,
          max_transmissions = max_retransmissions cfg,
          send_queue = [],
          recv_queue = [],
          reassembly = [],
          unacked = [],
          rtt = rtt_new (initial_rto_ms cfg) (min_rto_ms cfg) (max_rto_ms cfg),
          reno = reno_new (unat (cfg_mss cfg)),
          duplicate_acks = 0,
          rto_recovery_until = None,
          close_requested = False,
          next_zero_window_probe_ms = None,
          zero_window_probes = 0,
          read_closed = False,
          send_progress = progress,
          fin_wait_2_until_ms = None,
          time_wait_until_ms = None\<rparr>, token'))"

definition conn_client ::
  "'p \<Rightarrow> u16 \<Rightarrow> u16 \<Rightarrow> u32 \<Rightarrow> nat \<Rightarrow> config \<Rightarrow> nat
     \<Rightarrow> (('p connection \<times> segment list) \<times> nat) option" where
  "conn_client p lport rport isn now_ms cfg token =
     (case conn_new p lport rport SynSent isn 0 cfg token of
        None \<Rightarrow> None
      | Some (c, token') \<Rightarrow>
          (let sent = send_tracked SYN [] now_ms c
           in Some ((snd sent, [fst sent]), token')))"

definition conn_server ::
  "'p \<Rightarrow> segment \<Rightarrow> u32 \<Rightarrow> nat \<Rightarrow> config \<Rightarrow> nat
     \<Rightarrow> (('p connection \<times> segment list) \<times> nat) option" where
  "conn_server p syn isn now_ms cfg token =
     (case conn_new p (seg_dst_port syn) (seg_src_port syn) SynReceived isn (seg_seq syn + 1)
         cfg token of
        None \<Rightarrow> None
      | Some (c, token') \<Rightarrow>
          (let c1 = update_remote_window (seg_window syn) now_ms c;
               c2 = negotiate_mss syn cfg c1;
               sent = send_tracked (SYN OR ACK) [] now_ms c2
           in Some ((snd sent, [fst sent]), token')))"

section \<open>Incoming segments\<close>

definition on_reset :: "segment \<Rightarrow> 'p connection \<Rightarrow> update" where
  "on_reset s c =
     (if state c = SynSent
      then let acceptable_ack = (case seg_ack s of
               None \<Rightarrow> False
             | Some a \<Rightarrow> after a (send_una c) \<and> \<not> after a (send_nxt c))
        in \<lparr>upd_segments = [], upd_accepted = False, upd_closed = acceptable_ack\<rparr>
      else if seg_seq s = recv_nxt c then update_close []
      else let
        receive_window = available_window c;
        in_window = (0 < receive_window \<and> distance (recv_nxt c) (seg_seq s) < receive_window)
      in update_open (if in_window then [ack_segment c] else []))"

definition has_stream_data :: "segment \<Rightarrow> bool" where
  "has_stream_data s \<longleftrightarrow> seg_payload s \<noteq> [] \<or> contains (seg_flags s) FIN"

text \<open>SYN-SENT: only a matching SYN-ACK of this protocol version moves the connection.\<close>

definition on_syn_sent ::
  "segment \<Rightarrow> nat \<Rightarrow> config \<Rightarrow> 'p connection \<Rightarrow> (update \<times> 'p connection) option" where
  "on_syn_sent s now_ms cfg c =
     (if contains (seg_flags s) SYN \<and> contains (seg_flags s) ACK
         \<and> seg_ack s = Some (send_nxt c) \<and> supports_fips_version s FIPS_VERSION
      then let
        c1 = update_remote_window (seg_window s) now_ms c;
        c2 = negotiate_mss s cfg c1
      in (case apply_ack (send_nxt c2) now_ms False c2 of
            None \<Rightarrow> None
          | Some (outcome, c3) \<Rightarrow>
              (let c4 = c3\<lparr>recv_nxt := seg_seq s + 1, state := Established\<rparr>
               in Some (update_open [ack_segment c4], c4)))
      else Some (update_open [], c))"

definition receive_if_data ::
  "segment \<Rightarrow> nat \<Rightarrow> config \<Rightarrow> segment list \<Rightarrow> 'p connection \<Rightarrow> segment list \<times> 'p connection" where
  "receive_if_data s now_ms cfg output c =
     (if has_stream_data s
      then let received = receive_stream_data s now_ms cfg c
        in (output @ fst received, snd received)
      else (output, c))"

definition on_syn_received ::
  "segment \<Rightarrow> nat \<Rightarrow> config \<Rightarrow> 'p connection \<Rightarrow> (update \<times> 'p connection) option" where
  "on_syn_received s now_ms cfg c =
     (if contains (seg_flags s) SYN \<and> \<not> contains (seg_flags s) ACK \<and> seg_seq s + 1 = recv_nxt c
      then let sent = retransmit_oldest now_ms False c
        in Some (update_open (case fst sent of None \<Rightarrow> [] | Some r \<Rightarrow> [r]), snd sent)
      else if seg_ack s \<noteq> Some (send_nxt c) then Some (update_open [], c)
      else (case apply_ack (send_nxt c) now_ms False c of
          None \<Rightarrow> None
        | Some (outcome, c1) \<Rightarrow>
            (let c2 = (update_remote_window (seg_window s) now_ms c1)\<lparr>state := Established\<rparr>;
                 received = receive_if_data s now_ms cfg [] c2
             in (case flush_data now_ms (snd received) of
                   None \<Rightarrow> None
                 | Some (flushed, c3) \<Rightarrow>
                     Some (\<lparr>upd_segments = fst received @ flushed, upd_accepted = True,
                            upd_closed = False\<rparr>, c3)))))"

text \<open>
  The acknowledgment part of a synchronised state. The boolean of the result is the early return
  of LAST-ACK, whose FIN is acknowledged: the connection is finished.
\<close>

definition fin_acked_transition :: "nat \<Rightarrow> config \<Rightarrow> 'p connection \<Rightarrow> 'p connection" where
  "fin_acked_transition now_ms cfg c =
     (case state c of
        FinWait1 \<Rightarrow> c\<lparr>state := FinWait2,
                      fin_wait_2_until_ms := Some (sat_add64 now_ms (fin_wait_2_ms cfg))\<rparr>
      | Closing \<Rightarrow> enter_time_wait now_ms cfg c
      | _ \<Rightarrow> c)"

definition process_ack ::
  "segment \<Rightarrow> u32 \<Rightarrow> nat \<Rightarrow> config \<Rightarrow> 'p connection
     \<Rightarrow> ((bool \<times> segment list) \<times> 'p connection) option" where
  "process_ack s ack now_ms cfg c =
     (let previous_una = send_una c;
          duplicate = is_duplicate_ack_candidate s (send_una c) (remote_window c)
      in case apply_ack ack now_ms duplicate c of
           None \<Rightarrow> None
         | Some (outcome, c1) \<Rightarrow>
             (let output = (case ack_retransmit outcome of None \<Rightarrow> [] | Some r \<Rightarrow> [r])
              in if ack_fin_acked outcome \<and> state c1 = LastAck then Some ((True, output), c1)
              else let
                c2 = (if ack_fin_acked outcome then fin_acked_transition now_ms cfg c1 else c1);
                c3 = (if in_closed_interval ack (send_una c2) (send_nxt c2)
                      then update_remote_window (seg_window s) now_ms c2 else c2);
                repaired = (if after (send_una c3) previous_una
                            then repair_timed_out_flight now_ms cfg c3 else (None, c3))
              in Some ((False, output @ (case fst repaired of None \<Rightarrow> [] | Some r \<Rightarrow> [r])),
                       snd repaired)))"

definition on_synchronized ::
  "segment \<Rightarrow> nat \<Rightarrow> config \<Rightarrow> 'p connection \<Rightarrow> (update \<times> 'p connection) option" where
  "on_synchronized s now_ms cfg c =
     (case (case seg_ack s of
              None \<Rightarrow> Some ((False, []), c)
            | Some ack \<Rightarrow> process_ack s ack now_ms cfg c) of
        None \<Rightarrow> None
      | Some ((finished, output), c1) \<Rightarrow>
          if finished then Some (update_close output, c1)
          else let received = receive_if_data s now_ms cfg output c1
          in (case flush_data now_ms (snd received) of
                None \<Rightarrow> None
              | Some (flushed, c2) \<Rightarrow> Some (update_open (fst received @ flushed), c2)))"

definition on_segment ::
  "segment \<Rightarrow> nat \<Rightarrow> config \<Rightarrow> 'p connection \<Rightarrow> (update \<times> 'p connection) option" where
  "on_segment s now_ms cfg c =
     (if contains (seg_flags s) RST then Some (on_reset s c, c)
      else if state c = SynSent then on_syn_sent s now_ms cfg c
      else if state c = SynReceived then on_syn_received s now_ms cfg c
      else on_synchronized s now_ms cfg c)"

section \<open>Application calls\<close>

definition buffered_bytes :: "'p connection \<Rightarrow> nat" where
  "buffered_bytes c =
     length (send_queue c) + sum_list (map (length \<circ> trk_payload) (unacked c))"

definition conn_write ::
  "bytes \<Rightarrow> nat \<Rightarrow> config \<Rightarrow> 'p connection
     \<Rightarrow> (stack_error, nat \<times> segment list, 'p connection) call" where
  "conn_write bs now_ms cfg c =
     (if (state c \<noteq> Established \<and> state c \<noteq> CloseWait) \<or> close_requested c
      then Some (Inl (InvalidState (state c)), c)
      else let accepted = min (length bs) (send_buffer cfg - buffered_bytes c);
        c1 = c\<lparr>send_queue := send_queue c @ take accepted bs\<rparr>
      in (case progress_accept accepted (send_progress c1) of
            None \<Rightarrow> None
          | Some progress \<Rightarrow>
              (case flush_data now_ms (c1\<lparr>send_progress := progress\<rparr>) of
                 None \<Rightarrow> None
               | Some (segments, c2) \<Rightarrow> Some (Inr (accepted, segments), c2))))"

definition conn_read :: "nat \<Rightarrow> 'p connection \<Rightarrow> (bytes \<times> segment list) \<times> 'p connection" where
  "conn_read maximum c =
     (let previous_window = available_window c;
          count = min maximum (length (recv_queue c));
          c1 = c\<lparr>recv_queue := drop count (recv_queue c)\<rparr>;
          should_update = (0 < count \<and> previous_window < available_window c1
            \<and> \<not> (state c1 = SynSent \<or> state c1 = SynReceived \<or> state c1 = TimeWait))
      in ((take count (recv_queue c), if should_update then [ack_segment c1] else []), c1))"

definition conn_close ::
  "nat \<Rightarrow> 'p connection \<Rightarrow> (update \<times> 'p connection) option" where
  "conn_close now_ms c =
     (if state c = Established \<or> state c = CloseWait
      then (case flush_data now_ms (c\<lparr>close_requested := True\<rparr>) of
          None \<Rightarrow> None
        | Some (segments, c1) \<Rightarrow> Some (update_open segments, c1))
      else if state c = SynSent \<or> state c = SynReceived then Some (update_close [], c)
      else Some (update_open [], c))"

section \<open>Timers\<close>

definition close_deadline :: "'p connection \<Rightarrow> nat option" where
  "close_deadline c =
     (case state c of
        FinWait2 \<Rightarrow> fin_wait_2_until_ms c
      | TimeWait \<Rightarrow> time_wait_until_ms c
      | _ \<Rightarrow> None)"

definition has_probe_payload :: "'p connection \<Rightarrow> bool" where
  "has_probe_payload c \<longleftrightarrow>
     send_queue c \<noteq> [] \<or> list_ex (\<lambda>t. trk_payload t \<noteq> []) (unacked c)"

definition retransmit_deadline :: "'p connection \<Rightarrow> tracked_segment \<Rightarrow> nat" where
  "retransmit_deadline c oldest = sat_add64 (sent_at_ms oldest) (timeout_ms (rtt c))"

definition transport_deadline :: "nat \<Rightarrow> config \<Rightarrow> 'p connection \<Rightarrow> nat option" where
  "transport_deadline now_ms cfg c =
     (let payload = has_probe_payload c
      in if remote_window c = 0 \<and> (close_requested c \<or> payload)
         then (if payload \<or> max_retransmissions cfg \<le> zero_window_probes c
               then Some (case next_zero_window_probe_ms c of None \<Rightarrow> now_ms | Some d \<Rightarrow> d)
               else None)
         else (case unacked c of
             [] \<Rightarrow> None
           | oldest # rest \<Rightarrow> Some (retransmit_deadline c oldest)))"

definition conn_next_poll_at :: "nat \<Rightarrow> config \<Rightarrow> 'p connection \<Rightarrow> nat option" where
  "conn_next_poll_at now_ms cfg c =
     opt_min (close_deadline c) (transport_deadline now_ms cfg c)"

definition poll_zero_window :: "nat \<Rightarrow> config \<Rightarrow> 'p connection \<Rightarrow> update \<times> 'p connection" where
  "poll_zero_window now_ms cfg c =
     (let deadline = (case next_zero_window_probe_ms c of
            Some d \<Rightarrow> d
          | None \<Rightarrow> sat_add64 now_ms (initial_rto_ms cfg));
          c1 = c\<lparr>next_zero_window_probe_ms := Some deadline\<rparr>
      in if now_ms < deadline then (update_open [], c1)
      else if max_retransmissions cfg \<le> zero_window_probes c1 then (update_close [], c1)
      else (case zero_window_probe now_ms c1 of
          (None, c2) \<Rightarrow> (update_open [], c2)
        | (Some probe, c2) \<Rightarrow>
            (let probes = sat_add8 (zero_window_probes c2) 1;
                 shift = min probes 16;
                 delay = min (sat_mul64 (initial_rto_ms cfg) (2 ^ shift)) (max_rto_ms cfg)
             in (update_open [probe],
                 c2\<lparr>zero_window_probes := probes,
                    next_zero_window_probe_ms := Some (sat_add64 now_ms delay)\<rparr>))))"

definition on_rto :: "nat \<Rightarrow> 'p connection \<Rightarrow> segment list \<times> 'p connection" where
  "on_rto now_ms c =
     (let in_flight = distance (send_una c) (send_nxt c);
          c1 = c\<lparr>rto_recovery_until := (case rto_recovery_until c of
                     Some e \<Rightarrow> Some e | None \<Rightarrow> Some (send_nxt c)),
                 reno := reno_on_timeout in_flight (reno c),
                 rtt := rtt_on_timeout (rtt c)\<rparr>;
          sent = retransmit_oldest now_ms True c1
      in ((case fst sent of None \<Rightarrow> [] | Some r \<Rightarrow> [r]), snd sent))"

definition poll_flush ::
  "nat \<Rightarrow> segment list \<Rightarrow> 'p connection \<Rightarrow> (update \<times> 'p connection) option" where
  "poll_flush now_ms segments c =
     (case flush_data now_ms c of
        None \<Rightarrow> None
      | Some (flushed, c1) \<Rightarrow> Some (update_open (segments @ flushed), c1))"

definition conn_poll ::
  "nat \<Rightarrow> config \<Rightarrow> 'p connection \<Rightarrow> (update \<times> 'p connection) option" where
  "conn_poll now_ms cfg c =
     (if (case close_deadline c of None \<Rightarrow> False | Some d \<Rightarrow> d \<le> now_ms)
      then Some (update_close [], c)
      else if remote_window c = 0 \<and> (close_requested c \<or> has_probe_payload c)
      then Some (poll_zero_window now_ms cfg c)
      else (case unacked c of
          [] \<Rightarrow> poll_flush now_ms [] c
        | oldest # rest \<Rightarrow>
            if retransmit_deadline c oldest \<le> now_ms
            then (if max_retransmissions cfg \<le> transmissions oldest
                  then Some (update_close [], c)
                  else (case on_rto now_ms c of (segments, c1) \<Rightarrow> poll_flush now_ms segments c1))
            else poll_flush now_ms [] c))"

end
