(* ===== verification/Sender.thy ===== *)
theory Sender
  imports Connection
begin

text \<open>
  The retransmission queue as a chain of segments in sequence space: what an acknowledgment pops
  and trims, and what a transmission appends. \<open>send_ok\<close> is the sender's part of the connection
  invariant, stated on the values of the fields so that every operation that leaves them alone
  keeps it by rewriting.
\<close>

section \<open>Lengths in sequence space\<close>

definition trk_len :: "tracked_segment \<Rightarrow> nat" where
  "trk_len t = length (trk_payload t)
     + (if contains (trk_flags t) SYN then 1 else 0)
     + (if contains (trk_flags t) FIN then 1 else 0)"

definition flight :: "tracked_segment list \<Rightarrow> nat" where
  "flight ts = sum_list (map trk_len ts)"

definition queued_bytes :: "tracked_segment list \<Rightarrow> bytes" where
  "queued_bytes ts = concat (map trk_payload ts)"

fun chain :: "u32 \<Rightarrow> tracked_segment list \<Rightarrow> u32 \<Rightarrow> bool" where
  "chain a [] b \<longleftrightarrow> a = b"
| "chain a (t # ts) b \<longleftrightarrow> trk_seq t = a \<and> chain (trk_end_seq t) ts b"

lemma flight_simps [simp]:
  "flight [] = 0" "flight (t # ts) = trk_len t + flight ts" "flight (xs @ ys) = flight xs + flight ys"
  by (simp_all add: flight_def)

lemma queued_bytes_simps [simp]:
  "queued_bytes [] = []" "queued_bytes (t # ts) = trk_payload t @ queued_bytes ts"
  "queued_bytes (xs @ ys) = queued_bytes xs @ queued_bytes ys"
  by (simp_all add: queued_bytes_def)

lemma trk_end_seq_len: "trk_end_seq t = seq_at (trk_seq t) (trk_len t)"
  by (simp add: trk_end_seq_def trk_len_def seq_at_def flag_len_def)

lemma chain_append: "chain a (xs @ ys) b \<longleftrightarrow> (\<exists>m. chain a xs m \<and> chain m ys b)"
  by (induction xs arbitrary: a) auto

lemma chain_end: "chain a ts b \<Longrightarrow> b = seq_at a (flight ts)"
proof (induction ts arbitrary: a)
  case (Cons t ts)
  then have "b = seq_at (trk_end_seq t) (flight ts)" by simp
  with Cons.prems show ?case by (simp add: trk_end_seq_len seq_at_def add.assoc)
qed simp

lemma chain_distance: "chain a ts b \<Longrightarrow> flight ts < 2 ^ 32 \<Longrightarrow> distance a b = flight ts"
  using distance_seq_at [of 0 "flight ts" a] by (auto dest: chain_end)

section \<open>The three kinds of tracked segments\<close>

definition data_seg :: "tracked_segment \<Rightarrow> bool" where
  "data_seg t \<longleftrightarrow> trk_flags t = ACK OR PSH \<and> trk_payload t \<noteq> []"

definition syn_seg :: "tracked_segment \<Rightarrow> bool" where
  "syn_seg t \<longleftrightarrow> (trk_flags t = SYN \<or> trk_flags t = SYN OR ACK) \<and> trk_payload t = []"

definition fin_seg :: "tracked_segment \<Rightarrow> bool" where
  "fin_seg t \<longleftrightarrow> trk_flags t = FIN OR ACK \<and> trk_payload t = []"

lemma trk_len_kinds:
  "data_seg t \<Longrightarrow> trk_len t = length (trk_payload t)"
  "syn_seg t \<Longrightarrow> trk_len t = 1"
  "fin_seg t \<Longrightarrow> trk_len t = 1"
  by (auto simp: data_seg_def syn_seg_def fin_seg_def trk_len_def)

lemma kinds_flags:
  "data_seg t \<Longrightarrow> \<not> contains (trk_flags t) FIN \<and> \<not> contains (trk_flags t) SYN"
  "syn_seg t \<Longrightarrow> \<not> contains (trk_flags t) FIN"
  "fin_seg t \<Longrightarrow> contains (trk_flags t) FIN \<and> \<not> contains (trk_flags t) SYN"
  by (auto simp: data_seg_def syn_seg_def fin_seg_def)

text \<open>The phases of the sending side: handshake, open, FIN in flight, FIN acknowledged.\<close>

datatype send_phase = Opening | Open | Finishing | Finished

fun phase :: "tcp_state \<Rightarrow> send_phase" where
  "phase SynSent = Opening"
| "phase SynReceived = Opening"
| "phase Established = Open"
| "phase CloseWait = Open"
| "phase FinWait1 = Finishing"
| "phase Closing = Finishing"
| "phase LastAck = Finishing"
| "phase FinWait2 = Finished"
| "phase TimeWait = Finished"

definition finishing_queue :: "tracked_segment list \<Rightarrow> bool" where
  "finishing_queue ts \<longleftrightarrow> ts \<noteq> [] \<and> list_all data_seg (butlast ts) \<and> fin_seg (last ts)"

fun queue_ok :: "send_phase \<Rightarrow> tracked_segment list \<Rightarrow> bool" where
  "queue_ok Opening ts \<longleftrightarrow> (\<exists>t. ts = [t] \<and> syn_seg t)"
| "queue_ok Open ts \<longleftrightarrow> list_all data_seg ts"
| "queue_ok Finishing ts \<longleftrightarrow> finishing_queue ts"
| "queue_ok Finished ts \<longleftrightarrow> ts = []"

definition send_ok ::
  "send_phase \<Rightarrow> u32 \<Rightarrow> u32 \<Rightarrow> tracked_segment list \<Rightarrow> bytes \<Rightarrow> bool \<Rightarrow> bool" where
  "send_ok ph una nxt ts queue close \<longleftrightarrow>
     chain una ts nxt \<and> flight ts \<le> u16_max \<and> queue_ok ph ts \<and>
     (ph \<noteq> Open \<longrightarrow> queue = [] \<and> \<not> close)"

lemma finishing_snoc [simp]: "finishing_queue (ts @ [t]) \<longleftrightarrow> list_all data_seg ts \<and> fin_seg t"
  by (simp add: finishing_queue_def)

lemma finishing_Cons:
  "finishing_queue (t # ts) \<longleftrightarrow> (ts = [] \<and> fin_seg t) \<or> (data_seg t \<and> finishing_queue ts)"
  by (cases ts rule: rev_cases) (auto simp: finishing_queue_def)

text \<open>Segments of a queue that is in order have a positive length.\<close>

definition queue_kinds :: "tracked_segment list \<Rightarrow> bool" where
  "queue_kinds ts \<longleftrightarrow> (\<forall>t \<in> set ts. data_seg t \<or> syn_seg t \<or> fin_seg t)"

lemma queue_ok_kinds: "queue_ok ph ts \<Longrightarrow> queue_kinds ts"
  by (cases ph; cases ts rule: rev_cases) (auto simp: queue_kinds_def list_all_iff)

lemma trk_len_pos: "data_seg t \<or> syn_seg t \<or> fin_seg t \<Longrightarrow> 0 < trk_len t"
  by (auto simp: trk_len_kinds) (simp add: data_seg_def)

lemma distance_flight: "send_ok ph una nxt ts q cl \<Longrightarrow> distance una nxt = flight ts"
  by (rule chain_distance) (auto simp: send_ok_def u16_max_def)

section \<open>What an acknowledgment removes\<close>

lemma pop_acked_split:
  assumes "chain a ts b" "flight ts < 2 ^ 31" "k \<le> flight ts"
  shows "\<exists>popped rest sample'. ts = popped @ rest \<and>
      pop_acked r (seq_at a k) now p f sample ts =
        (p + length (queued_bytes popped), f \<or> list_ex (\<lambda>t. contains (trk_flags t) FIN) popped,
         sample', rest) \<and>
      flight popped \<le> k \<and> (rest \<noteq> [] \<longrightarrow> k < flight popped + trk_len (hd rest))"
  using assms
proof (induction ts arbitrary: a k p f sample)
  case Nil
  show ?case by (intro exI [of _ "[]"] exI [of _ sample]) simp
next
  case (Cons t ts)
  have len: "trk_len t < 2 ^ 31" "k < 2 ^ 31"
    using Cons.prems by auto
  have seq: "trk_end_seq t = seq_at a (trk_len t)"
    using Cons.prems by (simp add: trk_end_seq_len)
  have le: "before_or_equal (trk_end_seq t) (seq_at a k) \<longleftrightarrow> trk_len t \<le> k"
    using len unfolding seq before_or_equal_def
    by (auto simp: before_seq_at seq_at_inj)
  show ?case
  proof (cases "trk_len t \<le> k")
    case False
    with le show ?thesis
      by (intro exI [of _ "[]"] exI [of _ "t # ts"] exI [of _ sample]) simp
  next
    case True
    have ack: "seq_at a k = seq_at (trk_end_seq t) (k - trk_len t)"
      using True by (simp add: seq seq_at_def)
    let ?s = "if can_sample r (trk_end_seq t) then Some (now - sent_at_ms t) else sample"
    have prems: "chain (trk_end_seq t) ts b" "flight ts < 2 ^ 31" "k - trk_len t \<le> flight ts"
      using Cons.prems True by auto
    from Cons.IH [OF prems, of "p + length (trk_payload t)" "f \<or> contains (trk_flags t) FIN" ?s]
    obtain popped rest sample' where ih: "ts = popped @ rest"
      "pop_acked r (seq_at (trk_end_seq t) (k - trk_len t)) now
         (p + length (trk_payload t)) (f \<or> contains (trk_flags t) FIN) ?s ts =
       (p + length (trk_payload t) + length (queued_bytes popped),
        (f \<or> contains (trk_flags t) FIN) \<or> list_ex (\<lambda>t. contains (trk_flags t) FIN) popped,
        sample', rest)"
      "flight popped \<le> k - trk_len t"
      "rest \<noteq> [] \<longrightarrow> k - trk_len t < flight popped + trk_len (hd rest)"
      by blast
    from le True have "pop_acked r (seq_at a k) now p f sample (t # ts) =
        (p + length (queued_bytes (t # popped)),
         f \<or> list_ex (\<lambda>t. contains (trk_flags t) FIN) (t # popped), sample', rest)"
      using ih(2) by (simp add: ack add.assoc disj_assoc)
    then show ?thesis
      using ih(1,3,4) True
      by (intro exI [of _ "t # popped"] exI [of _ rest] exI [of _ sample']) auto
  qed
qed

lemma trim_front_data:
  assumes "data_seg t" "trk_seq t = a" "k < trk_len t" "trk_len t < 2 ^ 31"
  shows "trim_front (seq_at a k) (t # ts) =
    (k, (if k = 0 then t
         else t\<lparr>trk_payload := drop k (trk_payload t), trk_seq := seq_at a k\<rparr>) # ts)"
proof -
  have "before (seq_at a 0) (seq_at a k) \<longleftrightarrow> 0 < k"
    using assms by (intro before_seq_at) auto
  moreover have "before (seq_at a k) (seq_at a (trk_len t)) \<longleftrightarrow> k < trk_len t"
    using assms by (intro before_seq_at) auto
  moreover have "distance (seq_at a 0) (seq_at a k) = k"
    using assms distance_seq_at [of 0 k a] by simp
  ultimately show ?thesis
    using assms kinds_flags(1) [of t] by (auto simp: trk_end_seq_len trk_len_kinds Let_def)
qed

lemma trim_front_single:
  assumes "trk_len t = 1" "trk_seq t = a"
  shows "trim_front a (t # ts) = (0, t # ts)"
  using assms by (simp add: Let_def)

definition trimmed_from :: "tracked_segment \<Rightarrow> tracked_segment \<Rightarrow> bool" where
  "trimmed_from t t' \<longleftrightarrow>
     data_seg t \<and> data_seg t' \<and> transmissions t' = transmissions t \<or> t' = t"

text \<open>
  The combined effect on a queue in order: the acknowledgment of offset \<open>k\<close> removes \<open>k\<close> units of
  sequence space from its front, and the payload it counts is the prefix of the queued bytes
  that disappears.
\<close>

lemma trim_front_queue:
  assumes "queue_kinds ts" "chain a ts b" "flight ts < 2 ^ 31" "ts \<noteq> [] \<longrightarrow> k < trk_len (hd ts)"
    "ts = [] \<longrightarrow> k = 0"
  shows "\<exists>n ts'. trim_front (seq_at a k) ts = (n, ts') \<and> chain (seq_at a k) ts' b \<and>
    flight ts' + k = flight ts \<and> queued_bytes ts' = drop n (queued_bytes ts) \<and>
    n \<le> length (queued_bytes ts) \<and> list_all2 trimmed_from ts ts'"
proof (cases ts)
  case Nil
  with assms show ?thesis by simp
next
  case (Cons t rest)
  have len: "k < trk_len t" "trk_len t < 2 ^ 31" "trk_seq t = a" "chain (trk_end_seq t) rest b"
    using assms Cons by auto
  have refl: "list_all2 trimmed_from xs xs" for xs
    by (simp add: list_all2_same trimmed_from_def)
  show ?thesis
  proof (cases "data_seg t \<and> 0 < k")
    case True
    let ?t = "t\<lparr>trk_payload := drop k (trk_payload t), trk_seq := seq_at a k\<rparr>"
    have k: "k < length (trk_payload t)"
      using True len by (simp add: trk_len_kinds)
    have t': "data_seg ?t" "trk_len ?t = trk_len t - k" "trimmed_from t ?t"
      using True k by (auto simp: data_seg_def trk_len_def trimmed_from_def)
    have "trk_end_seq ?t = trk_end_seq t"
      using len t' by (simp add: trk_end_seq_len seq_at_def)
    with t' show ?thesis
      using True k len Cons refl trim_front_data [of t a k rest]
      by (intro exI [of _ k] exI [of _ "?t # rest"]) (auto simp: trk_len_kinds)
  next
    case False
    have k0: "k = 0"
      using False assms(1) Cons len trk_len_kinds by (auto simp: queue_kinds_def)
    then have "trim_front (seq_at a k) ts = (0, ts)"
      using len Cons by (simp add: Let_def)
    with k0 assms show ?thesis
      by (intro exI [of _ 0] exI [of _ ts]) (auto simp: refl)
  qed
qed

lemma trimmed_data: "list_all2 trimmed_from ts ts' \<Longrightarrow> list_all data_seg ts \<Longrightarrow> list_all data_seg ts'"
  by (induction rule: list_all2_induct) (auto simp: trimmed_from_def)

lemma trimmed_finishing:
  "list_all2 trimmed_from ts ts' \<Longrightarrow> finishing_queue ts \<Longrightarrow> finishing_queue ts'"
proof (induction rule: list_all2_induct)
  case (Cons t ts t' ts')
  have "ts' = [] \<longleftrightarrow> ts = []" using Cons(2) by (auto dest: list_all2_lengthD)
  moreover have "fin_seg t \<Longrightarrow> t' = t"
    using Cons(1) kinds_flags by (auto simp: trimmed_from_def)
  ultimately show ?case
    using Cons by (auto simp: finishing_Cons trimmed_from_def)
qed simp

lemma trimmed_transmissions:
  "list_all2 trimmed_from ts ts' \<Longrightarrow> \<forall>t \<in> set ts. P (transmissions t) \<Longrightarrow>
     \<forall>t \<in> set ts'. P (transmissions t)"
  by (induction rule: list_all2_induct) (auto simp: trimmed_from_def)

lemma in_finishing_queue: "finishing_queue ts \<Longrightarrow> t \<in> set ts \<Longrightarrow> data_seg t \<or> fin_seg t"
  by (induction ts) (auto simp: finishing_Cons)

lemma finishing_split:
  "finishing_queue (xs @ ys) \<Longrightarrow> ys \<noteq> [] \<Longrightarrow> list_all data_seg xs \<and> finishing_queue ys"
  by (induction xs) (auto simp: finishing_Cons)

lemma finishing_has_fin: "finishing_queue ts \<Longrightarrow> list_ex (\<lambda>t. contains (trk_flags t) FIN) ts"
  by (cases ts rule: rev_cases) (auto simp: kinds_flags finishing_queue_def)

lemma data_no_fin: "list_all data_seg ts \<Longrightarrow> \<not> list_ex (\<lambda>t. contains (trk_flags t) FIN) ts"
  by (induction ts) (auto simp: kinds_flags)

text \<open>An acknowledgment is acceptable exactly when its offset lies in the flight.\<close>

lemma acceptable_ack:
  assumes "chain una ts nxt" "flight ts < 2 ^ 31"
  shows "\<not> after ack nxt \<and> \<not> before ack una \<longleftrightarrow> distance una ack \<le> flight ts"
proof -
  define k where "k = distance una ack"
  have ack: "ack = seq_at una k"
    by (simp add: k_def seq_at_distance)
  have k: "k < 2 ^ 32"
    unfolding k_def by (rule distance_less)
  have nxt: "nxt = seq_at una (flight ts)"
    using assms(1) by (rule chain_end)
  have b: "before ack una \<longleftrightarrow> 2 ^ 31 \<le> k"
    by (simp add: before_unat k_def distance_def)
  have "k < 2 ^ 31 \<Longrightarrow> before nxt ack \<longleftrightarrow> flight ts < k"
    unfolding ack nxt using assms(2) by (intro before_seq_at) auto
  then show ?thesis
    using b assms(2) by (auto simp: after_def k_def [symmetric])
qed

end
