(* ===== verification/Receiver.thy ===== *)
theory Receiver
  imports Connection
begin

text \<open>
  The receiving half of a connection: \<open>insert_received\<close> and \<open>drain_reassembly\<close> keep the buffered
  bytes within the receive capacity, touch no sender field, and move the state only as a FIN of
  the peer demands. Theory \<open>Delivery\<close> shows that what they deliver is the peer's stream.
\<close>

section \<open>The buffer bound\<close>

definition reassembly_bytes :: "reassembly_segment list \<Rightarrow> nat" where
  "reassembly_bytes rs = sum_list (map (length \<circ> rsm_payload) rs)"

lemma reassembly_bytes_simps [simp]:
  "reassembly_bytes [] = 0"
  "reassembly_bytes (r # rs) = length (rsm_payload r) + reassembly_bytes rs"
  "reassembly_bytes (xs @ ys) = reassembly_bytes xs + reassembly_bytes ys"
  by (simp_all add: reassembly_bytes_def)

lemma reassembly_bytes_filter: "reassembly_bytes (filter P rs) \<le> reassembly_bytes rs"
  by (induction rs) auto

definition recv_inv :: "'p connection \<Rightarrow> bool" where
  "recv_inv c \<longleftrightarrow>
     length (recv_queue c) + reassembly_bytes (reassembly c) \<le> receive_capacity c \<and>
     receive_capacity c \<le> u16_max"

lemma available_window_eq:
  "recv_inv c \<Longrightarrow> available_window c =
     receive_capacity c - (length (recv_queue c) + reassembly_bytes (reassembly c))"
  by (simp add: recv_inv_def available_window_def reassembly_bytes_def sat_add64_def u16_max_def
      u64_max_def min_def)

lemma available_window_u16_exact: "recv_inv c \<Longrightarrow> unat (available_window_u16 c) = available_window c"
proof -
  assume inv: "recv_inv c"
  then have "available_window c \<le> receive_capacity c" "receive_capacity c \<le> 65535"
    by (simp_all add: available_window_def recv_inv_def u16_max_def)
  then have "available_window c \<le> 65535" by (rule le_trans)
  then show ?thesis
    by (simp add: available_window_u16_def u16_max_def unat_of_nat take_bit_nat_eq_self min_absorb1)
qed

section \<open>Insertion\<close>

text \<open>What is inserted: the data from the next expected byte on, cut to the window.\<close>

definition insert_start :: "u32 \<Rightarrow> 'p connection \<Rightarrow> u32" where
  "insert_start seq c = (if before seq (recv_nxt c) then recv_nxt c else seq)"

definition insert_data :: "u32 \<Rightarrow> bytes \<Rightarrow> 'p connection \<Rightarrow> bytes" where
  "insert_data seq payload c =
     (if before seq (recv_nxt c) then drop (distance seq (recv_nxt c)) payload else payload)"

definition insert_chunk :: "u32 \<Rightarrow> bytes \<Rightarrow> bool \<Rightarrow> 'p connection \<Rightarrow> reassembly_segment" where
  "insert_chunk seq payload fin c =
     (let data = insert_data seq payload c;
          allowed = min (length data)
            (available_window c - distance (recv_nxt c) (insert_start seq c))
      in \<lparr>rsm_seq = insert_start seq c, rsm_payload = take allowed data,
          rsm_fin = (fin \<and> allowed = length data \<and>
            seq + of_nat (length payload) = insert_start seq c + of_nat (length data))\<rparr>)"

lemma insert_received_eq:
  "insert_received seq payload fin cfg c =
     (if after (insert_start seq c) (recv_nxt c)
         \<and> available_window c \<le> distance (recv_nxt c) (insert_start seq c) then c
      else if rsm_payload (insert_chunk seq payload fin c) = []
         \<and> \<not> rsm_fin (insert_chunk seq payload fin c) then c
      else if list_ex (\<lambda>e. rsm_seq e = rsm_seq (insert_chunk seq payload fin c)
           \<and> rsm_end_seq e = rsm_end_seq (insert_chunk seq payload fin c)) (reassembly c) then c
      else if length (reassembly c) < max_reassembly_segments cfg
      then c\<lparr>reassembly := reassembly c @ [insert_chunk seq payload fin c]\<rparr>
      else c)"
proof -
  have data: "(if before seq (recv_nxt c)
        then (if length payload \<le> distance seq (recv_nxt c) then []
              else drop (distance seq (recv_nxt c)) payload)
        else payload) = insert_data seq payload c"
    by (simp add: insert_data_def)
  show ?thesis
    unfolding insert_received_def Let_def data insert_chunk_def insert_start_def [symmetric]
    by (rule refl)
qed

lemma insert_received_cases:
  obtains (same) "insert_received seq p fin cfg c = c"
    | (pushed) "insert_received seq p fin cfg c
          = c\<lparr>reassembly := reassembly c @ [insert_chunk seq p fin c]\<rparr>"
        "length (reassembly c) < max_reassembly_segments cfg"
proof -
  let ?d = "c\<lparr>reassembly := reassembly c @ [insert_chunk seq p fin c]\<rparr>"
  have "insert_received seq p fin cfg c = c \<or>
      insert_received seq p fin cfg c = ?d \<and> length (reassembly c) < max_reassembly_segments cfg"
    by (simp only: insert_received_eq split: if_split) blast
  with same pushed show thesis by blast
qed

lemma insert_chunk_length: "length (rsm_payload (insert_chunk seq p fin c)) \<le> available_window c"
  by (simp add: insert_chunk_def Let_def)

lemma insert_received_recv_inv: "recv_inv c \<Longrightarrow> recv_inv (insert_received seq p fin cfg c)"
proof -
  assume inv: "recv_inv c"
  show ?thesis
  proof (cases rule: insert_received_cases [of seq p fin cfg c])
    case pushed
    then show ?thesis
      using inv available_window_eq [OF inv] insert_chunk_length [of seq p fin c]
      by (auto simp: recv_inv_def)
  qed (simp add: inv)
qed

section \<open>The frame of the receiver\<close>

definition remote_fin :: "tcp_state \<Rightarrow> tcp_state \<Rightarrow> bool" where
  "remote_fin st st' \<longleftrightarrow>
     st' = st \<or> st = Established \<and> st' = CloseWait \<or> st = FinWait1 \<and> st' = Closing
     \<or> st = FinWait2 \<and> st' = TimeWait"

text \<open>The fields the receiver leaves alone, as one tuple.\<close>

definition send_fields where
  "send_fields c =
     ((send_una c, send_nxt c, send_queue c, unacked c, close_requested c, remote_window c),
      (peer c, local_port c, remote_port c, mss c, receive_capacity c, max_transmissions c),
      (rtt c, reno c, send_progress c, next_zero_window_probe_ms c, zero_window_probes c,
       duplicate_acks c, rto_recovery_until c))"

text \<open>And the fields only the receiver writes.\<close>

definition recv_fields where
  "recv_fields c = (recv_nxt c, recv_queue c, reassembly c, read_closed c)"

definition recv_frame :: "'p connection \<Rightarrow> 'p connection \<Rightarrow> bool" where
  "recv_frame c c' \<longleftrightarrow>
     send_fields c' = send_fields c \<and>
     remote_fin (state c) (state c') \<and>
     (read_closed c \<longrightarrow> read_closed c') \<and>
     (state c' = FinWait2 \<longrightarrow> fin_wait_2_until_ms c' = fin_wait_2_until_ms c) \<and>
     (state c' = TimeWait \<longrightarrow> time_wait_until_ms c' \<noteq> None \<or>
        time_wait_until_ms c' = time_wait_until_ms c \<and> state c = TimeWait)"

lemma recv_frameD:
  assumes "recv_frame c c'"
  shows "send_una c' = send_una c" "send_nxt c' = send_nxt c" "send_queue c' = send_queue c"
    "unacked c' = unacked c" "close_requested c' = close_requested c"
    "remote_window c' = remote_window c" "peer c' = peer c" "local_port c' = local_port c"
    "remote_port c' = remote_port c" "mss c' = mss c" "receive_capacity c' = receive_capacity c"
    "max_transmissions c' = max_transmissions c" "rtt c' = rtt c" "reno c' = reno c"
    "send_progress c' = send_progress c"
    "next_zero_window_probe_ms c' = next_zero_window_probe_ms c"
    "zero_window_probes c' = zero_window_probes c" "duplicate_acks c' = duplicate_acks c"
    "rto_recovery_until c' = rto_recovery_until c" "remote_fin (state c) (state c')"
  using assms by (simp_all add: recv_frame_def send_fields_def)

lemma recv_frame_refl [simp]: "recv_frame c c"
  by (simp add: recv_frame_def remote_fin_def)

lemma remote_fin_trans: "remote_fin a b \<Longrightarrow> remote_fin b d \<Longrightarrow> remote_fin a d"
  by (auto simp: remote_fin_def)

lemma recv_frame_trans:
  assumes "recv_frame c d" "recv_frame d e"
  shows "recv_frame c e"
proof -
  note cd = assms(1) [unfolded recv_frame_def] and de = assms(2) [unfolded recv_frame_def]
  have st: "remote_fin (state c) (state e)"
    using cd de remote_fin_trans by blast
  have "state e = FinWait2 \<Longrightarrow> state d = FinWait2"
    using de by (auto simp: remote_fin_def)
  then have f: "state e = FinWait2 \<longrightarrow> fin_wait_2_until_ms e = fin_wait_2_until_ms c"
    using cd de by metis
  have t: "state e = TimeWait \<longrightarrow> time_wait_until_ms e \<noteq> None \<or>
      time_wait_until_ms e = time_wait_until_ms c \<and> state c = TimeWait"
    using cd de by metis
  show ?thesis
    unfolding recv_frame_def using cd de st f t by simp
qed

lemma recv_frame_on_remote_fin: "recv_frame c (on_remote_fin now cfg c)"
  by (cases "state c") (simp_all add: on_remote_fin_def enter_time_wait_def Let_def recv_frame_def
      remote_fin_def send_fields_def)

lemma recv_frame_update: "recv_frame c (c\<lparr>reassembly := rs, recv_queue := q, recv_nxt := n\<rparr>)"
  "recv_frame c (c\<lparr>reassembly := rs\<rparr>)" "recv_frame c (c\<lparr>recv_nxt := n\<rparr>)"
  by (simp_all add: recv_frame_def remote_fin_def send_fields_def)

lemma insert_received_frame: "recv_frame c (insert_received seq p fin cfg c)"
  by (cases rule: insert_received_cases [of seq p fin cfg c]) (simp_all add: recv_frame_update)

section \<open>Draining\<close>

text \<open>One round of the loop, when some segment starts at or before the next expected byte.\<close>

definition drain_take :: "config \<Rightarrow> 'p connection \<Rightarrow> reassembly_segment list \<Rightarrow> reassembly_segment
    \<Rightarrow> reassembly_segment list \<Rightarrow> 'p connection" where
  "drain_take cfg c pre s post =
     (let accepted = min (receive_buffer cfg - length (recv_queue c)) (length (rsm_payload s))
      in c\<lparr>reassembly := pre @ post, recv_queue := recv_queue c @ take accepted (rsm_payload s),
           recv_nxt := recv_nxt c + of_nat accepted\<rparr>)"

abbreviation drain_next :: "'p connection \<Rightarrow> reassembly_segment \<Rightarrow> bool" where
  "drain_next c s \<equiv> rsm_seq s = recv_nxt c \<or> before (rsm_seq s) (recv_nxt c)"

lemma drain_reassembly_unfold:
  "drain_reassembly now cfg c =
     (case List.extract (drain_next (drain_retain c)) (reassembly (drain_retain c)) of
        None \<Rightarrow> drain_retain c
      | Some (pre, s0, post) \<Rightarrow>
          (let s = drain_trim (drain_retain c) s0;
               c2 = drain_take cfg (drain_retain c) pre s post;
               accepted = min (receive_buffer cfg - length (recv_queue (drain_retain c)))
                 (length (rsm_payload s));
               rest = drop accepted (rsm_payload s)
           in if rest \<noteq> []
              then c2\<lparr>reassembly :=
                reassembly c2 @ [s\<lparr>rsm_payload := rest, rsm_seq := recv_nxt c2\<rparr>]\<rparr>
              else drain_reassembly now cfg
                (if rsm_fin s then on_remote_fin now cfg (c2\<lparr>recv_nxt := recv_nxt c2 + 1\<rparr>)
                 else c2)))"
  by (subst drain_reassembly.simps) (simp add: Let_def drain_take_def split: option.split)

lemma length_drain_retain: "length (reassembly (drain_retain c)) \<le> length (reassembly c)"
  by (simp add: drain_retain_def)

lemma drain_trim_length: "length (rsm_payload (drain_trim c s)) \<le> length (rsm_payload s)"
  by (simp add: drain_trim_def Let_def)

text \<open>
  Induction over the rounds. If \<open>drain_retain\<close> and one full round preserve \<open>P\<close>, the drained
  connection satisfies whatever follows from \<open>P\<close> where the loop stops: with no segment left to
  take, or with a leftover of one.
\<close>

lemma drain_rule [consumes 1, case_names retain stop leftover round]:
  assumes init: "P c"
    and retain: "\<And>c. P c \<Longrightarrow> P (drain_retain c)"
    and stop: "\<And>c. P c \<Longrightarrow> \<forall>r \<in> set (reassembly c). \<not> drain_next c r \<Longrightarrow> Q c"
    and leftover: "\<And>c pre s0 post. P c \<Longrightarrow> reassembly c = pre @ s0 # post \<Longrightarrow> drain_next c s0 \<Longrightarrow>
      let s = drain_trim c s0; c2 = drain_take cfg c pre s post;
        rest = drop (receive_buffer cfg - length (recv_queue c)) (rsm_payload s)
      in rest \<noteq> [] \<longrightarrow>
        Q (c2\<lparr>reassembly := reassembly c2 @ [s\<lparr>rsm_payload := rest, rsm_seq := recv_nxt c2\<rparr>]\<rparr>)"
    and round: "\<And>c pre s0 post. P c \<Longrightarrow> reassembly c = pre @ s0 # post \<Longrightarrow> drain_next c s0 \<Longrightarrow>
      (\<forall>r \<in> set (reassembly c). \<not> before_or_equal (rsm_end_seq r) (recv_nxt c)) \<Longrightarrow>
      let s = drain_trim c s0; c2 = drain_take cfg c pre s post
      in length (rsm_payload s) \<le> receive_buffer cfg - length (recv_queue c) \<longrightarrow>
        P (if rsm_fin s then on_remote_fin now cfg (c2\<lparr>recv_nxt := recv_nxt c2 + 1\<rparr>) else c2)"
  shows "Q (drain_reassembly now cfg c)"
  using init
proof (induction "length (reassembly c)" arbitrary: c rule: less_induct)
  case less
  let ?c = "drain_retain c"
  have P: "P ?c" using less.prems by (rule retain)
  show ?case
  proof (cases "List.extract (drain_next ?c) (reassembly ?c)")
    case None
    then have "\<forall>r \<in> set (reassembly ?c). \<not> drain_next ?c r"
      by (simp add: extract_None_iff)
    with P stop have "Q ?c" by blast
    with None show ?thesis by (subst drain_reassembly_unfold) simp
  next
    case (Some x)
    obtain pre s0 post where x: "x = (pre, s0, post)" by (cases x)
    have ex: "reassembly ?c = pre @ s0 # post" "drain_next ?c s0"
      using Some x by (auto simp: extract_Some_iff)
    let ?s = "drain_trim ?c s0"
    let ?c2 = "drain_take cfg ?c pre ?s post"
    let ?a = "min (receive_buffer cfg - length (recv_queue ?c)) (length (rsm_payload ?s))"
    let ?c3 = "if rsm_fin ?s then on_remote_fin now cfg (?c2\<lparr>recv_nxt := recv_nxt ?c2 + 1\<rparr>) else ?c2"
    have drop: "drop ?a (rsm_payload ?s) =
        drop (receive_buffer cfg - length (recv_queue ?c)) (rsm_payload ?s)"
      by (simp add: min_def)
    show ?thesis
    proof (cases "drop ?a (rsm_payload ?s) = []")
      case False
      have "drain_reassembly now cfg c = ?c2\<lparr>reassembly := reassembly ?c2
          @ [?s\<lparr>rsm_payload := drop ?a (rsm_payload ?s), rsm_seq := recv_nxt ?c2\<rparr>]\<rparr>"
        using Some x False by (subst drain_reassembly_unfold) (simp add: Let_def)
      then show ?thesis
        using leftover [OF P ex] False by (simp add: Let_def drop)
    next
      case True
      have "drain_reassembly now cfg c = drain_reassembly now cfg ?c3"
        using Some x True by (subst drain_reassembly_unfold) (simp add: Let_def)
      moreover have "\<forall>r \<in> set (reassembly ?c). \<not> before_or_equal (rsm_end_seq r) (recv_nxt ?c)"
        by (auto simp: drain_retain_def before_or_equal_def before_unat)
      then have "P ?c3"
        using round [OF P ex] True by (simp add: Let_def)
      moreover have "length (reassembly ?c3) < length (reassembly c)"
        using ex(1) length_drain_retain [of c] by (simp add: drain_take_def Let_def)
      ultimately show ?thesis
        using less.hyps by simp
    qed
  qed
qed

lemma drain_induct [consumes 1, case_names retain leftover round]:
  assumes "P c"
    and "\<And>c. P c \<Longrightarrow> P (drain_retain c)"
    and "\<And>c pre s0 post. P c \<Longrightarrow> reassembly c = pre @ s0 # post \<Longrightarrow> drain_next c s0 \<Longrightarrow>
      let s = drain_trim c s0; c2 = drain_take cfg c pre s post;
        rest = drop (receive_buffer cfg - length (recv_queue c)) (rsm_payload s)
      in rest \<noteq> [] \<longrightarrow>
        P (c2\<lparr>reassembly := reassembly c2 @ [s\<lparr>rsm_payload := rest, rsm_seq := recv_nxt c2\<rparr>]\<rparr>)"
    and "\<And>c pre s0 post. P c \<Longrightarrow> reassembly c = pre @ s0 # post \<Longrightarrow> drain_next c s0 \<Longrightarrow>
      (\<forall>r \<in> set (reassembly c). \<not> before_or_equal (rsm_end_seq r) (recv_nxt c)) \<Longrightarrow>
      let s = drain_trim c s0; c2 = drain_take cfg c pre s post
      in length (rsm_payload s) \<le> receive_buffer cfg - length (recv_queue c) \<longrightarrow>
        P (if rsm_fin s then on_remote_fin now cfg (c2\<lparr>recv_nxt := recv_nxt c2 + 1\<rparr>) else c2)"
  shows "P (drain_reassembly now cfg c)"
  by (rule drain_rule [where P = P and Q = P, OF assms(1) assms(2) _ assms(3) assms(4)])

section \<open>What draining keeps\<close>

lemma on_remote_fin_simps [simp]:
  "recv_queue (on_remote_fin now cfg c) = recv_queue c"
  "recv_nxt (on_remote_fin now cfg c) = recv_nxt c"
  "receive_capacity (on_remote_fin now cfg c) = receive_capacity c"
  "read_closed (on_remote_fin now cfg c)"
  by (simp_all add: on_remote_fin_def enter_time_wait_def Let_def split: tcp_state.split)

lemma drain_take_bytes:
  assumes "reassembly c = pre @ s0 # post" "recv_inv c"
  shows "recv_inv (drain_take cfg c pre (drain_trim c s0) post)"
    and "length (recv_queue (drain_take cfg c pre (drain_trim c s0) post)) +
      (length (rsm_payload (drain_trim c s0)) - (receive_buffer cfg - length (recv_queue c))) +
      reassembly_bytes (pre @ post) \<le> receive_capacity c"
  using assms drain_trim_length [of c s0]
  by (auto simp: recv_inv_def drain_take_def Let_def min_def)

lemma drain_recv_inv: "recv_inv c \<Longrightarrow> recv_inv (drain_reassembly now cfg c)"
proof (induction rule: drain_induct)
  case (retain c)
  then show ?case
    using reassembly_bytes_filter [of _ "reassembly c"]
    by (simp add: recv_inv_def drain_retain_def) (meson add_left_mono le_trans)
next
  case (leftover c pre s0 post)
  then show ?case
    using drain_take_bytes(2) [of c pre s0 post cfg]
    by (auto simp: Let_def recv_inv_def drain_take_def add.assoc add.commute)
next
  case (round c pre s0 post)
  then show ?case
    using drain_take_bytes(1) [of c pre s0 post cfg]
    by (simp add: Let_def recv_inv_def)
qed

lemma drain_frame: "recv_frame c (drain_reassembly now cfg c)"
proof (induction rule: drain_induct [where P = "recv_frame c", OF recv_frame_refl])
  case (1 d)
  then show ?case
    by (rule recv_frame_trans) (simp add: drain_retain_def recv_frame_update)
next
  case (2 d pre s0 post)
  then show ?case
    by (auto simp: Let_def drain_take_def intro!: recv_frame_trans [OF 2(1)])
       (auto simp: recv_frame_def send_fields_def remote_fin_def)
next
  case (3 d pre s0 post)
  have take: "recv_frame c (drain_take cfg d pre s post)" for s
    by (rule recv_frame_trans [OF 3(1)]) (simp add: drain_take_def Let_def recv_frame_update)
  show ?case
    by (auto simp: Let_def
        intro: recv_frame_trans [OF recv_frame_trans [OF take recv_frame_update(3)] recv_frame_on_remote_fin]
          take)
qed

lemma receive_stream_data_inv: "recv_inv c \<Longrightarrow> recv_inv (snd (receive_stream_data s now cfg c))"
  by (simp add: receive_stream_data_def Let_def drain_recv_inv insert_received_recv_inv)

lemma receive_stream_data_frame: "recv_frame c (snd (receive_stream_data s now cfg c))"
  by (auto simp: receive_stream_data_def Let_def
      intro: recv_frame_trans [OF insert_received_frame drain_frame])

lemma receive_stream_data_acks: "fst (receive_stream_data s now cfg c)
    = [ack_segment (snd (receive_stream_data s now cfg c))]"
  by (simp add: receive_stream_data_def Let_def)

end
