(* ===== verification/Stream_Pieces.thy ===== *)
theory Stream_Pieces
  imports Prelude
begin

text \<open>
  Pieces of a byte stream: what a segment carries is a contiguous part of the stream its sender was
  given, and a FIN sits at the end of it. The sender's lemmas show that it transmits nothing else,
  the receiver's lemmas rely on it.
\<close>

section \<open>Pieces of a stream\<close>

definition piece :: "bytes \<Rightarrow> bool \<Rightarrow> nat \<Rightarrow> bytes \<Rightarrow> bool \<Rightarrow> bool" where
  "piece S e k p fin \<longleftrightarrow>
     k + length p \<le> length S \<and> p = take (length p) (drop k S) \<and>
     (fin \<longrightarrow> e \<and> k + length p = length S)"

lemma piece_Nil: "k \<le> length S \<Longrightarrow> piece S e k [] False"
  by (simp add: piece_def)

lemma piece_drop:
  assumes "piece S e k p fin" "j \<le> length p"
  shows "piece S e (k + j) (drop j p) fin"
proof -
  have "drop j p = take (length p - j) (drop (k + j) S)"
    using assms by (metis drop_drop drop_take piece_def add.commute)
  with assms show ?thesis
    by (auto simp: piece_def)
qed

lemma piece_take:
  assumes "piece S e k p fin"
  shows "piece S e k (take j p) (fin \<and> length p \<le> j)"
proof -
  have "take j p = take (min j (length p)) (drop k S)"
    using assms by (metis piece_def take_take)
  with assms show ?thesis by (auto simp: piece_def min_def)
qed

text \<open>A stream that has not ended may grow.\<close>

lemma piece_grow: "piece S False k p fin \<Longrightarrow> piece (S @ T) e k p fin"
  by (auto simp: piece_def)

lemma piece_end: "piece S False k p fin \<Longrightarrow> piece S e k p fin"
  by (auto simp: piece_def)

lemma piece_append: "piece S e n p fin \<Longrightarrow> take n S @ p = take (n + length p) S"
  by (metis piece_def take_add)

end
