(* ===== verification/Conn_Invariant.thy ===== *)
theory Conn_Invariant
  imports Machine Sender Receiver Stream_Pieces
begin

text \<open>
  The invariant of a connection and its preservation by every operation of theory \<open>Machine\<close>.
  \<open>phase_inv ph\<close> is the invariant with the sending phase given, since \<open>apply_ack\<close> moves the queue
  to the next phase before the caller moves the state; \<open>conn_inv\<close> ties the two together.
\<close>

section \<open>The invariant\<close>

definition pending :: "'p connection \<Rightarrow> bytes" where
  "pending c = queued_bytes (unacked c) @ send_queue c"

definition progress_inv :: "'p connection \<Rightarrow> bool" where
  "progress_inv c \<longleftrightarrow>
     accepted_payload_bytes (send_progress c) =
       acked_payload_bytes (send_progress c) + length (pending c) \<and>
     accepted_payload_bytes (send_progress c) \<le> u128_max"

definition retry_inv :: "'p connection \<Rightarrow> bool" where
  "retry_inv c \<longleftrightarrow>
     (\<forall>t \<in> set (unacked c). 1 \<le> transmissions t \<and> transmissions t \<le> max 1 (max_transmissions c))"

definition param_inv :: "config \<Rightarrow> 'p connection \<Rightarrow> bool" where
  "param_inv cfg c \<longleftrightarrow>
     0 < mss c \<and> mss c \<le> unat (cfg_mss cfg) \<and> reno_mss (reno c) = mss c \<and> reno_ok (reno c) \<and>
     rtt_ok (min_rto_ms cfg) (max_rto_ms cfg) (rtt c) \<and>
     receive_capacity c = receive_buffer cfg \<and> max_transmissions c = max_retransmissions cfg \<and>
     remote_window c \<le> u16_max \<and> local_port c \<noteq> 0 \<and> remote_port c \<noteq> 0"

text \<open>
  What a state demands of the other fields: its deadline is set, and until the peer's SYN-ACK
  arrives the segment size is the configured one.
\<close>

definition state_inv :: "config \<Rightarrow> 'p connection \<Rightarrow> bool" where
  "state_inv cfg c \<longleftrightarrow>
     (state c = SynSent \<longrightarrow> mss c = unat (cfg_mss cfg)) \<and>
     (state c = FinWait2 \<longrightarrow> fin_wait_2_until_ms c \<noteq> None) \<and>
     (state c = TimeWait \<longrightarrow> time_wait_until_ms c \<noteq> None)"

definition phase_inv :: "send_phase \<Rightarrow> config \<Rightarrow> 'p connection \<Rightarrow> bool" where
  "phase_inv ph cfg c \<longleftrightarrow>
     send_ok ph (send_una c) (send_nxt c) (unacked c) (send_queue c) (close_requested c) \<and>
     (ph = Opening \<longrightarrow> accepted_payload_bytes (send_progress c) = 0) \<and> progress_inv c \<and> retry_inv c \<and> recv_inv c \<and> param_inv cfg c"

definition conn_inv :: "config \<Rightarrow> 'p connection \<Rightarrow> bool" where
  "conn_inv cfg c \<longleftrightarrow> phase_inv (phase (state c)) cfg c \<and> state_inv cfg c"

lemmas inv_defs = phase_inv_def progress_inv_def retry_inv_def recv_inv_def param_inv_def pending_def

section \<open>What a transmitted segment carries\<close>

text \<open>
  \<open>stream_base\<close> is the sequence number of the first byte of the outgoing stream, computed from the
  present state; \<open>emits\<close> says that a segment carries no stream data, or a piece of what is still
  owed to the peer at its place in the stream, with a FIN only at the end and a SYN only before
  the first byte.
\<close>

fun base_from :: "send_phase \<Rightarrow> u32 \<Rightarrow> u32 \<Rightarrow> nat \<Rightarrow> u32" where
  "base_from Opening una nxt acked = nxt - of_nat acked"
| "base_from Open una nxt acked = una - of_nat acked"
| "base_from Finishing una nxt acked = una - of_nat acked"
| "base_from Finished una nxt acked = una - 1 - of_nat acked"

definition stream_base :: "send_phase \<Rightarrow> 'p connection \<Rightarrow> u32" where
  "stream_base ph c =
     base_from ph (send_una c) (send_nxt c) (acked_payload_bytes (send_progress c))"

fun ended :: "send_phase \<Rightarrow> bool" where
  "ended Opening = False" | "ended Open = False" | "ended Finishing = True" | "ended Finished = True"

definition emits :: "send_phase \<Rightarrow> 'p connection \<Rightarrow> segment \<Rightarrow> bool" where
  "emits ph c s \<longleftrightarrow>
     (contains (seg_flags s) SYN \<longrightarrow> seg_seq s + 1 = stream_base ph c) \<and>
     (seg_payload s = [] \<and> \<not> contains (seg_flags s) FIN \<or>
      ph \<noteq> Opening \<and>
      (\<exists>j. seg_seq s = seq_at (stream_base ph c) (acked_payload_bytes (send_progress c) + j) \<and>
        piece (pending c) (ended ph) j (seg_payload s) (contains (seg_flags s) FIN)))"

lemma emits_plain: "seg_payload s = [] \<Longrightarrow> \<not> contains (seg_flags s) FIN \<Longrightarrow>
    \<not> contains (seg_flags s) SYN \<Longrightarrow> emits ph c s"
  by (simp add: emits_def)

lemma emits_ack_segment [simp]: "emits ph c (ack_segment d)"
  by (rule emits_plain) (simp_all add: ack_segment_def)

lemma emits_transfer:
  assumes "emits ph c s" "pending c' = pending c"
    "acked_payload_bytes (send_progress c') = acked_payload_bytes (send_progress c)"
    "stream_base ph' c' = stream_base ph c" "ended ph \<longrightarrow> ended ph'" "ph \<noteq> Opening \<longrightarrow> ph' \<noteq> Opening"
  shows "emits ph' c' s"
  using assms by (auto simp: emits_def piece_def)

lemma queued_units:
  "list_all data_seg ts \<Longrightarrow> flight ts = length (queued_bytes ts)"
  "finishing_queue ts \<Longrightarrow> flight ts = length (queued_bytes ts) + 1"
proof -
  show data: "list_all data_seg ts \<Longrightarrow> flight ts = length (queued_bytes ts)" for ts
    by (induction ts) (auto simp: trk_len_kinds)
  assume f: "finishing_queue ts"
  then obtain xs t where ts: "ts = xs @ [t]"
    by (cases ts rule: rev_cases) (auto simp: finishing_queue_def)
  with f data [of xs] show "flight ts = length (queued_bytes ts) + 1"
    by (auto simp: trk_len_kinds fin_seg_def)
qed

text \<open>Every segment of the retransmission queue is a piece of what is owed.\<close>

lemma tracked_piece:
  assumes so: "send_ok ph una nxt ts q cl" and ph: "ph \<noteq> Opening" and t: "t \<in> set ts"
  shows "\<exists>j. trk_seq t = seq_at una j \<and>
    piece (queued_bytes ts @ q) (ended ph) j (trk_payload t) (contains (trk_flags t) FIN)"
proof -
  obtain xs ys where ts: "ts = xs @ t # ys" using t by (auto simp: in_set_conv_decomp)
  have "chain una xs (trk_seq t)"
    using so by (auto simp: send_ok_def ts chain_append)
  then have seq: "trk_seq t = seq_at una (flight xs)" by (rule chain_end)
  have q: "queue_ok ph ts" using so by (simp add: send_ok_def)
  have xs: "list_all data_seg xs" "data_seg t \<or> fin_seg t \<and> ys = [] \<and> ph = Finishing"
    using q ph finishing_split [of xs "t # ys"] unfolding ts by (cases ph; auto simp: finishing_Cons)+
  let ?j = "length (queued_bytes xs)"
  have "piece (queued_bytes ts @ q) (ended ph) ?j (trk_payload t) (contains (trk_flags t) FIN)"
    using xs(2)
  proof
    assume "data_seg t"
    then show ?thesis by (simp add: piece_def ts kinds_flags)
  next
    assume f: "fin_seg t \<and> ys = [] \<and> ph = Finishing"
    then have "q = []" using so by (simp add: send_ok_def)
    with f show ?thesis by (simp add: piece_def ts fin_seg_def)
  qed
  moreover have "flight xs = ?j" using xs(1) by (rule queued_units)
  ultimately show ?thesis using seq by metis
qed

lemma tracked_emits:
  assumes inv: "phase_inv ph cfg c" and t: "t \<in> set (unacked c)"
    and s: "seg_seq s = trk_seq t" "seg_payload s = trk_payload t" "seg_flags s = trk_flags t"
  shows "emits ph c s"
proof (cases "ph = Opening")
  case True
  then have t1: "unacked c = [t]" "syn_seg t"
    using inv t by (auto simp: phase_inv_def send_ok_def)
  then have "chain (send_una c) [t] (send_nxt c)"
    using inv unfolding phase_inv_def send_ok_def by metis
  then have "trk_seq t + 1 = send_nxt c"
    using t1(2) by (auto simp: trk_end_seq_def syn_seg_def)
  moreover have "acked_payload_bytes (send_progress c) = 0"
    using inv True by (simp add: phase_inv_def progress_inv_def)
  ultimately show ?thesis
    using s t1(2) True by (auto simp: emits_def stream_base_def syn_seg_def kinds_flags)
next
  case False
  have so: "send_ok ph (send_una c) (send_nxt c) (unacked c) (send_queue c) (close_requested c)"
    using inv by (simp add: phase_inv_def)
  obtain j where "trk_seq t = seq_at (send_una c) j"
    "piece (pending c) (ended ph) j (trk_payload t) (contains (trk_flags t) FIN)"
    using tracked_piece [OF so False t] by (auto simp: pending_def)
  moreover have "ph \<noteq> Finished" using inv t by (auto simp: phase_inv_def send_ok_def)
  then have "stream_base ph c = send_una c - of_nat (acked_payload_bytes (send_progress c))"
    using False by (cases ph) (auto simp: stream_base_def)
  moreover have "data_seg t \<or> fin_seg t"
    using False so t in_finishing_queue [of "unacked c" t]
    by (cases ph) (auto simp: send_ok_def list_all_iff)
  then have "\<not> contains (seg_flags s) SYN"
    using s(3) kinds_flags by auto
  ultimately show ?thesis
    using s False by (auto simp: emits_def seq_at_def intro!: exI [of _ j])
qed

section \<open>Retransmission\<close>

lemma retransmit_oldest_frame [simp]:
  "state (snd (retransmit_oldest now_ms tmo c)) = state c"
  "send_una (snd (retransmit_oldest now_ms tmo c)) = send_una c"
  "send_nxt (snd (retransmit_oldest now_ms tmo c)) = send_nxt c"
  "recv_nxt (snd (retransmit_oldest now_ms tmo c)) = recv_nxt c"
  "send_queue (snd (retransmit_oldest now_ms tmo c)) = send_queue c"
  "recv_queue (snd (retransmit_oldest now_ms tmo c)) = recv_queue c"
  "reassembly (snd (retransmit_oldest now_ms tmo c)) = reassembly c"
  "close_requested (snd (retransmit_oldest now_ms tmo c)) = close_requested c"
  "remote_window (snd (retransmit_oldest now_ms tmo c)) = remote_window c"
  "reno (snd (retransmit_oldest now_ms tmo c)) = reno c"
  "read_closed (snd (retransmit_oldest now_ms tmo c)) = read_closed c"
  "send_progress (snd (retransmit_oldest now_ms tmo c)) = send_progress c"
  "fin_wait_2_until_ms (snd (retransmit_oldest now_ms tmo c)) = fin_wait_2_until_ms c"
  "time_wait_until_ms (snd (retransmit_oldest now_ms tmo c)) = time_wait_until_ms c"
  "peer (snd (retransmit_oldest now_ms tmo c)) = peer c"
  "local_port (snd (retransmit_oldest now_ms tmo c)) = local_port c"
  "remote_port (snd (retransmit_oldest now_ms tmo c)) = remote_port c"
  "mss (snd (retransmit_oldest now_ms tmo c)) = mss c"
  "receive_capacity (snd (retransmit_oldest now_ms tmo c)) = receive_capacity c"
  "max_transmissions (snd (retransmit_oldest now_ms tmo c)) = max_transmissions c"
  "next_zero_window_probe_ms (snd (retransmit_oldest now_ms tmo c)) = next_zero_window_probe_ms c"
  "zero_window_probes (snd (retransmit_oldest now_ms tmo c)) = zero_window_probes c"
  by (simp_all add: retransmit_oldest_def Let_def split: list.split)

text \<open>A retransmission touches only the time and the count of the oldest segment.\<close>

definition same_segments :: "tracked_segment list \<Rightarrow> tracked_segment list \<Rightarrow> bool" where
  "same_segments ts ts' \<longleftrightarrow> list_all2 (\<lambda>t t'.
     trk_seq t' = trk_seq t \<and> trk_flags t' = trk_flags t \<and> trk_payload t' = trk_payload t) ts ts'"

lemma same_segments_refl: "same_segments ts ts"
  by (simp add: same_segments_def list_all2_same)

lemma same_segments_Nil [simp]:
  "same_segments [] ts' \<longleftrightarrow> ts' = []" "same_segments ts [] \<longleftrightarrow> ts = []"
  by (simp_all add: same_segments_def)

lemma same_segments_Cons:
  "same_segments (t # ts) us \<longleftrightarrow> (\<exists>t' ts'. us = t' # ts' \<and> trk_seq t' = trk_seq t \<and>
     trk_flags t' = trk_flags t \<and> trk_payload t' = trk_payload t \<and> same_segments ts ts')"
  by (auto simp: same_segments_def list_all2_Cons1)

lemma same_segments_chain: "same_segments ts ts' \<Longrightarrow> chain a ts' b = chain a ts b"
proof (induction ts arbitrary: a ts')
  case (Cons t ts)
  then obtain t' us where us: "ts' = t' # us" "trk_seq t' = trk_seq t" "trk_flags t' = trk_flags t"
    "trk_payload t' = trk_payload t" "same_segments ts us"
    by (auto simp: same_segments_Cons)
  then have "trk_end_seq t' = trk_end_seq t" by (simp add: trk_end_seq_def)
  with us Cons.IH [OF us(5)] show ?case by simp
qed simp

lemma same_segments_flight: "same_segments ts ts' \<Longrightarrow> flight ts' = flight ts"
  by (induction ts arbitrary: ts') (auto simp: same_segments_Cons trk_len_def)

lemma same_segments_bytes: "same_segments ts ts' \<Longrightarrow> queued_bytes ts' = queued_bytes ts"
  by (induction ts arbitrary: ts') (auto simp: same_segments_Cons)

lemma same_segments_kinds: "same_segments ts ts' \<Longrightarrow> list_all data_seg ts' = list_all data_seg ts"
  by (induction ts arbitrary: ts') (auto simp: same_segments_Cons data_seg_def)

lemma same_segments_finishing: "same_segments ts ts' \<Longrightarrow> finishing_queue ts' = finishing_queue ts"
proof (induction ts arbitrary: ts')
  case (Cons t ts)
  then obtain t' us where us: "ts' = t' # us" "trk_flags t' = trk_flags t"
    "trk_payload t' = trk_payload t" "same_segments ts us"
    by (auto simp: same_segments_Cons)
  then have "us = [] \<longleftrightarrow> ts = []" "data_seg t' = data_seg t" "fin_seg t' = fin_seg t"
    by (auto simp: data_seg_def fin_seg_def)
  with us Cons.IH [OF us(4)] show ?case by (simp add: finishing_Cons)
qed simp

lemma same_segments_queue_ok: "same_segments ts ts' \<Longrightarrow> queue_ok ph ts' = queue_ok ph ts"
  by (cases ph)
     (auto simp: same_segments_kinds same_segments_finishing same_segments_def list_all2_Cons1
        list_all2_Cons2 syn_seg_def)

lemma retransmit_same_segments: "same_segments (unacked c) (unacked (snd (retransmit_oldest now_ms tmo c)))"
  by (cases "unacked c")
     (auto simp: retransmit_oldest_def Let_def same_segments_def list_all2_same)

lemma retransmit_phase_inv:
  assumes "phase_inv ph cfg c"
  shows "phase_inv ph cfg (snd (retransmit_oldest now_ms tmo c))"
proof -
  let ?c = "snd (retransmit_oldest now_ms tmo c)"
  have "retry_inv ?c"
    using assms by (cases "unacked c")
      (auto simp: inv_defs retransmit_oldest_def Let_def sat_add8_def u8_max_def)
  moreover have "rtt_ok (min_rto_ms cfg) (max_rto_ms cfg) (rtt ?c)"
    using assms by (cases "unacked c") (auto simp: inv_defs retransmit_oldest_def Let_def)
  ultimately show ?thesis
    using assms retransmit_same_segments [of c now_ms tmo]
    by (auto simp: inv_defs send_ok_def same_segments_chain same_segments_flight
        same_segments_bytes same_segments_queue_ok)
qed

lemma retransmit_pending [simp]: "pending (snd (retransmit_oldest now_ms tmo c)) = pending c"
  by (simp add: pending_def same_segments_bytes [OF retransmit_same_segments])

lemma retransmit_base [simp]: "stream_base ph (snd (retransmit_oldest now_ms tmo c)) = stream_base ph c"
  by (simp add: stream_base_def)

lemma retransmit_emits:
  assumes inv: "phase_inv ph cfg c" and s: "fst (retransmit_oldest now_ms tmo c) = Some s"
  shows "emits ph (snd (retransmit_oldest now_ms tmo c)) s"
proof -
  obtain t rest where t: "unacked c = t # rest"
    using s by (cases "unacked c") (auto simp: retransmit_oldest_def)
  have "emits ph c s"
    using s t by (intro tracked_emits [OF inv, of t])
      (auto simp: retransmit_oldest_def Let_def split: if_splits)
  then show ?thesis by (rule emits_transfer) simp_all
qed

section \<open>Acknowledgments\<close>

fun ack_phase :: "send_phase \<Rightarrow> bool \<Rightarrow> send_phase" where
  "ack_phase Opening fin = Open"
| "ack_phase Finishing True = Finished"
| "ack_phase ph fin = ph"

lemma ack_phase_opened [simp]: "ack_phase ph fin \<noteq> Opening"
  by (cases ph; cases fin) auto

lemma queue_ok_after_ack:
  assumes "queue_ok ph (popped @ rest)" "flight (popped @ rest) < 2 ^ 31" "0 < k"
    "flight popped \<le> k" "rest \<noteq> [] \<longrightarrow> k < flight popped + trk_len (hd rest)"
    "list_all2 trimmed_from rest rest'"
  shows "queue_ok (ack_phase ph (list_ex (\<lambda>t. contains (trk_flags t) FIN) popped)) rest'"
proof (cases ph)
  case Opening
  then obtain t where "popped @ rest = [t]" "syn_seg t" using assms(1) by auto
  then have "rest = []"
    using assms(3,5) by (cases popped) (auto simp: trk_len_kinds)
  then show ?thesis using Opening assms(6) by simp
next
  case Open
  then show ?thesis using assms trimmed_data by auto
next
  case Finishing
  show ?thesis
  proof (cases "rest = []")
    case True
    then show ?thesis using Finishing assms by (simp add: finishing_has_fin)
  next
    case False
    then have "list_all data_seg popped \<and> finishing_queue rest"
      using Finishing assms(1) by (intro finishing_split) auto
    then show ?thesis
      using Finishing assms(6) trimmed_finishing data_no_fin by auto
  qed
next
  case Finished
  then show ?thesis using assms by simp
qed

definition ack_frame :: "'p connection \<Rightarrow> 'p connection \<Rightarrow> bool" where
  "ack_frame c c' \<longleftrightarrow>
     state c' = state c \<and> send_nxt c' = send_nxt c \<and> recv_nxt c' = recv_nxt c \<and>
     send_queue c' = send_queue c \<and> recv_queue c' = recv_queue c \<and>
     reassembly c' = reassembly c \<and> close_requested c' = close_requested c \<and>
     remote_window c' = remote_window c \<and> read_closed c' = read_closed c \<and>
     fin_wait_2_until_ms c' = fin_wait_2_until_ms c \<and>
     time_wait_until_ms c' = time_wait_until_ms c \<and> peer c' = peer c \<and>
     local_port c' = local_port c \<and> remote_port c' = remote_port c \<and> mss c' = mss c \<and>
     receive_capacity c' = receive_capacity c \<and> max_transmissions c' = max_transmissions c \<and>
     next_zero_window_probe_ms c' = next_zero_window_probe_ms c \<and>
     zero_window_probes c' = zero_window_probes c"

text \<open>What is acknowledged leaves the front of the stream and is counted.\<close>

definition acks_bytes :: "nat \<Rightarrow> 'p connection \<Rightarrow> 'p connection \<Rightarrow> bool" where
  "acks_bytes n c c' \<longleftrightarrow>
     n \<le> length (queued_bytes (unacked c)) \<and>
     pending c' = drop n (pending c) \<and>
     acked_payload_bytes (send_progress c') = acked_payload_bytes (send_progress c) + n \<and>
     accepted_payload_bytes (send_progress c') = accepted_payload_bytes (send_progress c) \<and>
     connection_token (send_progress c') = connection_token (send_progress c)"

lemma apply_new_ack_effect:
  assumes inv: "phase_inv ph cfg c" and k: "0 < k" "k \<le> flight (unacked c)"
  shows "\<exists>o1 c' n. apply_new_ack (seq_at (send_una c) k) now c = Some (o1, c') \<and>
    phase_inv (ack_phase ph (ack_fin_acked o1)) cfg c' \<and> ack_frame c c' \<and>
    send_una c' = seq_at (send_una c) k \<and> ack_retransmit o1 = None \<and>
    flight (unacked c') + k = flight (unacked c) \<and> acks_bytes n c c'"
proof -
  let ?ack = "seq_at (send_una c) k" and ?ts = "unacked c"
  have so: "chain (send_una c) ?ts (send_nxt c)" "flight ?ts < 2 ^ 31" "queue_ok ph ?ts"
    using inv by (auto simp: inv_defs send_ok_def u16_max_def)
  obtain popped rest sample where p: "?ts = popped @ rest"
    "pop_acked (rtt c) ?ack now 0 False None ?ts =
       (0 + length (queued_bytes popped), False \<or> list_ex (\<lambda>t. contains (trk_flags t) FIN) popped,
        sample, rest)"
    "flight popped \<le> k" "rest \<noteq> [] \<longrightarrow> k < flight popped + trk_len (hd rest)"
    using pop_acked_split [OF so(1,2) k(2)] by blast
  obtain m where m: "chain (send_una c) popped m" "chain m rest (send_nxt c)"
    using so(1) p(1) chain_append by metis
  have m_seq: "m = seq_at (send_una c) (flight popped)"
    using m(1) by (rule chain_end)
  have ack: "?ack = seq_at m (k - flight popped)"
    using p(3) by (simp add: m_seq seq_at_def)
  have kinds: "queue_kinds rest"
    using queue_ok_kinds [OF so(3)] p(1) by (auto simp: queue_kinds_def)
  have "rest = [] \<longrightarrow> k - flight popped = 0" "rest \<noteq> [] \<longrightarrow> k - flight popped < trk_len (hd rest)"
    using p(1,3,4) k(2) by auto
  then obtain n rest' where r: "trim_front ?ack rest = (n, rest')" "chain ?ack rest' (send_nxt c)"
    "flight rest' + (k - flight popped) = flight rest"
    "queued_bytes rest' = drop n (queued_bytes rest)" "n \<le> length (queued_bytes rest)"
    "list_all2 trimmed_from rest rest'"
    using trim_front_queue [OF kinds m(2), of "k - flight popped"] so(2) p(1) ack by auto
  let ?n = "length (queued_bytes popped) + n"
  have fl: "flight rest' + k = flight ?ts"
    using r(3) p(1,3,4) k by (cases "rest = []") auto
  have n: "?n \<le> length (queued_bytes ?ts)"
    using r(5) p(1) by simp
  have prog: "acked_payload_bytes (send_progress c) + ?n \<le> u128_max"
    using inv n by (simp add: inv_defs)
  let ?fin = "list_ex (\<lambda>t. contains (trk_flags t) FIN) popped"
  let ?c = "c\<lparr>duplicate_acks := 0, unacked := rest', send_una := ?ack,
     rto_recovery_until := (case rto_recovery_until c of None \<Rightarrow> None
       | Some e \<Rightarrow> if \<not> before ?ack e then None else Some e),
     rtt := (case sample of None \<Rightarrow> rtt c | Some ms \<Rightarrow> rtt_sample ms (rtt c)),
     reno := reno_on_ack ?n (reno c),
     send_progress := (send_progress c)\<lparr>acked_payload_bytes :=
       acked_payload_bytes (send_progress c) + ?n\<rparr>\<rparr>"
  have app: "apply_new_ack ?ack now c = Some (\<lparr>ack_fin_acked = ?fin, ack_retransmit = None\<rparr>, ?c)"
    using prog r(1) p(2) by (simp add: apply_new_ack_def progress_acknowledge_def checked_add_def)
  have bytes: "queued_bytes rest' = drop ?n (queued_bytes ?ts)"
    using p(1) r(4) by simp
  have qok: "queue_ok (ack_phase ph ?fin) rest'"
    using queue_ok_after_ack [OF _ _ k(1) p(3,4) r(6)] so(2,3) p(1) by simp
  have closed: "ack_phase ph ?fin \<noteq> Open \<Longrightarrow> ph \<noteq> Open"
    by (cases ph) auto
  have "send_ok (ack_phase ph ?fin) ?ack (send_nxt c) rest' (send_queue c) (close_requested c)"
    using inv r(2) fl qok closed by (auto simp: phase_inv_def send_ok_def)
  moreover have "progress_inv ?c"
    using inv n bytes by (simp add: phase_inv_def progress_inv_def pending_def)
  moreover have "retry_inv ?c"
    using inv trimmed_transmissions [OF r(6), of "\<lambda>x. 1 \<le> x \<and> x \<le> max 1 (max_transmissions c)"] p(1)
    by (simp add: phase_inv_def retry_inv_def)
  moreover have "recv_inv ?c" "param_inv cfg ?c"
    using inv by (auto simp: phase_inv_def recv_inv_def param_inv_def rtt_ok_sample reno_ok_on_ack
        split: option.split)
  ultimately have "phase_inv (ack_phase ph ?fin) cfg ?c"
    by (simp add: phase_inv_def)
  moreover have "ack_frame c ?c" by (simp add: ack_frame_def)
  moreover have "acks_bytes ?n c ?c"
    using n bytes by (simp add: acks_bytes_def pending_def)
  ultimately show ?thesis
    using app fl
    by (intro exI [of _ "\<lparr>ack_fin_acked = ?fin, ack_retransmit = None\<rparr>"] exI [of _ ?c] exI [of _ ?n]) simp
qed

lemma phase_inv_dup:
  "phase_inv ph cfg c \<Longrightarrow> phase_inv ph cfg (c\<lparr>duplicate_acks := d\<rparr>)"
  "phase_inv ph cfg c \<Longrightarrow> reno_ok r \<Longrightarrow> reno_mss r = reno_mss (reno c) \<Longrightarrow>
     phase_inv ph cfg (c\<lparr>duplicate_acks := d, reno := r\<rparr>)"
  by (auto simp: inv_defs)

lemma ack_frame_retransmit: "ack_frame c c1 \<Longrightarrow> ack_frame c (snd (retransmit_oldest now_ms tmo c1))"
  by (simp add: ack_frame_def)

lemma apply_duplicate_ack_effect:
  assumes "phase_inv ph cfg c"
  shows "phase_inv ph cfg (snd (apply_duplicate_ack now c))"
    and "ack_frame c (snd (apply_duplicate_ack now c))"
    and "acks_bytes 0 c (snd (apply_duplicate_ack now c))"
    and "\<not> ack_fin_acked (fst (apply_duplicate_ack now c))"
    and "send_una (snd (apply_duplicate_ack now c)) = send_una c"
    and "same_segments (unacked c) (unacked (snd (apply_duplicate_ack now c)))"
    and "ack_retransmit (fst (apply_duplicate_ack now c)) = Some s \<Longrightarrow>
      emits ph (snd (apply_duplicate_ack now c)) s"
proof -
  let ?d = "sat_add8 (duplicate_acks c) 1"
  let ?c1 = "c\<lparr>duplicate_acks := ?d, reno := reno_on_duplicate_ack (reno c)\<rparr>"
  let ?c2 = "?c1\<lparr>reno := reno_on_fast_loss (distance (send_una ?c1) (send_nxt ?c1)) (reno ?c1)\<rparr>"
  have ok: "reno_ok (reno c)" using assms by (simp add: inv_defs)
  have snd: "snd (apply_duplicate_ack now c) =
      (if ?d = 3 then snd (retransmit_oldest now False ?c2) else ?c1)"
    by (simp add: apply_duplicate_ack_def Let_def)
  have "phase_inv ph cfg ?c1"
    using assms ok by (intro phase_inv_dup) (auto intro: reno_ok_intros)
  moreover have inv2: "phase_inv ph cfg ?c2"
    using phase_inv_dup(2) [OF assms, of "reno (?c2)" ?d] ok by (auto intro!: reno_ok_intros)
  ultimately show "phase_inv ph cfg (snd (apply_duplicate_ack now c))"
    by (auto simp only: snd intro: retransmit_phase_inv split: if_split)
  show "ack_frame c (snd (apply_duplicate_ack now c))"
    by (simp add: snd ack_frame_def)
  show "acks_bytes 0 c (snd (apply_duplicate_ack now c))"
    by (simp add: snd acks_bytes_def) (simp add: pending_def)
  show "\<not> ack_fin_acked (fst (apply_duplicate_ack now c))"
    by (simp add: apply_duplicate_ack_def Let_def no_outcome_def)
  show "send_una (snd (apply_duplicate_ack now c)) = send_una c"
    by (simp add: snd)
  show "same_segments (unacked c) (unacked (snd (apply_duplicate_ack now c)))"
  proof (cases "?d = 3")
    case True
    then have "snd (apply_duplicate_ack now c) = snd (retransmit_oldest now False ?c2)"
      by (simp add: snd)
    then show ?thesis
      using retransmit_same_segments [of ?c2 now False] by simp
  next
    case False
    then show ?thesis by (simp add: snd same_segments_refl)
  qed
  show "emits ph (snd (apply_duplicate_ack now c)) s"
    if "ack_retransmit (fst (apply_duplicate_ack now c)) = Some s"
  proof (cases "?d = 3")
    case True
    then have "apply_duplicate_ack now c = (\<lparr>ack_fin_acked = False,
        ack_retransmit = fst (retransmit_oldest now False ?c2)\<rparr>, snd (retransmit_oldest now False ?c2))"
      by (simp add: apply_duplicate_ack_def Let_def)
    with that retransmit_emits [OF inv2] show ?thesis by simp
  next
    case False
    with that show ?thesis by (simp add: apply_duplicate_ack_def Let_def no_outcome_def)
  qed
qed

lemma apply_ack_cases:
  assumes inv: "phase_inv ph cfg c"
  obtains (ignored) "\<not> distance (send_una c) ack \<le> flight (unacked c)"
      "apply_ack ack now d c = Some (no_outcome, c)"
    | (current) "ack = send_una c" "\<not> (d \<and> unacked c \<noteq> [])"
      "apply_ack ack now d c = Some (no_outcome, c\<lparr>duplicate_acks := 0\<rparr>)"
    | (duplicate) "ack = send_una c" "d" "unacked c \<noteq> []"
      "apply_ack ack now d c = Some (apply_duplicate_ack now c)"
    | (advance) k where "k = distance (send_una c) ack" "0 < k" "k \<le> flight (unacked c)"
      "ack = seq_at (send_una c) k" "apply_ack ack now d c = apply_new_ack ack now c"
proof -
  have acc: "\<not> after ack (send_nxt c) \<and> \<not> before ack (send_una c) \<longleftrightarrow>
      distance (send_una c) ack \<le> flight (unacked c)"
    using inv by (intro acceptable_ack) (auto simp: inv_defs send_ok_def u16_max_def)
  show thesis
  proof (cases "distance (send_una c) ack \<le> flight (unacked c)")
    case False
    with acc show ?thesis by (intro ignored) (auto simp: apply_ack_def)
  next
    case True
    show ?thesis
    proof (cases "ack = send_una c")
      case eq: True
      show ?thesis
      proof (cases "d \<and> unacked c \<noteq> []")
        case True
        with eq True acc show ?thesis by (intro duplicate) (auto simp: apply_ack_def)
      next
        case False
        with eq True acc show ?thesis by (intro current) (auto simp: apply_ack_def)
      qed
    next
      case False
      then have "0 < distance (send_una c) ack"
        using seq_at_distance [of "send_una c" ack] by (cases "distance (send_una c) ack") auto
      with False True acc show ?thesis
        by (intro advance [of "distance (send_una c) ack"])
           (auto simp: apply_ack_def seq_at_distance)
    qed
  qed
qed

text \<open>
  Every acknowledgment is processed without a panic. In the handshake phase only the
  acknowledgment of the whole flight reaches \<open>apply_ack\<close>, which is what both callers pass.
\<close>

lemma ack_base:
  assumes inv: "phase_inv ph cfg c" "phase_inv (ack_phase ph fin) cfg c'"
    and ack: "ack_frame c c'" "acks_bytes n c c'" "send_una c' = seq_at (send_una c) k"
    and k: "0 < k" "flight (unacked c') + k = flight (unacked c)"
  shows "stream_base (ack_phase ph fin) c' = stream_base ph c"
proof -
  have n: "n \<le> length (queued_bytes (unacked c))"
    and acked: "acked_payload_bytes (send_progress c') = acked_payload_bytes (send_progress c) + n"
    using ack(2) by (simp_all add: acks_bytes_def)
  have "queued_bytes (unacked c') @ send_queue c = drop n (queued_bytes (unacked c)) @ send_queue c"
    using ack(1,2) n by (auto simp: acks_bytes_def ack_frame_def pending_def)
  then have len: "length (queued_bytes (unacked c')) + n = length (queued_bytes (unacked c))"
    using n by simp
  have q: "queue_ok ph (unacked c)" "queue_ok (ack_phase ph fin) (unacked c')"
    using inv by (simp_all add: phase_inv_def send_ok_def)
  show ?thesis
  proof (cases ph)
    case Opening
    then obtain t where "unacked c = [t]" "syn_seg t" using q(1) by auto
    then have t: "flight (unacked c) = 1" "queued_bytes (unacked c) = []"
      by (auto simp: trk_len_kinds syn_seg_def)
    have "send_nxt c = seq_at (send_una c) 1"
      using inv(1) t(1) unfolding phase_inv_def send_ok_def by (metis chain_end)
    moreover have "k = 1" using t(1) k by simp
    ultimately show ?thesis
      using Opening ack(3) acked n t(2) by (simp add: stream_base_def)
  next
    case Open
    then have "k = n"
      using q k len queued_units(1) by (metis add_left_imp_eq ack_phase.simps(3) queue_ok.simps(2))
    then show ?thesis using Open ack(3) acked by (simp add: stream_base_def seq_at_def)
  next
    case Finishing
    show ?thesis
    proof (cases fin)
      case True
      then have "unacked c' = []" using Finishing q(2) by simp
      then have "k = n + 1"
        using Finishing q(1) k(2) len queued_units(2) [of "unacked c"] by simp
      then show ?thesis using Finishing True ack(3) acked by (simp add: stream_base_def seq_at_def)
    next
      case False
      then have "k = n"
        using Finishing q k(2) len queued_units(2) [of "unacked c"] queued_units(2) [of "unacked c'"] by simp
      then show ?thesis using Finishing False ack(3) acked by (simp add: stream_base_def seq_at_def)
    qed
  next
    case Finished
    then show ?thesis using q(1) k by simp
  qed
qed

lemma apply_ack_effect:
  assumes inv: "phase_inv ph cfg c" and hs: "ph = Opening \<Longrightarrow> ack = send_nxt c"
  shows "\<exists>o1 c' n. apply_ack ack now d c = Some (o1, c') \<and>
    phase_inv (ack_phase ph (ack_fin_acked o1)) cfg c' \<and> ack_frame c c' \<and> acks_bytes n c c' \<and>
    (send_una c' = send_una c \<or> send_una c' = ack) \<and>
    stream_base (ack_phase ph (ack_fin_acked o1)) c' = stream_base ph c \<and>
    (\<forall>s. ack_retransmit o1 = Some s \<longrightarrow> emits (ack_phase ph (ack_fin_acked o1)) c' s)"
proof -
  have dist: "distance (send_una c) (send_nxt c) = flight (unacked c)"
    using inv distance_flight unfolding phase_inv_def by blast
  have one: "ph = Opening \<Longrightarrow> flight (unacked c) = 1"
    using inv by (auto simp: inv_defs send_ok_def trk_len_kinds)
  have same: "ph \<noteq> Opening \<Longrightarrow> ack_phase ph False = ph"
    by (cases ph) auto
  have frame: "ack_frame c (c\<lparr>duplicate_acks := x\<rparr>)" "ack_frame c c" for x
    by (simp_all add: ack_frame_def)
  have zero: "acks_bytes 0 c (c\<lparr>duplicate_acks := x\<rparr>)" "acks_bytes 0 c c" for x
    by (auto simp: acks_bytes_def pending_def)
  from inv show ?thesis
  proof (cases rule: apply_ack_cases [where ack = ack and now = now and d = d])
    case ignored
    then have "ph \<noteq> Opening" using hs dist by auto
    with ignored inv frame zero same show ?thesis
      by (intro exI [of _ no_outcome] exI [of _ c] exI [of _ 0]) (simp add: no_outcome_def)
  next
    case current
    then have "ph \<noteq> Opening" using hs dist one by (metis distance_self zero_neq_one)
    with current inv frame zero same show ?thesis
      by (intro exI [of _ no_outcome] exI [of _ "c\<lparr>duplicate_acks := 0\<rparr>"] exI [of _ 0])
         (simp add: no_outcome_def phase_inv_dup stream_base_def)
  next
    case duplicate
    then have "ph \<noteq> Opening" using hs dist one by (metis distance_self zero_neq_one)
    note d = apply_duplicate_ack_effect [OF inv, of now]
    have "stream_base ph (snd (apply_duplicate_ack now c)) = stream_base ph c"
      using d(2,3,5) by (simp add: stream_base_def ack_frame_def acks_bytes_def)
    with d duplicate same \<open>ph \<noteq> Opening\<close> show ?thesis
      by (intro exI [of _ "fst (apply_duplicate_ack now c)"]
          exI [of _ "snd (apply_duplicate_ack now c)"] exI [of _ 0]) simp
  next
    case (advance k)
    obtain o1 c' n where a: "apply_new_ack (seq_at (send_una c) k) now c = Some (o1, c')"
      "phase_inv (ack_phase ph (ack_fin_acked o1)) cfg c'" "ack_frame c c'"
      "send_una c' = seq_at (send_una c) k" "ack_retransmit o1 = None"
      "flight (unacked c') + k = flight (unacked c)" "acks_bytes n c c'"
      using apply_new_ack_effect [OF inv advance(2,3), of now] by blast
    have "stream_base (ack_phase ph (ack_fin_acked o1)) c' = stream_base ph c"
      using ack_base [OF inv a(2,3,7,4) advance(2) a(6)] .
    moreover have "apply_ack ack now d c = Some (o1, c')" "send_una c' = ack"
      using a(1,4) advance(5) unfolding advance(4) [symmetric] by simp_all
    ultimately show ?thesis
      using a(2,3,5,7) by (intro exI [of _ o1] exI [of _ c'] exI [of _ n]) simp
  qed
qed


section \<open>Transmission\<close>

lemma send_tracked_simps [simp]:
  "snd (send_tracked fs p now_ms c) = c\<lparr>
     send_nxt := send_nxt c + of_nat (length p) + flag_len fs SYN + flag_len fs FIN,
     unacked := unacked c @ [\<lparr>trk_seq = send_nxt c, trk_flags = fs, trk_payload = p,
       sent_at_ms = now_ms, transmissions = 1\<rparr>]\<rparr>"
  by (simp add: send_tracked_def Let_def trk_end_seq_def)

lemma send_ok_data:
  assumes "send_ok Open una nxt ts q cl" "p \<noteq> []" "flight ts + length p \<le> u16_max"
  shows "send_ok Open una (nxt + of_nat (length p))
     (ts @ [\<lparr>trk_seq = nxt, trk_flags = ACK OR PSH, trk_payload = p, sent_at_ms = now, transmissions = tr\<rparr>]) q' cl"
  using assms
  by (auto simp: send_ok_def chain_append trk_end_seq_def data_seg_def trk_len_def)

lemma send_ok_fin:
  assumes "send_ok Open una nxt ts [] cl" "flight ts + 1 \<le> u16_max"
  shows "send_ok Finishing una (nxt + 1)
     (ts @ [\<lparr>trk_seq = nxt, trk_flags = FIN OR ACK, trk_payload = [], sent_at_ms = now, transmissions = tr\<rparr>]) [] False"
  using assms
  by (auto simp: send_ok_def chain_append trk_end_seq_def fin_seg_def trk_len_def)

definition flush_frame :: "'p connection \<Rightarrow> 'p connection \<Rightarrow> bool" where
  "flush_frame c c' \<longleftrightarrow>
     send_una c' = send_una c \<and> recv_nxt c' = recv_nxt c \<and> recv_queue c' = recv_queue c \<and>
     reassembly c' = reassembly c \<and> remote_window c' = remote_window c \<and>
     read_closed c' = read_closed c \<and> fin_wait_2_until_ms c' = fin_wait_2_until_ms c \<and>
     time_wait_until_ms c' = time_wait_until_ms c \<and> peer c' = peer c \<and>
     local_port c' = local_port c \<and> remote_port c' = remote_port c \<and> mss c' = mss c \<and>
     receive_capacity c' = receive_capacity c \<and> max_transmissions c' = max_transmissions c \<and>
     rtt c' = rtt c \<and> reno c' = reno c \<and> send_progress c' = send_progress c \<and>
     next_zero_window_probe_ms c' = next_zero_window_probe_ms c \<and>
     zero_window_probes c' = zero_window_probes c \<and> duplicate_acks c' = duplicate_acks c \<and>
     rto_recovery_until c' = rto_recovery_until c"

lemma send_window_flight:
  "phase_inv ph cfg c \<Longrightarrow>
     send_window c = min (remote_window c) (reno_window (reno c)) - flight (unacked c)"
  using distance_flight unfolding phase_inv_def send_window_def by metis

lemma flush_step_inv:
  assumes inv: "phase_inv Open cfg c" and "0 < n" "n \<le> send_window c" "n \<le> length (send_queue c)"
  shows "phase_inv Open cfg (snd (send_tracked (ACK OR PSH) (take n (send_queue c)) now
     (c\<lparr>send_queue := drop n (send_queue c)\<rparr>)))"
proof -
  have "flight (unacked c) + length (take n (send_queue c)) \<le> u16_max"
    using assms send_window_flight [OF inv] by (auto simp: param_inv_def phase_inv_def)
  moreover have "take n (send_queue c) \<noteq> []" using assms by auto
  ultimately show ?thesis
    using inv send_ok_data [of "send_una c" "send_nxt c" "unacked c" "send_queue c"
        "close_requested c" "take n (send_queue c)"]
    by (auto simp: inv_defs)
qed

lemma flush_frame_base: "flush_frame c c' \<Longrightarrow> ph \<noteq> Opening \<Longrightarrow> ph' \<noteq> Opening \<Longrightarrow>
    ph \<noteq> Finished \<Longrightarrow> ph' \<noteq> Finished \<Longrightarrow> stream_base ph' c' = stream_base ph c"
  by (cases ph; cases ph') (simp_all add: stream_base_def flush_frame_def)

lemma flush_frame_emits:
  "flush_frame c c' \<Longrightarrow> pending c' = pending c \<Longrightarrow> emits Open c s \<Longrightarrow> ph = Open \<or> ph = Finishing \<Longrightarrow>
   emits ph c' s"
  by (erule emits_transfer) (auto simp: flush_frame_def stream_base_def)

lemma send_tracked_emits:
  assumes "phase_inv ph cfg (snd (send_tracked fs p now c))"
  shows "emits ph (snd (send_tracked fs p now c)) (fst (send_tracked fs p now c))"
  by (rule tracked_emits [OF assms, of "\<lparr>trk_seq = send_nxt c, trk_flags = fs, trk_payload = p,
       sent_at_ms = now, transmissions = 1\<rparr>"])
     (simp_all add: send_tracked_def Let_def segment_for_def)

lemma flush_loop_unfold:
  "flush_loop now out c =
     (if send_window c = 0 \<or> send_queue c = [] then Some (out, c)
      else let n = min (min (send_window c) (mss c)) (length (send_queue c));
        sent = send_tracked (ACK OR PSH) (take n (send_queue c)) now
          (c\<lparr>send_queue := drop n (send_queue c)\<rparr>)
      in flush_loop now (out @ [fst sent]) (snd sent))"
  by (subst flush_loop.simps) (simp add: Let_def)

text \<open>
  The transmission loop ends: each round moves at least one byte from the queue to the flight. It
  never exceeds the window, never reorders and leaves every other field alone.
\<close>

lemma flush_loop_effect:
  assumes "phase_inv Open cfg c"
  shows "\<exists>segs c'. flush_loop now out c = Some (out @ segs, c') \<and>
     phase_inv Open cfg c' \<and> flush_frame c c' \<and> pending c' = pending c \<and>
     close_requested c' = close_requested c \<and> state c' = state c \<and>
     (send_window c' = 0 \<or> send_queue c' = []) \<and> (\<forall>s \<in> set segs. emits Open c' s)"
  using assms
proof (induction "length (send_queue c)" arbitrary: c out rule: less_induct)
  case less
  show ?case
  proof (cases "send_window c = 0 \<or> send_queue c = []")
    case True
    then show ?thesis
      using less.prems by (intro exI [of _ "[]"] exI [of _ c])
        (simp add: flush_loop_unfold [of now out c] flush_frame_def)
  next
    case False
    let ?n = "min (min (send_window c) (mss c)) (length (send_queue c))"
    let ?sent = "send_tracked (ACK OR PSH) (take ?n (send_queue c)) now
       (c\<lparr>send_queue := drop ?n (send_queue c)\<rparr>)"
    have n: "0 < ?n"
      using False less.prems by (auto simp: phase_inv_def param_inv_def)
    have inv: "phase_inv Open cfg (snd ?sent)"
      using less.prems n by (intro flush_step_inv) auto
    have dec: "length (send_queue (snd ?sent)) < length (send_queue c)"
      using n by simp
    from less.hyps [OF dec inv, of "out @ [fst ?sent]"]
    obtain segs c' where ih: "flush_loop now (out @ [fst ?sent]) (snd ?sent)
        = Some ((out @ [fst ?sent]) @ segs, c')"
      "phase_inv Open cfg c'" "flush_frame (snd ?sent) c'" "pending c' = pending (snd ?sent)"
      "close_requested c' = close_requested (snd ?sent)" "state c' = state (snd ?sent)"
      "send_window c' = 0 \<or> send_queue c' = []" "\<forall>s \<in> set segs. emits Open c' s"
      by blast
    have "pending (snd ?sent) = pending c"
      by (simp add: pending_def)
    moreover have "flush_frame c c'"
      using ih(3) by (simp add: flush_frame_def)
    moreover have "emits Open c' (fst ?sent)"
      using flush_frame_emits [OF ih(3,4) send_tracked_emits [OF inv]] by simp
    ultimately show ?thesis
      using ih False by (intro exI [of _ "fst ?sent # segs"] exI [of _ c'])
        (simp add: flush_loop_unfold [of now out c] Let_def)
  qed
qed

definition fin_sent :: "tcp_state \<Rightarrow> tcp_state \<Rightarrow> bool" where
  "fin_sent st st' \<longleftrightarrow>
     st' = st \<or> st = Established \<and> st' = FinWait1 \<or> st = CloseWait \<and> st' = LastAck"

lemma flush_data_effect:
  assumes inv: "phase_inv (phase (state c)) cfg c"
  shows "\<exists>out c'. flush_data now c = Some (out, c') \<and> phase_inv (phase (state c')) cfg c' \<and>
     flush_frame c c' \<and> pending c' = pending c \<and> fin_sent (state c) (state c') \<and>
     stream_base (phase (state c')) c' = stream_base (phase (state c)) c \<and>
     (\<forall>s \<in> set out. emits (phase (state c')) c' s)"
proof (cases "state c = Established \<or> state c = CloseWait")
  case False
  then show ?thesis
    using inv by (auto simp: flush_data_def flush_frame_def fin_sent_def)
next
  case True
  then have ph: "phase (state c) = Open" by auto
  obtain out c1 where fl: "flush_loop now [] c = Some (out, c1)" "phase_inv Open cfg c1"
    "flush_frame c c1" "pending c1 = pending c" "close_requested c1 = close_requested c"
    "state c1 = state c" "\<forall>s \<in> set out. emits Open c1 s"
    using flush_loop_effect [of cfg c now "[]"] inv ph by auto
  show ?thesis
  proof (cases "close_requested c1 \<and> send_queue c1 = [] \<and> 0 < send_window c1")
    case False
    then have "flush_data now c = Some (out, c1)"
      using fl(1) True by (auto simp: flush_data_def flush_fin_def)
    moreover have "stream_base Open c1 = stream_base Open c"
      using fl(3) by (intro flush_frame_base) auto
    ultimately show ?thesis
      using fl ph by (intro exI [of _ out] exI [of _ c1]) (simp add: fin_sent_def)
  next
    case fin: True
    let ?c = "snd (flush_fin now out c1)"
    have c': "?c = c1\<lparr>close_requested := False,
        state := (if state c1 = Established then FinWait1 else LastAck),
        send_nxt := send_nxt c1 + 1,
        unacked := unacked c1 @ [\<lparr>trk_seq = send_nxt c1, trk_flags = FIN OR ACK, trk_payload = [],
          sent_at_ms = now, transmissions = 1\<rparr>]\<rparr>"
      using fin by (simp add: flush_fin_def Let_def)
    have "flight (unacked c1) + 1 \<le> u16_max"
      using fin send_window_flight [OF fl(2)] fl(2) by (auto simp: phase_inv_def param_inv_def)
    then have "send_ok Finishing (send_una ?c) (send_nxt ?c) (unacked ?c) (send_queue ?c)
        (close_requested ?c)"
      using fl(2) fin send_ok_fin [of "send_una c1" "send_nxt c1" "unacked c1" "close_requested c1" now 1]
      by (simp add: c' phase_inv_def)
    then have "phase_inv Finishing cfg ?c"
      using fl(2) by (auto simp: inv_defs c')
    moreover have phc: "phase (state ?c) = Finishing" by (simp add: c')
    moreover have "stream_base (phase (state ?c)) ?c = stream_base (phase (state c)) c"
      using fl(3) unfolding ph phc by (intro flush_frame_base) (auto simp: flush_frame_def c')
    moreover have "\<forall>s \<in> set (fst (flush_fin now out c1)). emits (phase (state ?c)) ?c s"
    proof -
      let ?f = "send_tracked (FIN OR ACK) [] now (c1\<lparr>close_requested := False,
        state := (if state c1 = Established then FinWait1 else LastAck)\<rparr>)"
      have f: "flush_fin now out c1 = (out @ [fst ?f], snd ?f)"
        using fin by (simp add: flush_fin_def Let_def)
      have "emits Finishing (snd ?f) (fst ?f)"
        using \<open>phase_inv Finishing cfg ?c\<close> f by (intro send_tracked_emits) simp
      moreover have "emits Finishing ?c s" if "emits Open c1 s" for s
        using that by (rule emits_transfer) (simp_all add: c' pending_def stream_base_def)
      ultimately show ?thesis
        using fl(7) f unfolding phc by simp
    qed
    moreover have "pending ?c = pending c" using fl(4) by (simp add: c' pending_def)
    moreover have "fin_sent (state c) (state ?c)"
      using True fl(6) by (auto simp: c' fin_sent_def)
    moreover have "flush_frame c ?c"
      using fl(3) by (simp add: flush_frame_def c')
    moreover have "flush_data now c = Some (fst (flush_fin now out c1), ?c)"
      using fl(1) True by (auto simp: flush_data_def)
    ultimately show ?thesis
      by (intro exI [of _ "fst (flush_fin now out c1)"] exI [of _ ?c]) simp
  qed
qed

lemma flush_state_inv:
  "state_inv cfg c \<Longrightarrow> flush_frame c c' \<Longrightarrow> fin_sent (state c) (state c') \<Longrightarrow> state_inv cfg c'"
  by (auto simp: state_inv_def fin_sent_def flush_frame_def)

lemma flush_data_inv:
  assumes "conn_inv cfg c"
  shows "\<exists>out c'. flush_data now c = Some (out, c') \<and> conn_inv cfg c' \<and>
     flush_frame c c' \<and> pending c' = pending c \<and> fin_sent (state c) (state c') \<and>
     stream_base (phase (state c')) c' = stream_base (phase (state c)) c \<and>
     (\<forall>s \<in> set out. emits (phase (state c')) c' s)"
proof -
  obtain out c' where f: "flush_data now c = Some (out, c')" "phase_inv (phase (state c')) cfg c'"
    "flush_frame c c'" "pending c' = pending c" "fin_sent (state c) (state c')"
    "stream_base (phase (state c')) c' = stream_base (phase (state c)) c"
    "\<forall>s \<in> set out. emits (phase (state c')) c' s"
    using flush_data_effect [of c cfg now] assms unfolding conn_inv_def by blast
  have "conn_inv cfg c'"
    using f(2) flush_state_inv [OF _ f(3,5)] assms by (simp add: conn_inv_def)
  with f show ?thesis by (intro exI [of _ out] exI [of _ c']) simp
qed

section \<open>The remote window and the retransmission timers\<close>

lemma update_remote_window_simps [simp]:
  "state (update_remote_window w now_ms c) = state c"
  "send_una (update_remote_window w now_ms c) = send_una c"
  "send_nxt (update_remote_window w now_ms c) = send_nxt c"
  "recv_nxt (update_remote_window w now_ms c) = recv_nxt c"
  "send_queue (update_remote_window w now_ms c) = send_queue c"
  "recv_queue (update_remote_window w now_ms c) = recv_queue c"
  "reassembly (update_remote_window w now_ms c) = reassembly c"
  "unacked (update_remote_window w now_ms c) = unacked c"
  "close_requested (update_remote_window w now_ms c) = close_requested c"
  "remote_window (update_remote_window w now_ms c) = unat w"
  "rtt (update_remote_window w now_ms c) = rtt c"
  "reno (update_remote_window w now_ms c) = reno c"
  "read_closed (update_remote_window w now_ms c) = read_closed c"
  "send_progress (update_remote_window w now_ms c) = send_progress c"
  "fin_wait_2_until_ms (update_remote_window w now_ms c) = fin_wait_2_until_ms c"
  "time_wait_until_ms (update_remote_window w now_ms c) = time_wait_until_ms c"
  "peer (update_remote_window w now_ms c) = peer c"
  "local_port (update_remote_window w now_ms c) = local_port c"
  "remote_port (update_remote_window w now_ms c) = remote_port c"
  "mss (update_remote_window w now_ms c) = mss c"
  "receive_capacity (update_remote_window w now_ms c) = receive_capacity c"
  "max_transmissions (update_remote_window w now_ms c) = max_transmissions c"
  by (simp_all add: update_remote_window_def Let_def)

lemma unat_u16_le: "unat (w :: u16) \<le> u16_max"
  using unsigned_less [of w, where ?'a = nat] by (simp add: u16_max_def)

lemma update_remote_window_inv:
  "phase_inv ph cfg c \<Longrightarrow> phase_inv ph cfg (update_remote_window w now_ms c)"
  by (auto simp: inv_defs unat_u16_le)

lemma repair_inv:
  "phase_inv ph cfg c \<Longrightarrow> phase_inv ph cfg (snd (repair_timed_out_flight now cfg c))"
  by (auto simp: repair_timed_out_flight_def retransmit_phase_inv split: list.split)

lemma repair_frame:
  "snd (repair_timed_out_flight now cfg c) = c \<or>
   snd (repair_timed_out_flight now cfg c) = snd (retransmit_oldest now False c)"
  by (simp add: repair_timed_out_flight_def split: list.split)

lemma on_rto_inv: "phase_inv ph cfg c \<Longrightarrow> phase_inv ph cfg (snd (on_rto now c))"
proof -
  assume "phase_inv ph cfg c"
  then have "phase_inv ph cfg (c\<lparr>rto_recovery_until := u, reno := reno_on_timeout n (reno c),
      rtt := rtt_on_timeout (rtt c)\<rparr>)" for u n
    by (auto simp: inv_defs reno_ok_on_timeout rtt_ok_on_timeout)
  then show ?thesis by (simp add: on_rto_def Let_def retransmit_phase_inv)
qed

lemma on_rto_frame [simp]:
  "state (snd (on_rto now c)) = state c"
  "send_una (snd (on_rto now c)) = send_una c"
  "send_nxt (snd (on_rto now c)) = send_nxt c"
  "recv_nxt (snd (on_rto now c)) = recv_nxt c"
  "recv_queue (snd (on_rto now c)) = recv_queue c"
  "reassembly (snd (on_rto now c)) = reassembly c"
  "send_progress (snd (on_rto now c)) = send_progress c"
  "fin_wait_2_until_ms (snd (on_rto now c)) = fin_wait_2_until_ms c"
  "time_wait_until_ms (snd (on_rto now c)) = time_wait_until_ms c"
  "peer (snd (on_rto now c)) = peer c"
  "local_port (snd (on_rto now c)) = local_port c"
  "remote_port (snd (on_rto now c)) = remote_port c"
  "read_closed (snd (on_rto now c)) = read_closed c"
  by (simp_all add: on_rto_def Let_def)

lemma on_rto_pending [simp]: "pending (snd (on_rto now c)) = pending c"
proof -
  have "pending (c\<lparr>rto_recovery_until := u, reno := r, rtt := t\<rparr>) = pending c" for u r t
    by (simp add: pending_def)
  then show ?thesis by (simp add: on_rto_def Let_def)
qed

lemma repair_emits:
  assumes "phase_inv ph cfg c" "fst (repair_timed_out_flight now cfg c) = Some s"
  shows "emits ph (snd (repair_timed_out_flight now cfg c)) s"
  using assms retransmit_emits [OF assms(1), of now False]
  by (auto simp: repair_timed_out_flight_def split: if_splits list.splits)

lemma on_rto_emits:
  assumes "phase_inv ph cfg c" "s \<in> set (fst (on_rto now c))"
  shows "emits ph (snd (on_rto now c)) s"
proof -
  let ?c = "c\<lparr>rto_recovery_until := (case rto_recovery_until c of Some e \<Rightarrow> Some e
      | None \<Rightarrow> Some (send_nxt c)),
    reno := reno_on_timeout (distance (send_una c) (send_nxt c)) (reno c), rtt := rtt_on_timeout (rtt c)\<rparr>"
  have "phase_inv ph cfg ?c"
    using assms(1) by (auto simp: inv_defs reno_ok_on_timeout rtt_ok_on_timeout)
  then show ?thesis
    using retransmit_emits [of ph cfg ?c now True s] assms(2)
    by (auto simp: on_rto_def Let_def split: option.splits)
qed

lemma on_rto_base [simp]: "stream_base ph (snd (on_rto now c)) = stream_base ph c"
  by (simp add: stream_base_def on_rto_def Let_def)

end
