(* ===== verification/Conn_Ops.thy ===== *)
theory Conn_Ops
  imports Conn_Invariant
begin

text \<open>
  What the entry points of a connection do to its invariant, to the bytes it still owes its peer
  and to its state. Each entry point gets one effect lemma; \<open>conn_step\<close> collects them as a step
  relation, and the invariant of every reachable connection follows by the contract
  \<open>invariant_system\<close>.
\<close>

section \<open>The state machine of RFC 793\<close>

inductive tcp_edge :: "tcp_state \<Rightarrow> tcp_state \<Rightarrow> bool" where
  active_open: "tcp_edge SynSent Established"
| passive_open: "tcp_edge SynReceived Established"
| peer_fin: "tcp_edge Established CloseWait"
| local_fin: "tcp_edge Established FinWait1"
| simultaneous: "tcp_edge FinWait1 Closing"
| fin_acked: "tcp_edge FinWait1 FinWait2"
| half_closed_fin: "tcp_edge FinWait2 TimeWait"
| closing_acked: "tcp_edge Closing TimeWait"
| last_fin: "tcp_edge CloseWait LastAck"

code_pred tcp_edge .

inductive_cases tcp_edgeE: "tcp_edge a b"

inductive_simps tcp_edge_from:
  "tcp_edge SynSent b" "tcp_edge SynReceived b" "tcp_edge Established b" "tcp_edge FinWait1 b"
  "tcp_edge FinWait2 b" "tcp_edge CloseWait b" "tcp_edge Closing b" "tcp_edge LastAck b"
  "tcp_edge TimeWait b"

abbreviation tcp_path :: "tcp_state \<Rightarrow> tcp_state \<Rightarrow> bool" where
  "tcp_path \<equiv> tcp_edge\<^sup>*\<^sup>*"

lemma tcp_edge_rank: "tcp_edge a b \<Longrightarrow> a < b"
  by (erule tcp_edgeE) (simp_all add: less_tcp_state_def)

lemma tcp_path_rank: "tcp_path a b \<Longrightarrow> a \<le> b"
  by (induction rule: rtranclp_induct) (auto dest: tcp_edge_rank)

lemma remote_fin_path: "remote_fin a b \<Longrightarrow> tcp_path a b"
  by (auto simp: remote_fin_def intro: tcp_edge.intros)

lemma fin_sent_path: "fin_sent a b \<Longrightarrow> tcp_path a b"
  by (auto simp: fin_sent_def intro: tcp_edge.intros)

section \<open>Who a connection is\<close>

definition identity where
  "identity c = (peer c, local_port c, remote_port c, connection_token (send_progress c))"

text \<open>The first sequence number of the outgoing stream, which no operation moves.\<close>

definition out_base :: "'p connection \<Rightarrow> u32" where
  "out_base c = stream_base (phase (state c)) c"

definition emits_all :: "'p connection \<Rightarrow> segment list \<Rightarrow> bool" where
  "emits_all c out \<longleftrightarrow> (\<forall>s \<in> set out. emits (phase (state c)) c s)"

lemma emits_all_simps [simp]:
  "emits_all c []" "emits_all c (xs @ ys) \<longleftrightarrow> emits_all c xs \<and> emits_all c ys"
  "emits_all c (s # xs) \<longleftrightarrow> emits (phase (state c)) c s \<and> emits_all c xs"
  by (auto simp: emits_all_def)

definition effect :: "config \<Rightarrow> 'p connection \<Rightarrow> segment list \<Rightarrow> 'p connection \<Rightarrow> bool" where
  "effect cfg c out c' \<longleftrightarrow>
     conn_inv cfg c' \<and> (\<exists>n. acks_bytes n c c') \<and> tcp_path (state c) (state c') \<and>
     identity c' = identity c \<and> out_base c' = out_base c \<and> emits_all c' out"

lemma path_phase:
  assumes "tcp_path a b"
  shows "(ended (phase a) \<longrightarrow> ended (phase b)) \<and> (phase a \<noteq> Opening \<longrightarrow> phase b \<noteq> Opening)"
  using assms by (induction rule: rtranclp_induct) (auto elim!: tcp_edgeE)

lemma emits_step:
  assumes "emits (phase (state c)) c s" "pending d = pending c" "send_progress d = send_progress c"
    "out_base d = out_base c" "tcp_path (state c) (state d)"
  shows "emits (phase (state d)) d s"
  using assms(1,2) _ _ path_phase [OF assms(5), THEN conjunct1] path_phase [OF assms(5), THEN conjunct2]
  by (rule emits_transfer) (use assms in \<open>simp_all add: out_base_def\<close>)

lemma emits_all_step:
  "emits_all c out \<Longrightarrow> pending d = pending c \<Longrightarrow> send_progress d = send_progress c \<Longrightarrow>
   out_base d = out_base c \<Longrightarrow> tcp_path (state c) (state d) \<Longrightarrow> emits_all d out"
  unfolding emits_all_def using emits_step [of c _ d] by blast

lemma identity_frames:
  "ack_frame c c' \<Longrightarrow> acks_bytes n c c' \<Longrightarrow> identity c' = identity c"
  "flush_frame c c' \<Longrightarrow> identity c' = identity c"
  "recv_frame c c' \<Longrightarrow> identity c' = identity c"
  by (auto simp: identity_def ack_frame_def acks_bytes_def flush_frame_def
      recv_frame_def send_fields_def)

lemma acks_bytes_refl: "acks_bytes 0 c c"
  by (simp add: acks_bytes_def)

lemma acks_bytes_keep:
  "acks_bytes n c d \<Longrightarrow> pending e = pending d \<Longrightarrow> send_progress e = send_progress d \<Longrightarrow> acks_bytes n c e"
  by (simp add: acks_bytes_def)

lemma recv_frame_inv:
  assumes "conn_inv cfg c" "recv_frame c c'" "recv_inv c'"
  shows "conn_inv cfg c'" "pending c' = pending c" "send_progress c' = send_progress c"
proof -
  note f = recv_frameD [OF assms(2)]
  have ph: "phase (state c') = phase (state c)"
    using f(20) by (auto simp: remote_fin_def)
  have "state_inv cfg c'"
  proof -
    have "state c' = SynSent \<Longrightarrow> state c = SynSent" "state c' = FinWait2 \<Longrightarrow> state c = FinWait2"
      using f(20) by (auto simp: remote_fin_def)
    moreover have "state_inv cfg c" using assms(1) by (simp add: conn_inv_def)
    ultimately show ?thesis
      using assms(2) f(10) unfolding state_inv_def recv_frame_def by metis
  qed
  moreover have "phase_inv (phase (state c')) cfg c'"
    using assms(1,3) unfolding conn_inv_def phase_inv_def ph
    by (auto simp: progress_inv_def retry_inv_def param_inv_def pending_def f)
  ultimately show "conn_inv cfg c'" by (simp add: conn_inv_def)
  show "pending c' = pending c" "send_progress c' = send_progress c"
    by (simp_all add: pending_def f)
qed

lemma receive_if_data_frame: "recv_frame c (snd (receive_if_data s now cfg out c))"
  by (simp add: receive_if_data_def Let_def receive_stream_data_frame)

lemma receive_if_data_inv:
  "conn_inv cfg c \<Longrightarrow> recv_inv (snd (receive_if_data s now cfg out c))"
  by (simp add: receive_if_data_def Let_def receive_stream_data_inv conn_inv_def phase_inv_def)

text \<open>Receiving and flushing after an acknowledgment: the tail both segment handlers share.\<close>

lemma receive_flush_effect:
  assumes inv: "conn_inv cfg c1" and ack: "acks_bytes n c c1" and path: "tcp_path (state c) (state c1)"
    and id: "identity c1 = identity c" and base: "out_base c1 = out_base c" and out: "emits_all c1 out"
  shows "\<exists>flushed c2. flush_data now (snd (receive_if_data s now cfg out c1)) = Some (flushed, c2) \<and>
    effect cfg c (fst (receive_if_data s now cfg out c1) @ flushed) c2"
proof -
  let ?r = "snd (receive_if_data s now cfg out c1)"
  have fr: "recv_frame c1 ?r" by (rule receive_if_data_frame)
  note r = recv_frame_inv [OF inv fr receive_if_data_inv [OF inv]]
  obtain flushed c2 where f: "flush_data now ?r = Some (flushed, c2)" "conn_inv cfg c2"
    "flush_frame ?r c2" "pending c2 = pending ?r" "fin_sent (state ?r) (state c2)"
    "out_base c2 = out_base ?r" "emits_all c2 flushed"
    using flush_data_inv [OF r(1)] unfolding out_base_def emits_all_def by blast
  have "acks_bytes n c c2"
    using ack r(2,3) f(3,4) by (intro acks_bytes_keep [OF ack]) (auto simp: flush_frame_def)
  moreover have path1: "tcp_path (state c1) (state c2)"
    using remote_fin_path [OF recv_frameD(20) [OF fr]] fin_sent_path [OF f(5)] by force
  then have "tcp_path (state c) (state c2)"
    using path by force
  moreover have base2: "out_base c2 = out_base c1"
    using f(6) recv_frameD(1,2,15,20) [OF fr] by (auto simp: out_base_def stream_base_def remote_fin_def)
  have "emits_all c2 (fst (receive_if_data s now cfg out c1))"
  proof -
    have sp: "send_progress c2 = send_progress c1"
      using f(3) r(3) by (simp add: flush_frame_def)
    have "emits_all c2 out"
      using r(2) f(4) sp base2 path1 by (intro emits_all_step [OF out]) simp_all
    then show ?thesis
      by (simp add: receive_if_data_def Let_def receive_stream_data_acks)
  qed
  moreover have "identity c2 = identity c"
    using identity_frames(2) [OF f(3)] identity_frames(3) [OF fr] id by simp
  ultimately show ?thesis
    using f(1,2,7) base base2 by (auto simp: effect_def)
qed

section \<open>Segments\<close>

lemma update_remote_window_keep:
  "pending (update_remote_window w now c) = pending c"
  "state_inv cfg (update_remote_window w now c) = state_inv cfg c"
  "stream_base ph (update_remote_window w now c) = stream_base ph c"
  "conn_inv cfg c \<Longrightarrow> conn_inv cfg (update_remote_window w now c)"
  by (auto simp: pending_def state_inv_def conn_inv_def update_remote_window_inv stream_base_def)

lemma retransmit_keep:
  "state_inv cfg (snd (retransmit_oldest now tmo c)) = state_inv cfg c"
  "conn_inv cfg c \<Longrightarrow> conn_inv cfg (snd (retransmit_oldest now tmo c))"
  by (auto simp: state_inv_def conn_inv_def retransmit_phase_inv)

lemma repair_keep:
  "pending (snd (repair_timed_out_flight now cfg c)) = pending c"
  "send_progress (snd (repair_timed_out_flight now cfg c)) = send_progress c"
  "state (snd (repair_timed_out_flight now cfg c)) = state c"
  "identity (snd (repair_timed_out_flight now cfg c)) = identity c"
  "stream_base ph (snd (repair_timed_out_flight now cfg c)) = stream_base ph c"
  "conn_inv cfg c \<Longrightarrow> conn_inv cfg (snd (repair_timed_out_flight now cfg c))"
  using repair_frame [of now cfg c] by (auto simp: identity_def retransmit_keep)

lemma fin_acked_transition_keep:
  "pending (fin_acked_transition now cfg c) = pending c"
  "send_progress (fin_acked_transition now cfg c) = send_progress c"
  "identity (fin_acked_transition now cfg c) = identity c"
  "stream_base ph (fin_acked_transition now cfg c) = stream_base ph c"
  "tcp_path (state c) (state (fin_acked_transition now cfg c))"
  "state_inv cfg c \<Longrightarrow> state_inv cfg (fin_acked_transition now cfg c)"
  "phase_inv ph cfg c \<Longrightarrow> phase_inv ph cfg (fin_acked_transition now cfg c)"
  "state c \<noteq> LastAck \<Longrightarrow> phase (state c) \<noteq> Opening \<Longrightarrow>
     phase (state (fin_acked_transition now cfg c)) = ack_phase (phase (state c)) True"
  by (cases "state c";
      auto simp: fin_acked_transition_def enter_time_wait_def pending_def identity_def state_inv_def
        inv_defs stream_base_def intro: tcp_edge.intros)+

text \<open>
  In LAST-ACK the acknowledgment of the FIN finishes the connection: \<open>finished\<close> says that nothing is
  owed any more.
\<close>

definition finished :: "'p connection \<Rightarrow> segment list \<Rightarrow> 'p connection \<Rightarrow> bool" where
  "finished c out c' \<longleftrightarrow>
     state c = LastAck \<and> state c' = LastAck \<and> pending c' = [] \<and> (\<exists>n. acks_bytes n c c') \<and> identity c' = identity c \<and>
     stream_base Finished c' = out_base c \<and> (\<forall>s \<in> set out. emits Finished c' s)"

lemma process_ack_effect:
  assumes inv: "conn_inv cfg c" and ph: "phase (state c) \<noteq> Opening"
  shows "\<exists>fin out c' n. process_ack s ack now cfg c = Some ((fin, out), c') \<and>
    (if fin then finished c out c'
     else conn_inv cfg c' \<and> acks_bytes n c c' \<and> tcp_path (state c) (state c') \<and>
       identity c' = identity c \<and> out_base c' = out_base c \<and> emits_all c' out)"
proof -
  let ?d = "is_duplicate_ack_candidate s (send_una c) (remote_window c)"
  have pinv: "phase_inv (phase (state c)) cfg c" and tinv: "state_inv cfg c"
    using inv by (simp_all add: conn_inv_def)
  obtain o1 c1 n where a: "apply_ack ack now ?d c = Some (o1, c1)"
    "phase_inv (ack_phase (phase (state c)) (ack_fin_acked o1)) cfg c1" "ack_frame c c1"
    "acks_bytes n c c1"
    "stream_base (ack_phase (phase (state c)) (ack_fin_acked o1)) c1 = out_base c"
    "\<forall>s. ack_retransmit o1 = Some s \<longrightarrow> emits (ack_phase (phase (state c)) (ack_fin_acked o1)) c1 s"
    using apply_ack_effect [OF pinv, of ack now ?d] ph unfolding out_base_def by blast
  let ?out = "case ack_retransmit o1 of None \<Rightarrow> [] | Some r \<Rightarrow> [r]"
  have st: "state c1 = state c" and t1: "state_inv cfg c1"
    using a(3) tinv by (auto simp: ack_frame_def state_inv_def)
  have id: "identity c1 = identity c"
    using a(3,4) by (rule identity_frames)
  show ?thesis
  proof (cases "ack_fin_acked o1 \<and> state c1 = LastAck")
    case True
    then have "pending c1 = []"
      using a(2) st by (simp add: phase_inv_def send_ok_def pending_def)
    then have "finished c ?out c1"
      using a(4,5,6) True st id by (auto simp: finished_def split: option.split)
    with True show ?thesis
      using a(1) by (auto simp: process_ack_def Let_def)
  next
    case False
    define c2 where "c2 = (if ack_fin_acked o1 then fin_acked_transition now cfg c1 else c1)"
    define c3 where "c3 = (if in_closed_interval ack (send_una c2) (send_nxt c2)
      then update_remote_window (seg_window s) now c2 else c2)"
    define rep where "rep = (if after (send_una c3) (send_una c)
      then repair_timed_out_flight now cfg c3 else (None, c3))"
    let ?c4 = "snd rep" and ?re = "case fst rep of None \<Rightarrow> [] | Some r \<Rightarrow> [r]"
    have nofin: "ack_phase (phase (state c)) False = phase (state c)"
      using ph by (cases "phase (state c)") auto
    have p2: "phase (state c2) = ack_phase (phase (state c)) (ack_fin_acked o1)"
      using False st ph nofin by (auto simp: c2_def fin_acked_transition_keep)
    have i2: "conn_inv cfg c2" "acks_bytes n c c2" "identity c2 = identity c"
        "tcp_path (state c) (state c2)" "out_base c2 = out_base c"
      unfolding conn_inv_def out_base_def p2 unfolding c2_def
      using a(2,4,5) t1 id fin_acked_transition_keep [where c = c1] st
      by (auto simp: acks_bytes_def out_base_def)
    have o2: "emits_all c2 ?out"
    proof -
      have "emits (ack_phase (phase (state c)) (ack_fin_acked o1)) c2 x"
        if "emits (ack_phase (phase (state c)) (ack_fin_acked o1)) c1 x" for x
        using that by (rule emits_transfer) (auto simp: c2_def fin_acked_transition_keep)
      then show ?thesis
        using a(6) p2 by (auto simp: emits_all_def split: option.split)
    qed
    have i3: "conn_inv cfg c3" "identity c3 = identity c" "state c3 = state c2"
        "out_base c3 = out_base c" "pending c3 = pending c2" "send_progress c3 = send_progress c2"
      using i2 by (auto simp: c3_def update_remote_window_keep identity_def out_base_def)
    have i4: "conn_inv cfg ?c4" "identity ?c4 = identity c" "state ?c4 = state c2"
        "out_base ?c4 = out_base c" "pending ?c4 = pending c2" "send_progress ?c4 = send_progress c2"
      using i3 by (auto simp: rep_def repair_keep out_base_def)
    have "emits_all ?c4 ?out"
      using o2 i2(5) i4(3-6) by (intro emits_all_step [OF o2]) simp_all
    moreover have "emits_all ?c4 ?re"
      using repair_emits [of "phase (state c3)" cfg c3 now] i3(1,3) i4(3)
      by (auto simp: emits_all_def conn_inv_def rep_def split: option.split if_splits)
    moreover have "process_ack s ack now cfg c = Some ((False, ?out @ ?re), ?c4)"
      using a(1) False by (simp add: process_ack_def Let_def c2_def c3_def rep_def)
    moreover have "acks_bytes n c ?c4"
      using i2(2) i4(5,6) by (rule acks_bytes_keep)
    ultimately show ?thesis
      using i2(4) i4(1-4)
      by (intro exI [of _ False] exI [of _ "?out @ ?re"] exI [of _ ?c4] exI [of _ n]) simp
  qed
qed

lemma on_synchronized_effect:
  assumes inv: "conn_inv cfg c" and ph: "phase (state c) \<noteq> Opening"
  shows "\<exists>u c'. on_synchronized s now cfg c = Some (u, c') \<and> \<not> upd_accepted u \<and>
    (if upd_closed u then finished c (upd_segments u) c' else effect cfg c (upd_segments u) c')"
proof -
  let ?ack = "case seg_ack s of None \<Rightarrow> Some ((False, []), c)
    | Some ack \<Rightarrow> process_ack s ack now cfg c"
  obtain fin out c1 n where a: "?ack = Some ((fin, out), c1)"
    "if fin then finished c out c1
     else conn_inv cfg c1 \<and> acks_bytes n c c1 \<and> tcp_path (state c) (state c1) \<and>
       identity c1 = identity c \<and> out_base c1 = out_base c \<and> emits_all c1 out"
  proof (cases "seg_ack s")
    case None
    then show ?thesis
      using that [of False "[]" c 0] inv acks_bytes_refl [of c] by simp
  next
    case (Some ack)
    then show ?thesis using process_ack_effect [OF inv ph, of s ack now] that by auto
  qed
  show ?thesis
  proof (cases fin)
    case True
    then show ?thesis
      using a by (simp add: on_synchronized_def update_close_def)
  next
    case False
    then have c1: "conn_inv cfg c1" "acks_bytes n c c1" "tcp_path (state c) (state c1)"
      "identity c1 = identity c" "out_base c1 = out_base c" "emits_all c1 out"
      using a(2) by simp_all
    obtain flushed c2 where
      "flush_data now (snd (receive_if_data s now cfg out c1)) = Some (flushed, c2)"
      "effect cfg c (fst (receive_if_data s now cfg out c1) @ flushed) c2"
      using receive_flush_effect [OF c1] by blast
    then show ?thesis
      using a(1) False by (simp add: on_synchronized_def update_open_def Let_def)
  qed
qed

text \<open>The handshake.\<close>

lemma negotiate_mss_simps [simp]:
  "state (negotiate_mss s cfg c) = state c"
  "send_una (negotiate_mss s cfg c) = send_una c"
  "send_nxt (negotiate_mss s cfg c) = send_nxt c"
  "recv_nxt (negotiate_mss s cfg c) = recv_nxt c"
  "send_queue (negotiate_mss s cfg c) = send_queue c"
  "recv_queue (negotiate_mss s cfg c) = recv_queue c"
  "reassembly (negotiate_mss s cfg c) = reassembly c"
  "read_closed (negotiate_mss s cfg c) = read_closed c"
  "unacked (negotiate_mss s cfg c) = unacked c"
  "close_requested (negotiate_mss s cfg c) = close_requested c"
  "remote_window (negotiate_mss s cfg c) = remote_window c"
  "send_progress (negotiate_mss s cfg c) = send_progress c"
  "receive_capacity (negotiate_mss s cfg c) = receive_capacity c"
  "max_transmissions (negotiate_mss s cfg c) = max_transmissions c"
  "rtt (negotiate_mss s cfg c) = rtt c"
  "peer (negotiate_mss s cfg c) = peer c"
  "local_port (negotiate_mss s cfg c) = local_port c"
  "remote_port (negotiate_mss s cfg c) = remote_port c"
  by (simp_all add: negotiate_mss_def Let_def)

text \<open>
  The handshake is the only time the segment size changes, and then it can only shrink from the
  configured one, which is what keeps the congestion state well formed.
\<close>

lemma negotiate_mss_param:
  assumes "param_inv cfg c" "mss c = unat (cfg_mss cfg)"
  shows "param_inv cfg (negotiate_mss s cfg c)"
proof -
  let ?m = "max (unat (min (case max_segment_size s of None \<Rightarrow> 1024 | Some m \<Rightarrow> m) (cfg_mss cfg))) 1"
  have "unat (min x (cfg_mss cfg)) \<le> unat (cfg_mss cfg)" for x
    by (simp add: min_def word_le_nat_alt)
  then have "0 < ?m" "?m \<le> reno_mss (reno c)" "?m \<le> unat (cfg_mss cfg)"
    using assms by (auto simp: param_inv_def)
  with assms show ?thesis
    by (auto simp: negotiate_mss_def param_inv_def Let_def intro: reno_ok_set_mss)
qed

lemma negotiate_mss_phase_inv:
  assumes "phase_inv ph cfg c" "mss c = unat (cfg_mss cfg)"
  shows "phase_inv ph cfg (negotiate_mss s cfg c)"
  using assms negotiate_mss_param [of cfg c s]
  by (auto simp: phase_inv_def progress_inv_def retry_inv_def recv_inv_def pending_def)

lemma phase_inv_state: "phase_inv ph cfg (c\<lparr>state := st\<rparr>) = phase_inv ph cfg c"
  by (simp add: inv_defs)

lemma effect_refl: "conn_inv cfg c \<Longrightarrow> effect cfg c [] c"
  using acks_bytes_refl [of c] by (auto simp: effect_def)

lemma on_syn_sent_effect:
  assumes inv: "conn_inv cfg c" and st: "state c = SynSent"
  shows "\<exists>u c'. on_syn_sent s now cfg c = Some (u, c') \<and> \<not> upd_closed u \<and> \<not> upd_accepted u \<and>
    effect cfg c (upd_segments u) c'"
proof (cases "contains (seg_flags s) SYN \<and> contains (seg_flags s) ACK
    \<and> seg_ack s = Some (send_nxt c) \<and> supports_fips_version s FIPS_VERSION")
  case False
  then show ?thesis
    using effect_refl [OF inv] by (auto simp: on_syn_sent_def update_open_def)
next
  case True
  let ?c1 = "update_remote_window (seg_window s) now c"
  let ?c2 = "negotiate_mss s cfg ?c1"
  have p2: "phase_inv Opening cfg ?c2"
    using inv st by (intro negotiate_mss_phase_inv update_remote_window_inv)
      (auto simp: conn_inv_def state_inv_def)
  obtain o1 c3 n where a: "apply_ack (send_nxt ?c2) now False ?c2 = Some (o1, c3)"
    "phase_inv Open cfg c3" "ack_frame ?c2 c3" "acks_bytes n ?c2 c3"
    "stream_base Open c3 = stream_base Opening ?c2"
    using apply_ack_effect [OF p2, of "send_nxt ?c2" now False] by auto
  let ?c4 = "c3\<lparr>recv_nxt := seg_seq s + 1, state := Established\<rparr>"
  have "conn_inv cfg ?c4"
    using a(2) by (auto simp: conn_inv_def state_inv_def inv_defs)
  moreover have "acks_bytes n c ?c4"
    using a(4) by (simp add: acks_bytes_def pending_def)
  moreover have "tcp_path (state c) (state ?c4)"
    using st by (auto intro: tcp_edge.intros)
  moreover have "identity ?c4 = identity c"
    using a(3,4) by (simp add: identity_def ack_frame_def acks_bytes_def)
  moreover have "out_base ?c4 = out_base c"
    using a(5) st by (simp add: out_base_def stream_base_def)
  ultimately have "effect cfg c [ack_segment ?c4] ?c4" by (auto simp: effect_def)
  then show ?thesis
    using True a(1) by (simp add: on_syn_sent_def Let_def update_open_def)
qed

lemma on_syn_received_effect:
  assumes inv: "conn_inv cfg c" and st: "state c = SynReceived"
  shows "\<exists>u c'. on_syn_received s now cfg c = Some (u, c') \<and> \<not> upd_closed u \<and>
    effect cfg c (upd_segments u) c'"
proof (cases "contains (seg_flags s) SYN \<and> \<not> contains (seg_flags s) ACK \<and> seg_seq s + 1 = recv_nxt c")
  case True
  let ?c = "snd (retransmit_oldest now False c)"
  let ?out = "case fst (retransmit_oldest now False c) of None \<Rightarrow> [] | Some r \<Rightarrow> [r]"
  have "acks_bytes 0 c ?c" "identity ?c = identity c" "out_base ?c = out_base c"
    by (simp_all add: acks_bytes_def identity_def out_base_def)
  moreover have "emits_all ?c ?out"
    using retransmit_emits [of "phase (state c)" cfg c now False] inv
    by (auto simp: conn_inv_def split: option.split)
  ultimately have "effect cfg c ?out ?c"
    using retransmit_keep(2) [OF inv] by (auto simp: effect_def)
  then show ?thesis
    using True by (simp add: on_syn_received_def Let_def update_open_def)
next
  case dup: False
  show ?thesis
  proof (cases "seg_ack s = Some (send_nxt c)")
    case False
    with dup show ?thesis
      using effect_refl [OF inv] by (auto simp: on_syn_received_def update_open_def)
  next
    case True
    have p: "phase_inv Opening cfg c" using inv st by (simp add: conn_inv_def)
    obtain o1 c1 n where a: "apply_ack (send_nxt c) now False c = Some (o1, c1)"
      "phase_inv Open cfg c1" "ack_frame c c1" "acks_bytes n c c1"
      "stream_base Open c1 = stream_base Opening c"
      using apply_ack_effect [OF p, of "send_nxt c" now False] by auto
    let ?c2 = "(update_remote_window (seg_window s) now c1)\<lparr>state := Established\<rparr>"
    have i2: "conn_inv cfg ?c2"
      using update_remote_window_inv [OF a(2)] by (simp add: conn_inv_def state_inv_def phase_inv_state)
    have k2: "acks_bytes n c ?c2" "tcp_path (state c) (state ?c2)" "identity ?c2 = identity c"
        "out_base ?c2 = out_base c" "emits_all ?c2 []"
      using a(3,4,5) st by (auto simp: acks_bytes_def identity_def pending_def ack_frame_def
          out_base_def stream_base_def intro: tcp_edge.intros)
    obtain flushed c3 where
      "flush_data now (snd (receive_if_data s now cfg [] ?c2)) = Some (flushed, c3)"
      "effect cfg c (fst (receive_if_data s now cfg [] ?c2) @ flushed) c3"
      using receive_flush_effect [OF i2 k2] by blast
    then show ?thesis
      using True a(1) dup by (auto simp: on_syn_received_def Let_def)
  qed
qed

lemma on_reset_shape:
  "\<not> upd_accepted (on_reset s c)" "upd_closed (on_reset s c) \<Longrightarrow> upd_segments (on_reset s c) = []"
  "upd_segments (on_reset s c) = [] \<or> upd_segments (on_reset s c) = [ack_segment c]"
  unfolding on_reset_def update_close_def update_open_def Let_def by (simp_all split: if_splits)

lemma on_segment_effect:
  assumes inv: "conn_inv cfg c"
  shows "\<exists>u c'. on_segment s now cfg c = Some (u, c') \<and>
    (if upd_closed u
     then contains (seg_flags s) RST \<and> c' = c \<and> upd_segments u = [] \<or> finished c (upd_segments u) c'
     else effect cfg c (upd_segments u) c') \<and>
    (upd_accepted u \<longrightarrow> state c = SynReceived \<and> \<not> upd_closed u)"
proof (cases "contains (seg_flags s) RST")
  case True
  have "effect cfg c (upd_segments (on_reset s c)) c"
    using effect_refl [OF inv] on_reset_shape(3) [of s c] by (auto simp: effect_def)
  with True show ?thesis
    using on_reset_shape [of s c] by (auto simp: on_segment_def)
next
  case False
  consider (ss) "state c = SynSent" | (sr) "state c = SynReceived" | (sync) "phase (state c) \<noteq> Opening"
    by (cases "state c") auto
  then show ?thesis
  proof cases
    case ss
    with on_syn_sent_effect [OF inv ss, of s now] False show ?thesis
      by (auto simp: on_segment_def)
  next
    case sr
    with on_syn_received_effect [OF inv sr, of s now] False show ?thesis
      by (auto simp: on_segment_def)
  next
    case sync
    then have "on_segment s now cfg c = on_synchronized s now cfg c"
      using False by (auto simp: on_segment_def)
    with on_synchronized_effect [OF inv sync, of s now] show ?thesis by (auto split: if_splits)
  qed
qed

section \<open>Application calls\<close>

lemma buffered_bytes_pending: "buffered_bytes c = length (pending c)"
proof -
  have "sum_list (map (length \<circ> trk_payload) ts) = length (queued_bytes ts)" for ts
    by (induction ts) auto
  then show ?thesis by (simp add: buffered_bytes_def pending_def)
qed

definition writable :: "'p connection \<Rightarrow> bool" where
  "writable c \<longleftrightarrow> (state c = Established \<or> state c = CloseWait) \<and> \<not> close_requested c"

definition write_room :: "bytes \<Rightarrow> config \<Rightarrow> 'p connection \<Rightarrow> nat" where
  "write_room bs cfg c = min (length bs) (send_buffer cfg - buffered_bytes c)"

lemma writable_phase: "writable c \<Longrightarrow> phase (state c) = Open"
  by (auto simp: writable_def)

lemma enqueue_phase_inv:
  assumes "phase_inv Open cfg c" "accepted_payload_bytes (send_progress c) + length xs \<le> u128_max"
  shows "phase_inv Open cfg (c\<lparr>send_queue := send_queue c @ xs, send_progress := (send_progress c)
      \<lparr>accepted_payload_bytes := accepted_payload_bytes (send_progress c) + length xs\<rparr>\<rparr>)"
  using assms by (auto simp: inv_defs send_ok_def)

lemma conn_write_refused:
  "\<not> writable c \<Longrightarrow> conn_write bs now cfg c = Some (Inl (InvalidState (state c)), c)"
  by (auto simp: conn_write_def writable_def)

lemma conn_write_effect:
  assumes inv: "conn_inv cfg c" and w: "writable c"
    and room: "accepted_payload_bytes (send_progress c) + write_room bs cfg c \<le> u128_max"
  shows "\<exists>segs c'. conn_write bs now cfg c = Some (Inr (write_room bs cfg c, segs), c') \<and>
    conn_inv cfg c' \<and> pending c' = pending c @ take (write_room bs cfg c) bs \<and>
    send_progress c' = (send_progress c)\<lparr>accepted_payload_bytes :=
      accepted_payload_bytes (send_progress c) + write_room bs cfg c\<rparr> \<and>
    fin_sent (state c) (state c') \<and> identity c' = identity c \<and> out_base c' = out_base c \<and>
    emits_all c' segs"
proof -
  let ?k = "write_room bs cfg c"
  have k: "length (take ?k bs) = ?k"
    by (simp add: write_room_def)
  let ?c = "c\<lparr>send_queue := send_queue c @ take ?k bs, send_progress := (send_progress c)
      \<lparr>accepted_payload_bytes := accepted_payload_bytes (send_progress c) + ?k\<rparr>\<rparr>"
  have "phase_inv Open cfg ?c"
    using enqueue_phase_inv [of cfg c "take ?k bs", unfolded k] inv room writable_phase [OF w]
    by (simp add: conn_inv_def)
  then have i: "conn_inv cfg ?c"
    using inv writable_phase [OF w] by (simp add: conn_inv_def state_inv_def)
  obtain out c' where f: "flush_data now ?c = Some (out, c')" "conn_inv cfg c'"
    "flush_frame ?c c'" "pending c' = pending ?c" "fin_sent (state ?c) (state c')"
    "out_base c' = out_base ?c" "emits_all c' out"
    using flush_data_inv [OF i] unfolding out_base_def emits_all_def by blast
  have "conn_write bs now cfg c = Some (Inr (?k, out), c')"
    using w room f(1) by (auto simp: conn_write_def writable_def write_room_def Let_def
        progress_accept_def checked_add_def)
  moreover have "identity c' = identity c"
    using f(3) by (simp add: flush_frame_def identity_def)
  moreover have "send_progress c' = send_progress ?c"
    using f(3) by (simp add: flush_frame_def)
  moreover have "out_base ?c = out_base c"
    by (simp add: out_base_def stream_base_def)
  ultimately show ?thesis
    using f by (simp add: pending_def)
qed

lemma conn_read_effect:
  assumes inv: "conn_inv cfg c"
  shows "effect cfg c (snd (fst (conn_read m c))) (snd (conn_read m c))"
    and "fst (fst (conn_read m c)) @ recv_queue (snd (conn_read m c)) = recv_queue c"
    and "length (fst (fst (conn_read m c))) = min m (length (recv_queue c))"
proof -
  let ?c = "c\<lparr>recv_queue := drop (min m (length (recv_queue c))) (recv_queue c)\<rparr>"
  have snd: "snd (conn_read m c) = ?c" by (simp add: conn_read_def Let_def)
  have "conn_inv cfg ?c"
    using inv by (auto simp: conn_inv_def state_inv_def inv_defs)
  moreover have "emits_all ?c (snd (fst (conn_read m c)))"
    by (simp add: conn_read_def Let_def)
  ultimately show "effect cfg c (snd (fst (conn_read m c))) (snd (conn_read m c))"
    using acks_bytes_refl [of c]
    by (auto simp: effect_def snd identity_def acks_bytes_def pending_def out_base_def stream_base_def)
  show "fst (fst (conn_read m c)) @ recv_queue (snd (conn_read m c)) = recv_queue c"
    and "length (fst (fst (conn_read m c))) = min m (length (recv_queue c))"
    by (simp_all add: conn_read_def Let_def)
qed

lemma flush_effect:
  assumes "conn_inv cfg d" "acks_bytes n c d" "tcp_path (state c) (state d)" "identity d = identity c"
    and base: "out_base d = out_base c" and out: "emits_all d out"
  shows "\<exists>flushed c'. flush_data now d = Some (flushed, c') \<and> effect cfg c (out @ flushed) c'"
proof -
  obtain flushed c' where f: "flush_data now d = Some (flushed, c')" "conn_inv cfg c'"
    "flush_frame d c'" "pending c' = pending d" "fin_sent (state d) (state c')"
    "out_base c' = out_base d" "emits_all c' flushed"
    using flush_data_inv [OF assms(1)] unfolding out_base_def emits_all_def by blast
  have sp: "send_progress c' = send_progress d"
    using f(3) by (simp add: flush_frame_def)
  have "emits_all c' out"
    using f(4) sp f(6) fin_sent_path [OF f(5)] by (rule emits_all_step [OF out])
  moreover have "acks_bytes n c c'"
    using assms(2) f(4) sp by (rule acks_bytes_keep)
  moreover have "tcp_path (state c) (state c')"
    using assms(3) fin_sent_path [OF f(5)] by force
  ultimately have "effect cfg c (out @ flushed) c'"
    using f(2,6,7) base assms(4) identity_frames(2) [OF f(3)] by (auto simp: effect_def)
  then show ?thesis using f(1) by blast
qed

lemma conn_close_effect:
  assumes inv: "conn_inv cfg c"
  shows "\<exists>u c'. conn_close now c = Some (u, c') \<and> \<not> upd_accepted u \<and>
    (upd_closed u \<longleftrightarrow> phase (state c) = Opening) \<and> effect cfg c (upd_segments u) c'"
proof (cases "phase (state c) = Open")
  case True
  let ?c = "c\<lparr>close_requested := True\<rparr>"
  have "conn_inv cfg ?c"
    using inv True by (auto simp: conn_inv_def state_inv_def inv_defs send_ok_def)
  then obtain out c' where "flush_data now ?c = Some (out, c')" "effect cfg c out c'"
    using flush_effect [of cfg ?c 0 c "[]" now]
    by (auto simp: acks_bytes_def pending_def identity_def out_base_def stream_base_def)
  moreover have "state c = Established \<or> state c = CloseWait"
    using True by (cases "state c") auto
  ultimately show ?thesis
    using True by (auto simp: conn_close_def update_open_def)
next
  case False
  then show ?thesis
    using effect_refl [OF inv]
    by (cases "state c") (auto simp: conn_close_def update_open_def update_close_def)
qed

section \<open>Timers\<close>

lemma find_payload_Some: "find (\<lambda>t. trk_payload t \<noteq> []) ts = Some t \<Longrightarrow> t \<in> set ts \<and> trk_payload t \<noteq> []"
  by (auto simp: find_Some_iff)

lemma zero_window_probe_inv:
  assumes inv: "phase_inv ph cfg c"
  shows "phase_inv ph cfg (snd (zero_window_probe now c))"
proof (cases "find (\<lambda>t. trk_payload t \<noteq> []) (unacked c)")
  case (Some t)
  then show ?thesis using inv by (auto simp: zero_window_probe_def inv_defs)
next
  case None
  show ?thesis
  proof (cases "send_queue c")
    case Nil
    with None inv show ?thesis by (simp add: zero_window_probe_def)
  next
    case (Cons b rest)
    have ph: "ph = Open"
      using inv Cons by (auto simp: phase_inv_def send_ok_def)
    have "list_all data_seg (unacked c)"
      using inv ph by (simp add: phase_inv_def send_ok_def)
    moreover have "\<forall>t \<in> set (unacked c). trk_payload t = []"
      using None by (simp add: find_None_iff)
    ultimately have empty: "unacked c = []"
      by (cases "unacked c") (auto simp: data_seg_def)
    have "send_ok Open (send_una c) (send_nxt c + of_nat (length [b]))
       (unacked c @ [\<lparr>trk_seq = send_nxt c, trk_flags = ACK OR PSH, trk_payload = [b],
          sent_at_ms = now, transmissions = 1\<rparr>]) rest (close_requested c)"
      using inv empty unfolding phase_inv_def ph
      by (intro send_ok_data [of _ _ _ "send_queue c"]) (auto simp: u16_max_def)
    then show ?thesis
      using None Cons inv empty ph
      by (auto simp: zero_window_probe_def Let_def inv_defs)
  qed
qed

lemma zero_window_probe_emits:
  assumes inv: "phase_inv ph cfg c" and s: "fst (zero_window_probe now c) = Some s"
  shows "emits ph (snd (zero_window_probe now c)) s"
proof (cases "find (\<lambda>t. trk_payload t \<noteq> []) (unacked c)")
  case (Some t)
  let ?c = "snd (zero_window_probe now c)"
  have t: "t \<in> set (unacked c)" "trk_payload t \<noteq> []"
    using find_payload_Some [OF Some] by auto
  have ph: "ph \<noteq> Opening" "ph \<noteq> Finished"
    using inv t by (auto simp: phase_inv_def send_ok_def syn_seg_def)
  have so: "send_ok ph (send_una c) (send_nxt c) (unacked c) (send_queue c) (close_requested c)"
    using inv by (simp add: phase_inv_def)
  obtain j where j: "trk_seq t = seq_at (send_una c) j"
    "piece (pending c) (ended ph) j (trk_payload t) (contains (trk_flags t) FIN)"
    using tracked_piece [OF so ph(1) t(1)] by (auto simp: pending_def)
  have s': "seg_seq s = trk_seq t" "seg_payload s = take 1 (trk_payload t)" "\<not> contains (seg_flags s) FIN"
    "\<not> contains (seg_flags s) SYN"
    using s Some t(2) by (auto simp: zero_window_probe_def take_Suc_conv_app_nth)
  have c: "stream_base ph ?c = send_una c - of_nat (acked_payload_bytes (send_progress c))"
    "pending ?c = pending c" "send_progress ?c = send_progress c"
    using Some ph by (cases ph; simp add: zero_window_probe_def stream_base_def pending_def)+
  have "piece (pending c) (ended ph) j (take 1 (trk_payload t)) False"
    using piece_take [OF j(2), of 1] by (auto simp: piece_def)
  then show ?thesis
    using s' j(1) ph(1) c by (auto simp: emits_def seq_at_def intro!: exI [of _ j])
next
  case None
  then obtain b rest where q: "send_queue c = b # rest"
    using s by (cases "send_queue c") (auto simp: zero_window_probe_def)
  let ?t = "send_tracked (ACK OR PSH) [b] now (c\<lparr>send_queue := rest\<rparr>)"
  have z: "zero_window_probe now c = (Some (fst ?t), snd ?t)"
    using None q by (simp add: zero_window_probe_def Let_def)
  have "phase_inv ph cfg (snd ?t)"
    using zero_window_probe_inv [OF inv, of now] z by simp
  then have "emits ph (snd ?t) (fst ?t)" by (rule send_tracked_emits)
  then show ?thesis using z s by simp
qed

lemma zero_window_probe_frame:
  "pending (snd (zero_window_probe now c)) = pending c"
  "send_progress (snd (zero_window_probe now c)) = send_progress c"
  "state (snd (zero_window_probe now c)) = state c"
  "identity (snd (zero_window_probe now c)) = identity c"
  "phase (state c) \<noteq> Opening \<Longrightarrow> out_base (snd (zero_window_probe now c)) = out_base c"
  "mss (snd (zero_window_probe now c)) = mss c"
  "fin_wait_2_until_ms (snd (zero_window_probe now c)) = fin_wait_2_until_ms c"
  "time_wait_until_ms (snd (zero_window_probe now c)) = time_wait_until_ms c"
  by (cases "phase (state c)"; auto simp: zero_window_probe_def pending_def identity_def Let_def
      find_None_iff out_base_def stream_base_def split: option.split list.split)+

lemma probe_timer_inv:
  "phase_inv ph cfg (c\<lparr>zero_window_probes := n, next_zero_window_probe_ms := d\<rparr>) = phase_inv ph cfg c"
  "phase_inv ph cfg (c\<lparr>next_zero_window_probe_ms := d\<rparr>) = phase_inv ph cfg c"
  "phase_inv ph cfg (c\<lparr>zero_window_probes := n\<rparr>) = phase_inv ph cfg c"
  by (simp_all add: inv_defs)

lemma zero_window_probe_base:
  assumes inv: "phase_inv (phase (state c)) cfg c"
  shows "out_base (snd (zero_window_probe now c)) = out_base c"
proof (cases "phase (state c) = Opening")
  case True
  then obtain t where "unacked c = [t]" "syn_seg t" "send_queue c = []"
    using inv by (auto simp: phase_inv_def send_ok_def)
  then show ?thesis by (auto simp: zero_window_probe_def syn_seg_def)
qed (rule zero_window_probe_frame)

text \<open>The two timer fields of the probe carry no obligation.\<close>

lemma effect_probe_timer:
  assumes "effect cfg c out d"
  shows "effect cfg c out (d\<lparr>zero_window_probes := n, next_zero_window_probe_ms := m\<rparr>)"
    and "effect cfg c out (d\<lparr>next_zero_window_probe_ms := m\<rparr>)"
proof -
  let ?e = "d\<lparr>zero_window_probes := n, next_zero_window_probe_ms := m\<rparr>"
  let ?f = "d\<lparr>next_zero_window_probe_ms := m\<rparr>"
  have base: "out_base ?e = out_base d" "out_base ?f = out_base d"
    by (simp_all add: out_base_def stream_base_def)
  have "emits_all ?e out" "emits_all ?f out"
    using assms base
    by (auto intro!: emits_all_step [of d out] simp: effect_def pending_def simp del: connection.simps(1-3))
  then show "effect cfg c out ?e" "effect cfg c out ?f"
    using assms base
    by (auto simp: effect_def conn_inv_def probe_timer_inv state_inv_def acks_bytes_def pending_def
        identity_def)
qed

lemma poll_zero_window_effect:
  assumes inv: "conn_inv cfg c"
  shows "effect cfg c (upd_segments (fst (poll_zero_window now cfg c))) (snd (poll_zero_window now cfg c))"
    and "\<not> upd_accepted (fst (poll_zero_window now cfg c))"
    and "upd_closed (fst (poll_zero_window now cfg c)) \<Longrightarrow> max_retransmissions cfg \<le> zero_window_probes c"
proof -
  define c1 where "c1 = c\<lparr>next_zero_window_probe_ms := Some (case next_zero_window_probe_ms c of
    Some d \<Rightarrow> d | None \<Rightarrow> sat_add64 now (initial_rto_ms cfg))\<rparr>"
  have e1: "effect cfg c [] c1"
    unfolding c1_def by (rule effect_probe_timer(2) [OF effect_refl [OF inv]])
  have inv1: "phase_inv (phase (state c1)) cfg c1"
    using e1 by (simp add: effect_def conn_inv_def)
  obtain p c2 where p: "zero_window_probe now c1 = (p, c2)" by fastforce
  have "conn_inv cfg c2"
    using zero_window_probe_inv [OF inv1, of now] zero_window_probe_frame [where now = now and c = c1] e1 p
    by (auto simp: effect_def conn_inv_def state_inv_def)
  moreover have "emits_all c2 (case p of None \<Rightarrow> [] | Some s \<Rightarrow> [s])"
    using zero_window_probe_emits [OF inv1, of now] zero_window_probe_frame(3) [where now = now and c = c1] p
    by (auto split: option.split)
  moreover have "acks_bytes 0 c c2" "identity c2 = identity c" "state c2 = state c"
    using zero_window_probe_frame [where now = now and c = c1] p
    by (auto simp: acks_bytes_def pending_def identity_def c1_def)
  moreover have "out_base c2 = out_base c"
    using zero_window_probe_base [OF inv1, where now = now] e1 p by (simp add: effect_def)
  ultimately have e2: "effect cfg c (case p of None \<Rightarrow> [] | Some s \<Rightarrow> [s]) c2"
    by (auto simp: effect_def)
  have poll: "poll_zero_window now cfg c =
    (let deadline = (case next_zero_window_probe_ms c of Some d \<Rightarrow> d
        | None \<Rightarrow> sat_add64 now (initial_rto_ms cfg))
     in if now < deadline then (update_open [], c1)
     else if max_retransmissions cfg \<le> zero_window_probes c then (update_close [], c1)
     else (case p of None \<Rightarrow> (update_open [], c2)
       | Some s \<Rightarrow> (update_open [s], c2\<lparr>zero_window_probes := sat_add8 (zero_window_probes c2) 1,
           next_zero_window_probe_ms := Some (sat_add64 now (min (sat_mul64 (initial_rto_ms cfg)
             (2 ^ min (sat_add8 (zero_window_probes c2) 1) 16)) (max_rto_ms cfg)))\<rparr>)))"
    by (simp add: poll_zero_window_def Let_def c1_def [symmetric] p split: option.split)
       (simp add: c1_def)
  show "effect cfg c (upd_segments (fst (poll_zero_window now cfg c))) (snd (poll_zero_window now cfg c))"
    unfolding poll using e1 e2 effect_probe_timer(1) [OF e2]
    by (auto simp: Let_def update_open_def update_close_def split: option.split)
  show "\<not> upd_accepted (fst (poll_zero_window now cfg c))"
    unfolding poll by (simp add: Let_def update_open_def update_close_def split: option.split)
  show "upd_closed (fst (poll_zero_window now cfg c)) \<Longrightarrow> max_retransmissions cfg \<le> zero_window_probes c"
    unfolding poll by (auto simp: Let_def update_open_def update_close_def split: option.splits if_splits)
qed

lemma on_rto_mss: "mss (snd (on_rto now c)) = mss c"
  by (simp add: on_rto_def Let_def)

lemma conn_poll_effect:
  assumes inv: "conn_inv cfg c"
  shows "\<exists>u c'. conn_poll now cfg c = Some (u, c') \<and> \<not> upd_accepted u \<and>
    effect cfg c (upd_segments u) c'"
proof -
  have base: "\<exists>u c'. poll_flush now segs d = Some (u, c') \<and> \<not> upd_accepted u \<and>
      effect cfg c (upd_segments u) c'"
    if d: "effect cfg c segs d" "state d = state c" for segs d
  proof -
    obtain n where n: "acks_bytes n c d" using d(1) by (auto simp: effect_def)
    obtain flushed c' where "flush_data now d = Some (flushed, c')" "effect cfg c (segs @ flushed) c'"
      using flush_effect [of cfg d n c segs now] d n by (auto simp: effect_def)
    then show ?thesis by (simp add: poll_flush_def update_open_def)
  qed
  let ?r = "snd (on_rto now c)"
  have rto: "effect cfg c (fst (on_rto now c)) ?r"
    using inv on_rto_inv [of "phase (state c)" cfg c now] on_rto_emits [of "phase (state c)" cfg c _ now]
    by (auto simp: effect_def conn_inv_def state_inv_def acks_bytes_def identity_def on_rto_mss
        out_base_def emits_all_def intro!: exI [of _ 0])
  show ?thesis
  proof (cases "case close_deadline c of None \<Rightarrow> False | Some d \<Rightarrow> d \<le> now")
    case True
    then show ?thesis using effect_refl [OF inv] by (simp add: conn_poll_def update_close_def)
  next
    case open_: False
    show ?thesis
    proof (cases "remote_window c = 0 \<and> (close_requested c \<or> has_probe_payload c)")
      case True
      then have "conn_poll now cfg c = Some (poll_zero_window now cfg c)"
        using open_ by (auto simp: conn_poll_def)
      then show ?thesis
        using poll_zero_window_effect [OF inv, of now] by (metis prod.collapse)
    next
      case False
      show ?thesis
      proof (cases "unacked c")
        case Nil
        then show ?thesis
          using open_ False base [OF effect_refl [OF inv]] by (auto simp: conn_poll_def)
      next
        case (Cons oldest rest)
        then show ?thesis
          using open_ False base [OF effect_refl [OF inv]] effect_refl [OF inv] base [OF rto]
          by (auto simp: conn_poll_def update_close_def split: prod.split)
      qed
    qed
  qed
qed

section \<open>Creation\<close>

lemma unat_u16_bound: "unat (x :: u16) \<le> 65535"
  using unat_u16_le [of x] by (simp add: u16_max_def)

lemma send_ok_syn:
  "fs = SYN \<or> fs = SYN OR ACK \<Longrightarrow> send_ok Opening isn (isn + 1)
     [\<lparr>trk_seq = isn, trk_flags = fs, trk_payload = [], sent_at_ms = now, transmissions = 1\<rparr>] [] False"
  by (auto simp: send_ok_def trk_end_seq_def syn_seg_def trk_len_def u16_max_def)

definition valid_setup :: "config \<Rightarrow> bool" where
  "valid_setup cfg \<longleftrightarrow> valid_config cfg \<and> config_typed cfg"

text \<open>What a new connection has in common on both sides.\<close>

definition fresh :: "config \<Rightarrow> tcp_state \<Rightarrow> u32 \<Rightarrow> u32 \<Rightarrow> nat \<Rightarrow> 'p connection \<Rightarrow> bool" where
  "fresh cfg st isn rcv token c \<longleftrightarrow>
     param_inv cfg c \<and> recv_inv c \<and> state c = st \<and> send_una c = isn \<and> send_nxt c = isn \<and>
     recv_nxt c = rcv \<and> unacked c = [] \<and> send_queue c = [] \<and> recv_queue c = [] \<and>
     reassembly c = [] \<and> \<not> read_closed c \<and> \<not> close_requested c \<and> connection_token (send_progress c) = token \<and>
     accepted_payload_bytes (send_progress c) = 0 \<and> acked_payload_bytes (send_progress c) = 0"

lemma conn_new_fresh:
  assumes "valid_setup cfg" "lport \<noteq> 0" "rport \<noteq> 0" "token < u64_max"
  shows "\<exists>c. conn_new p lport rport st isn rcv cfg token = Some (c, token + 1) \<and>
    fresh cfg st isn rcv token c \<and> mss c = unat (cfg_mss cfg) \<and>
    peer c = p \<and> local_port c = lport \<and> remote_port c = rport"
proof -
  have cfg: "valid_config cfg" "config_typed cfg"
    using assms(1) by (simp_all add: valid_setup_def)
  have "reno_ok (reno_new (unat (cfg_mss cfg)))"
    using valid_config_mss [OF cfg(1)] unat_u16_le by (rule reno_ok_new)
  moreover have "rtt_ok (min_rto_ms cfg) (max_rto_ms cfg)
      (rtt_new (initial_rto_ms cfg) (min_rto_ms cfg) (max_rto_ms cfg))"
    using cfg by (intro rtt_ok_new) (auto simp: valid_config_def config_typed_def)
  moreover have "receive_buffer cfg \<le> u16_max"
    using cfg(1) by (simp add: valid_config_def)
  ultimately show ?thesis
    using assms(2,3,4) valid_config_mss [OF cfg(1)]
    by (simp add: conn_new_def send_progress_new_def checked_add_def param_inv_def recv_inv_def
        fresh_def)
qed

lemma fresh_conn_inv:
  assumes fresh: "fresh cfg st isn rcv token c"
    and open_: "st = SynSent \<and> mss c = unat (cfg_mss cfg) \<and> fs = SYN \<or> st = SynReceived \<and> fs = SYN OR ACK"
  shows "conn_inv cfg (snd (send_tracked fs [] now c))"
proof -
  have fs: "fs = SYN \<or> fs = SYN OR ACK" and ph: "phase (state c) = Opening"
    using assms by (auto simp: fresh_def)
  have nxt: "send_nxt c + of_nat (length ([] :: bytes)) + flag_len fs SYN + flag_len fs FIN = isn + 1"
    using fs fresh by (auto simp: fresh_def)
  let ?d = "snd (send_tracked fs [] now c)"
  have "phase_inv Opening cfg ?d"
  proof -
    have "send_ok Opening (send_una ?d) (send_nxt ?d) (unacked ?d) (send_queue ?d) (close_requested ?d)"
      unfolding send_tracked_simps nxt using send_ok_syn [OF fs, of isn now] fresh by (simp add: fresh_def)
    moreover have "progress_inv ?d" "retry_inv ?d"
      using fresh by (simp_all add: fresh_def progress_inv_def retry_inv_def pending_def)
    moreover have "recv_inv ?d" "param_inv cfg ?d"
      using fresh by (simp_all add: fresh_def recv_inv_def param_inv_def)
    ultimately show ?thesis using fresh by (simp add: phase_inv_def fresh_def)
  qed
  moreover have "state_inv cfg (snd (send_tracked fs [] now c))"
    using assms by (auto simp: state_inv_def fresh_def)
  ultimately show ?thesis by (simp add: conn_inv_def ph)
qed

lemma fresh_out:
  fixes now :: nat
  assumes fresh: "fresh cfg st isn rcv token c"
    and open_: "st = SynSent \<and> mss c = unat (cfg_mss cfg) \<and> fs = SYN \<or> st = SynReceived \<and> fs = SYN OR ACK"
  defines "d \<equiv> snd (send_tracked fs [] now c)"
  shows "state d = st \<and> pending d = [] \<and> out_base d = isn + 1 \<and> recv_fields d = (rcv, [], [], False) \<and>
    identity d = (peer c, local_port c, remote_port c, token) \<and>
    emits_all d [fst (send_tracked fs [] now c)] \<and> seg_seq (fst (send_tracked fs [] now c)) = isn \<and>
    seg_flags (fst (send_tracked fs [] now c)) = fs"
proof -
  have inv: "phase_inv (phase (state d)) cfg d"
    using fresh_conn_inv [OF fresh open_] by (simp add: d_def conn_inv_def)
  have "emits_all d [fst (send_tracked fs [] now c)]"
    using send_tracked_emits [OF inv [unfolded d_def]] by (simp add: d_def)
  moreover have "state d = st \<and> pending d = [] \<and> out_base d = isn + 1 \<and>
      recv_fields d = (rcv, [], [], False) \<and>
      identity d = (peer c, local_port c, remote_port c, token)"
    using fresh open_ by (auto simp: d_def fresh_def pending_def out_base_def stream_base_def
        progress_inv_def recv_fields_def identity_def)
  moreover have "seg_seq (fst (send_tracked fs [] now c)) = isn \<and>
      seg_flags (fst (send_tracked fs [] now c)) = fs"
    using fresh by (simp add: fresh_def send_tracked_def Let_def segment_for_def)
  ultimately show ?thesis by blast
qed

text \<open>
  Creating either side succeeds unless the process-wide token counter is exhausted, and yields a
  connection that satisfies the invariant together with its SYN or SYN-ACK.
\<close>

definition created ::
  "config \<Rightarrow> tcp_state \<Rightarrow> flags \<Rightarrow> u32 \<Rightarrow> u32 \<Rightarrow> 'p \<times> u16 \<times> u16 \<times> nat \<Rightarrow> 'p connection \<Rightarrow> segment \<Rightarrow> bool" where
  "created cfg st fs isn rcv who c seg \<longleftrightarrow>
     conn_inv cfg c \<and> state c = st \<and> pending c = [] \<and> out_base c = isn + 1 \<and>
     recv_fields c = (rcv, [], [], False) \<and> identity c = who \<and> emits_all c [seg] \<and>
     seg_seq seg = isn \<and> seg_flags seg = fs"

lemma conn_client_effect:
  assumes "valid_setup cfg" "lport \<noteq> 0" "rport \<noteq> 0" "token < u64_max"
  shows "\<exists>c seg. conn_client p lport rport isn now cfg token = Some ((c, [seg]), token + 1) \<and>
    created cfg SynSent SYN isn 0 (p, lport, rport, token) c seg"
proof -
  obtain c where c: "conn_new p lport rport SynSent isn 0 cfg token = Some (c, token + 1)"
    "fresh cfg SynSent isn 0 token c" "mss c = unat (cfg_mss cfg)" "peer c = p" "local_port c = lport" "remote_port c = rport"
    using conn_new_fresh [OF assms] by metis
  have fs: "SynSent = SynSent \<and> mss c = unat (cfg_mss cfg) \<and> SYN = SYN \<or>
      SynSent = SynReceived \<and> SYN = SYN OR ACK"
    using c(3) by simp
  have "created cfg SynSent SYN isn 0 (p, lport, rport, token) (snd (send_tracked SYN [] now c))
      (fst (send_tracked SYN [] now c))"
    using fresh_conn_inv [OF c(2) fs] fresh_out [OF c(2) fs] c(4-6) unfolding created_def by metis
  moreover have "conn_client p lport rport isn now cfg token
      = Some ((snd (send_tracked SYN [] now c), [fst (send_tracked SYN [] now c)]), token + 1)"
    using c(1) by (simp add: conn_client_def Let_def)
  ultimately show ?thesis by metis
qed

lemma conn_server_effect:
  assumes "valid_setup cfg" "seg_dst_port syn \<noteq> 0" "seg_src_port syn \<noteq> 0" "token < u64_max"
  shows "\<exists>c seg. conn_server p syn isn now cfg token = Some ((c, [seg]), token + 1) \<and>
    created cfg SynReceived (SYN OR ACK) isn (seg_seq syn + 1)
      (p, seg_dst_port syn, seg_src_port syn, token) c seg"
proof -
  obtain c where c: "conn_new p (seg_dst_port syn) (seg_src_port syn) SynReceived isn
        (seg_seq syn + 1) cfg token = Some (c, token + 1)"
    "fresh cfg SynReceived isn (seg_seq syn + 1) token c" "mss c = unat (cfg_mss cfg)" "peer c = p"
    "local_port c = seg_dst_port syn" "remote_port c = seg_src_port syn"
    using conn_new_fresh [OF assms] by metis
  let ?c1 = "update_remote_window (seg_window syn) now c"
  let ?c2 = "negotiate_mss syn cfg ?c1"
  have "param_inv cfg ?c1" "mss ?c1 = unat (cfg_mss cfg)"
    using c(2,3) by (simp_all add: fresh_def param_inv_def unat_u16_le)
  then have "param_inv cfg ?c2"
    by (rule negotiate_mss_param)
  then have fresh2: "fresh cfg SynReceived isn (seg_seq syn + 1) token ?c2"
    using c(2) by (simp add: fresh_def recv_inv_def)
  have fs: "SynReceived = SynSent \<and> mss ?c2 = unat (cfg_mss cfg) \<and> SYN OR ACK = SYN \<or>
      SynReceived = SynReceived \<and> SYN OR ACK = SYN OR ACK"
    by simp
  let ?c = "snd (send_tracked (SYN OR ACK) [] now ?c2)" and ?s = "fst (send_tracked (SYN OR ACK) [] now ?c2)"
  have "peer ?c2 = p" "local_port ?c2 = seg_dst_port syn" "remote_port ?c2 = seg_src_port syn"
    using c(4-6) by simp_all
  then have "created cfg SynReceived (SYN OR ACK) isn (seg_seq syn + 1)
      (p, seg_dst_port syn, seg_src_port syn, token) ?c ?s"
    using fresh_conn_inv [OF fresh2 fs] fresh_out [OF fresh2 fs] unfolding created_def by metis
  moreover have "conn_server p syn isn now cfg token = Some ((?c, [?s]), token + 1)"
    using c(1) by (simp add: conn_server_def Let_def)
  ultimately show ?thesis by metis
qed

end
