(* ===== verification/Conn_System.thy ===== *)
theory Conn_System
  imports Conn_Ops
begin

text \<open>
  A connection as a transition system: \<open>conn_start\<close> is a connection that \<open>Connection::client\<close> or
  \<open>Connection::server\<close> has just created, \<open>conn_step\<close> one call of the stack on it. The contract
  \<open>invariant_system\<close> is interpreted on the two, and the properties of every reachable connection
  rest on that interpretation.
\<close>

section \<open>Starting and stepping\<close>

inductive conn_start :: "config \<Rightarrow> 'p connection \<Rightarrow> bool" for cfg where
  start_client: "valid_setup cfg \<Longrightarrow> lport \<noteq> 0 \<Longrightarrow> rport \<noteq> 0 \<Longrightarrow>
     conn_client p lport rport isn now cfg token = Some ((c, segs), token') \<Longrightarrow> conn_start cfg c"
| start_server: "valid_setup cfg \<Longrightarrow> seg_dst_port syn \<noteq> 0 \<Longrightarrow> seg_src_port syn \<noteq> 0 \<Longrightarrow>
     conn_server p syn isn now cfg token = Some ((c, segs), token') \<Longrightarrow> conn_start cfg c"

inductive conn_step :: "config \<Rightarrow> 'p connection \<Rightarrow> 'p connection \<Rightarrow> bool" for cfg where
  step_segment: "on_segment s now cfg c = Some (u, c') \<Longrightarrow> \<not> upd_closed u \<Longrightarrow> conn_step cfg c c'"
| step_write: "conn_write bs now cfg c = Some (r, c') \<Longrightarrow> conn_step cfg c c'"
| step_read: "conn_read m c = (r, c') \<Longrightarrow> conn_step cfg c c'"
| step_close: "conn_close now c = Some (u, c') \<Longrightarrow> \<not> upd_closed u \<Longrightarrow> conn_step cfg c c'"
| step_poll: "conn_poll now cfg c = Some (u, c') \<Longrightarrow> \<not> upd_closed u \<Longrightarrow> conn_step cfg c c'"

inductive_cases conn_stepE: "conn_step cfg c c'"
inductive_cases conn_startE: "conn_start cfg c"

lemma new_needs_token:
  "conn_new p lport rport st isn rcv cfg token = Some r \<Longrightarrow> token < u64_max"
  by (auto simp: conn_new_def send_progress_new_def checked_add_def split: option.splits if_splits)

lemma conn_start_inv: "conn_start cfg c \<Longrightarrow> conn_inv cfg c"
proof (erule conn_startE)
  fix p :: 'a and lport rport isn now token segs token'
  assume a: "valid_setup cfg" "lport \<noteq> 0" "rport \<noteq> 0"
    "conn_client p lport rport isn now cfg token = Some ((c, segs), token')"
  then have "token < u64_max"
    by (auto simp: conn_client_def dest: new_needs_token split: option.splits)
  then show "conn_inv cfg c"
    using conn_client_effect [OF a(1-3), of token p isn now] a(4) by (auto simp: created_def)
next
  fix p :: 'a and syn isn now token segs token'
  assume a: "valid_setup cfg" "seg_dst_port syn \<noteq> 0" "seg_src_port syn \<noteq> 0"
    "conn_server p syn isn now cfg token = Some ((c, segs), token')"
  then have "token < u64_max"
    by (auto simp: conn_server_def dest: new_needs_token split: option.splits)
  then show "conn_inv cfg c"
    using conn_server_effect [OF a(1-3), of token p isn now] a(4) by (auto simp: created_def)
qed

text \<open>
  A write either is refused and changes nothing, or accepts what fits; a write that would take the
  counter of accepted bytes beyond its 128 bits panics, so it is no step.
\<close>

lemma conn_write_cases:
  assumes inv: "conn_inv cfg c" and w: "conn_write bs now cfg c = Some (r, c')"
  obtains (refused) "\<not> writable c" "r = Inl (InvalidState (state c))" "c' = c"
    | (accepted) segs where "writable c" "r = Inr (write_room bs cfg c, segs)" "conn_inv cfg c'"
        "accepted_payload_bytes (send_progress c) + write_room bs cfg c \<le> u128_max"
        "pending c' = pending c @ take (write_room bs cfg c) bs"
        "send_progress c' = (send_progress c)\<lparr>accepted_payload_bytes :=
           accepted_payload_bytes (send_progress c) + write_room bs cfg c\<rparr>"
        "fin_sent (state c) (state c')" "identity c' = identity c" "out_base c' = out_base c"
        "emits_all c' segs"
proof (cases "writable c")
  case False
  with conn_write_refused [OF False, of bs now cfg] w show ?thesis by (intro refused) auto
next
  case True
  have room: "accepted_payload_bytes (send_progress c) + write_room bs cfg c \<le> u128_max"
  proof (rule ccontr)
    assume "\<not> ?thesis"
    then have "conn_write bs now cfg c = None"
      using True by (simp add: conn_write_def writable_def write_room_def Let_def
          progress_accept_def checked_add_def)
    with w show False by simp
  qed
  from conn_write_effect [OF inv True room, of now] w room True show ?thesis
    by (auto intro: accepted)
qed

lemma conn_step_effect:
  assumes inv: "conn_inv cfg c" and "conn_step cfg c c'"
  shows "conn_inv cfg c' \<and> tcp_path (state c) (state c') \<and> identity c' = identity c"
  using assms(2)
proof cases
  case (step_segment s now u)
  then show ?thesis using on_segment_effect [OF inv, of s now] by (auto simp: effect_def)
next
  case (step_write bs now r)
  from inv step_write show ?thesis
    by (cases rule: conn_write_cases) (auto simp: inv dest: fin_sent_path)
next
  case (step_read m r)
  then show ?thesis using conn_read_effect(1) [OF inv, of m] by (simp add: effect_def)
next
  case (step_close now u)
  then show ?thesis using conn_close_effect [OF inv, of now] by (auto simp: effect_def)
next
  case (step_poll now u)
  then show ?thesis using conn_poll_effect [OF inv, of now] by (auto simp: effect_def)
qed

interpretation conn: invariant_system "conn_start cfg" "conn_step cfg" "conn_inv cfg"
  by unfold_locales (auto intro: conn_start_inv dest: conn_step_effect)

abbreviation conn_reach :: "config \<Rightarrow> 'p connection \<Rightarrow> bool" where
  "conn_reach cfg \<equiv> reach (conn_start cfg) (conn_step cfg)"

section \<open>Example connections\<close>

text \<open>
  A client of the default configuration before and after the peer's SYN-ACK: the inputs at which
  the properties of connections are evaluated.
\<close>

definition example_client :: "nat connection" where
  "example_client = fst (fst (the (conn_client 7 49152 80 1000 0 config_default 1)))"

definition example_syn_ack :: segment where
  "example_syn_ack = (segment_new 80 49152 5000)\<lparr>seg_flags := SYN OR ACK, seg_ack := Some 1001,
     seg_window := 4096, seg_options := [MaxSegmentSize 1000, FipsVersion 1 0]\<rparr>"

definition example_open :: "nat connection" where
  "example_open = snd (the (on_segment example_syn_ack 20 config_default example_client))"

lemmas eval_defs = conn_client_def conn_server_def conn_new_def send_progress_new_def
  checked_add_def send_tracked_def segment_for_def build_segment_def config_default_def
  rtt_new_def reno_new_def trk_end_seq_def arith_defs u64_max_def u128_max_def
  on_segment_def segment_new_def on_syn_sent_def supports_fips_version_def FIPS_VERSION_def
  update_remote_window_def negotiate_mss_def Let_def max_segment_size_def apply_ack_def after_def
  before_unat apply_new_ack_def before_or_equal_def rtt_sample_def sample_measure_def can_sample_def
  reno_on_ack_def set_mss_def progress_acknowledge_def update_open_def

lemma example_client_eq: "example_client =
  \<lparr>peer = 7, local_port = 49152, remote_port = 80, state = SynSent,
   send_una = 1000, send_nxt = 1001, recv_nxt = 0, remote_window = 65535, mss = 1024,
   receive_capacity = 65535, max_transmissions = 8, send_queue = [], recv_queue = [],
   reassembly = [],
   unacked = [\<lparr>trk_seq = 1000, trk_flags = SYN, trk_payload = [], sent_at_ms = 0,
     transmissions = 1\<rparr>],
   rtt = \<lparr>have_measurement = False, srtt_ms = 0, rttvar_ms = 0, rto_ms = 1000,
     rtt_min_rto_ms = 200, rtt_max_rto_ms = 60000, consecutive_rtos = 0, sample_after = None\<rparr>,
   reno = \<lparr>cwnd = 2048, reno_mss = 1024, ssthresh = u64_max, in_fast_recovery = False,
     in_rto_recovery = False\<rparr>,
   duplicate_acks = 0, rto_recovery_until = None, close_requested = False,
   next_zero_window_probe_ms = None, zero_window_probes = 0, read_closed = False,
   send_progress = \<lparr>connection_token = 1, accepted_payload_bytes = 0, acked_payload_bytes = 0\<rparr>,
   fin_wait_2_until_ms = None, time_wait_until_ms = None\<rparr>"
  by (simp add: example_client_def eval_defs)

lemma example_open_eq: "example_open =
  \<lparr>peer = 7, local_port = 49152, remote_port = 80, state = Established,
   send_una = 1001, send_nxt = 1001, recv_nxt = 5001, remote_window = 4096, mss = 1000,
   receive_capacity = 65535, max_transmissions = 8, send_queue = [], recv_queue = [],
   reassembly = [], unacked = [],
   rtt = \<lparr>have_measurement = True, srtt_ms = 20, rttvar_ms = 10, rto_ms = 200,
     rtt_min_rto_ms = 200, rtt_max_rto_ms = 60000, consecutive_rtos = 0, sample_after = None\<rparr>,
   reno = \<lparr>cwnd = 2048, reno_mss = 1000, ssthresh = u64_max, in_fast_recovery = False,
     in_rto_recovery = False\<rparr>,
   duplicate_acks = 0, rto_recovery_until = None, close_requested = False,
   next_zero_window_probe_ms = None, zero_window_probes = 0, read_closed = False,
   send_progress = \<lparr>connection_token = 1, accepted_payload_bytes = 0, acked_payload_bytes = 0\<rparr>,
   fin_wait_2_until_ms = None, time_wait_until_ms = None\<rparr>"
  by (simp add: example_open_def example_syn_ack_def example_client_eq eval_defs)

lemma example_open_segment:
  "\<exists>u. on_segment example_syn_ack 20 config_default example_client = Some (u, example_open)
     \<and> \<not> upd_closed u"
  by (simp add: example_open_def example_syn_ack_def example_client_eq eval_defs)

lemma valid_setup_default: "valid_setup config_default"
  by (simp add: valid_setup_def valid_config_default config_typed_default)

lemma example_client_start: "conn_start config_default example_client"
proof -
  have "conn_client 7 49152 80 1000 0 config_default 1 =
      Some ((example_client, snd (fst (the (conn_client (7 :: nat) 49152 80 1000 0 config_default 1)))), 2)"
    by (simp add: example_client_def eval_defs)
  then show ?thesis
    by (intro start_client [OF valid_setup_default]) auto
qed

lemma example_open_step: "conn_step config_default example_client example_open"
  using example_open_segment by (auto intro: step_segment)

lemma example_open_reach: "conn_reach config_default example_open"
  using example_client_start example_open_step by (auto intro: reach.intros)

lemma example_open_inv: "conn_inv config_default example_open"
  by (rule conn.inv_reach [OF example_open_reach])

section \<open>Properties of every reachable connection\<close>

text \<open>
  Every connection the stack can reach, from its creation through any sequence of segments,
  application calls and timer polls, satisfies the connection invariant: the retransmission queue is
  a gap-free chain from the oldest unacknowledged sequence number to the next one, in the form its
  state demands; at most 65535 units are in flight; the accepted-byte counter is the acknowledged
  one plus what is still owed; no segment has been sent more often than the budget allows; the
  receive buffers fit the advertised capacity; and the segment size, congestion and timer state are
  within their configured bounds.
\<close>

theorem reachable_connection_inv:
  "reach (conn_start cfg) (conn_step cfg) c \<Longrightarrow> conn_inv cfg c"
  by (rule conn.inv_reach)

theorem reachable_connection_inv_witness: "conn_inv config_default example_open"
  by (rule reachable_connection_inv [OF example_open_reach])

text \<open>The segment that closes a connection without a reset acknowledges the FIN, the last thing sent.\<close>

lemma closing_ack:
  assumes inv: "conn_inv cfg c" and o: "on_segment s now cfg c = Some (u, c')" "upd_closed u"
    and rst: "\<not> contains (seg_flags s) RST"
  shows "state c = LastAck" "seg_ack s = Some (send_nxt c)" "unacked c' = []" "send_queue c' = []"
proof -
  have last: "state c = LastAck"
    using on_segment_effect [OF inv, of s now] o rst by (auto simp: finished_def)
  then obtain ack out where a: "seg_ack s = Some ack" "process_ack s ack now cfg c = Some ((True, out), c')"
    using o rst by (auto simp: on_segment_def on_synchronized_def Let_def update_open_def update_close_def
        split: option.splits if_splits prod.splits)
  define d where "d = is_duplicate_ack_candidate s (send_una c) (remote_window c)"
  obtain o1 where p: "apply_ack ack now d c = Some (o1, c')" "ack_fin_acked o1"
    using a(2) by (auto simp: process_ack_def Let_def d_def split: option.splits prod.splits if_splits)
  have "phase_inv (phase (state c)) cfg c" using inv by (simp add: conn_inv_def)
  from apply_ack_effect [OF this, of ack now d] p last
  have f: "phase_inv Finished cfg c'" "ack_frame c c'" by auto
  then show empty: "unacked c' = []" "send_queue c' = []" by (simp_all add: phase_inv_def send_ok_def)
  have new: "apply_new_ack ack now c = Some (o1, c')"
    using p by (auto simp: apply_ack_def no_outcome_def apply_duplicate_ack_def Let_def split: if_splits)
  then have "send_una c' = ack" by (auto simp: apply_new_ack_def split: prod.splits option.splits)
  moreover have "chain (send_una c') (unacked c') (send_nxt c')" using f(1) by (auto simp: phase_inv_def send_ok_def)
  then have "send_una c' = send_nxt c" using f(2) unfolding empty(1) by (simp add: ack_frame_def)
  ultimately show "seg_ack s = Some (send_nxt c)" using a(1) by simp
  show "state c = LastAck" by (rule last)
qed

text \<open>
  C5: No segment, whatever a peer sends, makes a connection panic or hang: \<open>on_segment\<close> always
  returns. The connection then satisfies its invariant again, unless the segment closes it, and it
  is closed only by a reset or, in LAST-ACK, by a segment that acknowledges exactly everything that
  was sent, the FIN included, after which nothing is queued or in flight.
\<close>

theorem on_segment_safe:
  assumes "conn_inv cfg c"
  shows "\<exists>u c'. on_segment s now cfg c = Some (u, c') \<and>
    (if upd_closed u
     then contains (seg_flags s) RST \<and> c' = c \<or>
       state c = LastAck \<and> seg_ack s = Some (send_nxt c) \<and> unacked c' = [] \<and> pending c' = []
     else conn_inv cfg c')"
proof -
  obtain u c' where o: "on_segment s now cfg c = Some (u, c')"
    "if upd_closed u
     then contains (seg_flags s) RST \<and> c' = c \<and> upd_segments u = [] \<or> finished c (upd_segments u) c'
     else effect cfg c (upd_segments u) c'"
    using on_segment_effect [OF assms, of s now] by blast
  show ?thesis
  proof (cases "upd_closed u")
    case True
    show ?thesis
    proof (cases "contains (seg_flags s) RST")
      case rst: True
      then have "c' = c" using o(1) by (simp add: on_segment_def)
      with rst True show ?thesis by (intro exI [of _ u] exI [of _ c'] conjI [OF o(1)]) simp
    next
      case False
      note closing_ack [OF assms o(1) True False]
      with True show ?thesis by (intro exI [of _ u] exI [of _ c'] conjI [OF o(1)]) (simp add: pending_def)
    qed
  next
    case False
    with o(2) show ?thesis by (intro exI [of _ u] exI [of _ c'] conjI [OF o(1)]) (simp add: effect_def)
  qed
qed

theorem on_segment_safe_witness:
  "\<exists>u c'. on_segment (segment_new 80 49152 9) 30 config_default example_open = Some (u, c') \<and>
    (if upd_closed u
     then contains (seg_flags (segment_new 80 49152 9)) RST \<and> c' = example_open \<or>
       state example_open = LastAck \<and> seg_ack (segment_new 80 49152 9) = Some (send_nxt example_open) \<and>
       unacked c' = [] \<and> pending c' = []
     else conn_inv config_default c')"
  by (rule on_segment_safe [OF conn.inv_reach [OF example_open_reach]])

text \<open>
  C30: A connection moves only along the edges of the TCP state diagram, so its state never goes
  back: along every sequence of segments, application calls and polls the states increase in the
  order SYN-SENT, SYN-RECEIVED, ESTABLISHED, FIN-WAIT-1, FIN-WAIT-2, CLOSE-WAIT, CLOSING, LAST-ACK,
  TIME-WAIT, and the peer, the ports and the token stay what they were.
\<close>

theorem connection_lifecycle:
  assumes "conn_inv cfg c" "(conn_step cfg)\<^sup>*\<^sup>* c c'"
  shows "tcp_path (state c) (state c') \<and> state c \<le> state c' \<and> identity c' = identity c"
proof -
  have "conn_inv cfg c' \<and> tcp_path (state c) (state c') \<and> identity c' = identity c"
    using assms(2)
  proof (induction rule: rtranclp_induct)
    case base
    then show ?case using assms(1) by simp
  next
    case (step d e)
    then show ?case using conn_step_effect [of cfg d e] by auto
  qed
  then show ?thesis by (simp add: tcp_path_rank)
qed

theorem connection_lifecycle_witness:
  "tcp_path (state example_client) (state example_open) \<and> state example_client \<le> state example_open \<and>
   identity example_open = identity example_client"
  by (rule connection_lifecycle [OF conn_start_inv [OF example_client_start]],
      rule r_into_rtranclp, rule example_open_step)

end
