(* ===== verification/Delivery.thy ===== *)
theory Delivery
  imports Receiver Stream_Pieces
begin

text \<open>
  What the receiver hands to the application. The peer's stream is a byte list \<open>S\<close> whose first
  byte has the sequence number \<open>b\<close>; \<open>e\<close> says that the stream has ended, so that its FIN is the
  position after the last byte. Segments that are pieces of the stream may arrive in any order,
  overlap, repeat or be cut by the window: what has been delivered is always a prefix of \<open>S\<close>, and
  the end of the stream is reported only after all of it.
\<close>

section \<open>The state of the receiver\<close>

definition rsm_at :: "u32 \<Rightarrow> bytes \<Rightarrow> bool \<Rightarrow> nat \<Rightarrow> nat \<Rightarrow> reassembly_segment \<Rightarrow> bool" where
  "rsm_at b S e lo hi r \<longleftrightarrow> (\<exists>k. rsm_seq r = seq_at b k \<and> lo \<le> k \<and>
     k + length (rsm_payload r) \<le> hi \<and> piece S e k (rsm_payload r) (rsm_fin r))"

text \<open>The position of \<open>recv_nxt\<close> when \<open>n\<close> bytes are delivered: a received FIN counts as one.\<close>

definition recv_pos :: "'p connection \<Rightarrow> nat \<Rightarrow> nat" where
  "recv_pos c n = n + (if read_closed c then 1 else 0)"

text \<open>\<open>R\<close> is what the application has read, \<open>n\<close> the number of bytes delivered so far.\<close>

definition delivered ::
  "u32 \<Rightarrow> bytes \<Rightarrow> bool \<Rightarrow> bytes \<Rightarrow> nat \<Rightarrow> 'p connection \<Rightarrow> bool" where
  "delivered b S e R n c \<longleftrightarrow>
     R @ recv_queue c = take n S \<and> n \<le> length S \<and>
     (read_closed c \<longrightarrow> e \<and> n = length S) \<and> recv_nxt c = seq_at b (recv_pos c n)"

definition receiving ::
  "u32 \<Rightarrow> bytes \<Rightarrow> bool \<Rightarrow> bytes \<Rightarrow> nat \<Rightarrow> 'p connection \<Rightarrow> bool" where
  "receiving b S e R n c \<longleftrightarrow>
     delivered b S e R n c \<and>
     (\<forall>r \<in> set (reassembly c). rsm_at b S e (recv_pos c n) (recv_pos c n + u16_max) r)"

lemma rsm_at_mono:
  "rsm_at b S e lo hi r \<Longrightarrow> lo' \<le> lo \<Longrightarrow> hi \<le> hi' \<Longrightarrow> rsm_at b S e lo' hi' r"
  by (fastforce simp: rsm_at_def)

lemma receiving_grow: "receiving b S False R n c \<Longrightarrow> receiving b (S @ T) e R n c"
  unfolding receiving_def delivered_def rsm_at_def
  by (auto intro: piece_grow)

section \<open>Insertion\<close>

lemma insert_chunk_piece:
  assumes del: "delivered b S e R n c" and inv: "recv_inv c"
    and p: "piece S e k p fin" and near: "k < recv_pos c n + 2 ^ 30" "recv_pos c n < k + 2 ^ 30"
    and win: "\<not> (after (insert_start (seq_at b k) c) (recv_nxt c) \<and>
      available_window c \<le> distance (recv_nxt c) (insert_start (seq_at b k) c))"
    and some: "rsm_payload (insert_chunk (seq_at b k) p fin c) \<noteq> [] \<or>
      rsm_fin (insert_chunk (seq_at b k) p fin c)"
  shows "rsm_at b S e (recv_pos c n) (recv_pos c n + u16_max) (insert_chunk (seq_at b k) p fin c)"
proof -
  let ?pos = "recv_pos c n" and ?seq = "seq_at b k" and ?ch = "insert_chunk (seq_at b k) p fin c"
  have nxt: "recv_nxt c = seq_at b ?pos"
    using del by (simp add: delivered_def)
  have cap: "available_window c \<le> u16_max"
    using inv by (auto simp: available_window_eq recv_inv_def)
  have bef: "before ?seq (recv_nxt c) \<longleftrightarrow> k < ?pos"
    unfolding nxt using near by (intro before_seq_at) auto
  show ?thesis
  proof (cases "k < ?pos")
    case True
    have dist: "distance ?seq (recv_nxt c) = ?pos - k"
      unfolding nxt using True near by (intro distance_seq_at) auto
    have start: "insert_start ?seq c = recv_nxt c"
      using True bef by (simp add: insert_start_def)
    have data: "insert_data ?seq p c = drop (?pos - k) p"
      using True bef dist by (simp add: insert_data_def)
    show ?thesis
    proof (cases "?pos - k \<le> length p")
      case in_p: True
      let ?d = "drop (?pos - k) p"
      have pd: "piece S e ?pos ?d fin"
        using piece_drop [OF p in_p] True by simp
      let ?a = "min (length ?d) (available_window c)"
      have "rsm_payload ?ch = take ?a ?d" "rsm_seq ?ch = seq_at b ?pos"
        "rsm_fin ?ch \<longrightarrow> fin \<and> length ?d \<le> ?a"
        by (simp_all add: insert_chunk_def Let_def data start nxt)
      moreover from this have "piece S e ?pos (rsm_payload ?ch) (rsm_fin ?ch)"
        using piece_take [OF pd, of ?a] by (auto simp: piece_def)
      ultimately show ?thesis
        using cap by (auto simp: rsm_at_def intro!: exI [of _ ?pos])
    next
      case False
      then have "seq_at b (k + length p) \<noteq> seq_at b ?pos"
        using near by (subst seq_at_inj) auto
      then have "rsm_payload ?ch = [] \<and> \<not> rsm_fin ?ch"
        using False by (simp add: insert_chunk_def Let_def data start nxt)
      with some show ?thesis by blast
    qed
  next
    case False
    have start: "insert_start ?seq c = ?seq" and data: "insert_data ?seq p c = p"
      using False bef by (simp_all add: insert_start_def insert_data_def)
    have dist: "distance (recv_nxt c) ?seq = k - ?pos"
      unfolding nxt using False near by (intro distance_seq_at) auto
    have "after ?seq (recv_nxt c) \<longleftrightarrow> ?pos < k"
      unfolding nxt after_def using near by (intro before_seq_at) auto
    then have room: "k = ?pos \<or> k - ?pos < available_window c"
      using win False start dist by auto
    let ?a = "min (length p) (available_window c - (k - ?pos))"
    have ch: "rsm_payload ?ch = take ?a p" "rsm_seq ?ch = ?seq"
      "rsm_fin ?ch \<longrightarrow> fin \<and> length p \<le> ?a"
      by (simp_all add: insert_chunk_def Let_def data start dist)
    then have "piece S e k (rsm_payload ?ch) (rsm_fin ?ch)"
      using piece_take [OF p, of ?a] by (auto simp: piece_def)
    moreover have "k + length (rsm_payload ?ch) \<le> ?pos + u16_max"
      using ch(1) room cap False by auto
    ultimately show ?thesis
      using ch(2) False by (auto simp: rsm_at_def intro!: exI [of _ k])
  qed
qed

lemma insert_received_receiving:
  assumes rec: "receiving b S e R n c" and inv: "recv_inv c" and p: "piece S e k p fin"
    and near: "k < recv_pos c n + 2 ^ 30" "recv_pos c n < k + 2 ^ 30"
  shows "receiving b S e R n (insert_received (seq_at b k) p fin cfg c)"
proof -
  let ?ch = "insert_chunk (seq_at b k) p fin c"
  have del: "delivered b S e R n c" using rec by (simp add: receiving_def)
  have "receiving b S e R n (c\<lparr>reassembly := reassembly c @ [?ch]\<rparr>)"
    if "rsm_at b S e (recv_pos c n) (recv_pos c n + u16_max) ?ch"
    using rec that by (auto simp: receiving_def delivered_def recv_pos_def)
  then show ?thesis
    using rec insert_chunk_piece [OF del inv p near]
    by (auto simp only: insert_received_eq split: if_split)
qed

section \<open>Draining\<close>

text \<open>
  Between the rounds of the loop the segments lie in a band of the stream that the loop does not
  leave; \<open>lo\<close> is the position at which the loop started.
\<close>

definition draining ::
  "config \<Rightarrow> u32 \<Rightarrow> bytes \<Rightarrow> bool \<Rightarrow> bytes \<Rightarrow> nat \<Rightarrow> nat \<Rightarrow> 'p connection \<Rightarrow> bool" where
  "draining cfg b S e R n0 lo c \<longleftrightarrow>
     recv_inv c \<and> receive_capacity c = receive_buffer cfg \<and>
     (\<exists>n. n0 \<le> n \<and> delivered b S e R n c \<and> lo \<le> recv_pos c n \<and> recv_pos c n \<le> lo + u16_max + 1 \<and>
       (\<forall>r \<in> set (reassembly c). rsm_at b S e lo (lo + u16_max) r))"

lemma drain_no_leftover:
  assumes "recv_inv c" "receive_capacity c = receive_buffer cfg" "reassembly c = pre @ s0 # post"
  shows "length (rsm_payload (drain_trim c s0)) \<le> receive_buffer cfg - length (recv_queue c)"
  using assms drain_trim_length [of c s0] by (auto simp: recv_inv_def)

lemma rsm_end_at: "rsm_seq r = seq_at b k \<Longrightarrow>
    rsm_end_seq r = seq_at b (k + length (rsm_payload r) + (if rsm_fin r then 1 else 0))"
  by (simp add: rsm_end_seq_def seq_at_def)

text \<open>
  A segment that the loop takes, and that its filter left in place, continues the stream at the
  next expected byte once its stale front is cut off.
\<close>

lemma drain_trim_piece:
  assumes del: "delivered b S e R n c"
    and k: "rsm_seq r = seq_at b k" "lo \<le> k" "k + length (rsm_payload r) \<le> lo + u16_max"
      "piece S e k (rsm_payload r) (rsm_fin r)"
    and band: "lo \<le> recv_pos c n" "recv_pos c n \<le> lo + u16_max + 1"
    and nxt: "drain_next c r" and live: "\<not> before_or_equal (rsm_end_seq r) (recv_nxt c)"
  shows "\<not> read_closed c \<and> rsm_seq (drain_trim c r) = recv_nxt c \<and>
    rsm_fin (drain_trim c r) = rsm_fin r \<and>
    piece S e n (rsm_payload (drain_trim c r)) (rsm_fin r) \<and>
    n + length (rsm_payload (drain_trim c r)) = k + length (rsm_payload r)"
proof -
  let ?pos = "recv_pos c n" and ?len = "length (rsm_payload r)"
  let ?stop = "k + ?len + (if rsm_fin r then 1 else 0)"
  have pos: "recv_nxt c = seq_at b ?pos" using del by (simp add: delivered_def)
  have near: "k < ?pos + 2 ^ 31" "?pos < k + 2 ^ 31" "?stop < ?pos + 2 ^ 31" "?pos < ?stop + 2 ^ 31"
    using k band by (auto simp: u16_max_def)
  have bef: "before (rsm_seq r) (recv_nxt c) \<longleftrightarrow> k < ?pos"
    unfolding k(1) pos using near by (intro before_seq_at) auto
  have "rsm_seq r = recv_nxt c \<longleftrightarrow> k = ?pos"
    unfolding k(1) pos using near by (intro seq_at_inj) auto
  with nxt bef have le: "k \<le> ?pos" by auto
  have "before (rsm_end_seq r) (recv_nxt c) \<longleftrightarrow> ?stop < ?pos"
    unfolding rsm_end_at [OF k(1)] pos using near by (intro before_seq_at) auto
  moreover have "rsm_end_seq r = recv_nxt c \<longleftrightarrow> ?stop = ?pos"
    unfolding rsm_end_at [OF k(1)] pos using near by (intro seq_at_inj) auto
  ultimately have lt: "?pos < ?stop" using live by (auto simp: before_or_equal_def)
  have open_: "\<not> read_closed c"
  proof
    assume "read_closed c"
    then have "?pos = length S + 1" using del by (simp add: recv_pos_def delivered_def)
    with lt k(4) show False by (auto simp: piece_def split: if_splits)
  qed
  then have n: "?pos = n" by (simp add: recv_pos_def)
  then have in_r: "n - k \<le> ?len" using lt by (auto split: if_splits)
  have dist: "distance (rsm_seq r) (recv_nxt c) = n - k"
    unfolding k(1) pos n using le near n by (intro distance_seq_at) auto
  have trim: "rsm_seq (drain_trim c r) = recv_nxt c" "rsm_fin (drain_trim c r) = rsm_fin r"
    "rsm_payload (drain_trim c r) = drop (n - k) (rsm_payload r)"
    using le n bef in_r k(1) pos dist by (auto simp: drain_trim_def Let_def min_absorb1)
  have "piece S e n (drop (n - k) (rsm_payload r)) (rsm_fin r)"
    using piece_drop [OF k(4) in_r] le n by simp
  with trim open_ in_r le n show ?thesis by simp
qed

lemma on_remote_fin_delivered:
  assumes "delivered b S e R n c" "\<not> read_closed c" "e" "n = length S"
  shows "delivered b S e R n (on_remote_fin now cfg (c\<lparr>recv_nxt := recv_nxt c + 1\<rparr>))"
  using assms by (simp add: delivered_def recv_pos_def seq_at_def)

lemma draining_round:
  assumes dr: "draining cfg b S e R n0 lo c" and split: "reassembly c = pre @ s0 # post"
    and nxt: "drain_next c s0"
    and live: "\<forall>r \<in> set (reassembly c). \<not> before_or_equal (rsm_end_seq r) (recv_nxt c)"
  shows "let s = drain_trim c s0; c2 = drain_take cfg c pre s post
    in draining cfg b S e R n0 lo
      (if rsm_fin s then on_remote_fin now cfg (c2\<lparr>recv_nxt := recv_nxt c2 + 1\<rparr>) else c2)"
proof -
  obtain n where n: "n0 \<le> n" "delivered b S e R n c" "lo \<le> recv_pos c n"
    "recv_pos c n \<le> lo + u16_max + 1" "\<forall>r \<in> set (reassembly c). rsm_at b S e lo (lo + u16_max) r"
    using dr by (auto simp: draining_def)
  let ?s = "drain_trim c s0"
  let ?c2 = "drain_take cfg c pre ?s post"
  let ?n = "n + length (rsm_payload ?s)"
  obtain k where k: "rsm_seq s0 = seq_at b k" "lo \<le> k" "k + length (rsm_payload s0) \<le> lo + u16_max"
    "piece S e k (rsm_payload s0) (rsm_fin s0)"
    using n(5) split by (auto simp: rsm_at_def)
  have tr: "\<not> read_closed c" "rsm_seq ?s = recv_nxt c" "rsm_fin ?s = rsm_fin s0"
    "piece S e n (rsm_payload ?s) (rsm_fin s0)" "?n \<le> lo + u16_max"
    using drain_trim_piece [OF n(2) k n(3,4) nxt] k(3) live split by auto
  have fits: "length (rsm_payload ?s) \<le> receive_buffer cfg - length (recv_queue c)"
    using dr drain_no_leftover [OF _ _ split] by (auto simp: draining_def)
  have c2: "recv_queue ?c2 = recv_queue c @ rsm_payload ?s" "reassembly ?c2 = pre @ post"
    "recv_nxt ?c2 = recv_nxt c + of_nat (length (rsm_payload ?s))" "read_closed ?c2 = read_closed c"
    "receive_capacity ?c2 = receive_capacity c"
    using fits by (simp_all add: drain_take_def Let_def min_absorb2)
  have inv2: "recv_inv ?c2"
    using dr split by (intro drain_take_bytes(1)) (auto simp: draining_def)
  have del2: "delivered b S e R ?n ?c2"
    using n(2) tr(1,4) piece_append [OF tr(4)]
    by (auto simp: delivered_def c2 recv_pos_def piece_def simp flip: append_assoc)
  have segs: "\<forall>r \<in> set (reassembly ?c2). rsm_at b S e lo (lo + u16_max) r"
    using n(5) split c2(2) by auto
  show ?thesis
  proof (cases "rsm_fin s0")
    case False
    then show ?thesis
      using inv2 del2 segs dr n(1,3) tr(1,5) c2
      by (auto simp: Let_def tr(3) draining_def recv_pos_def intro!: exI [of _ ?n])
  next
    case True
    let ?c3 = "on_remote_fin now cfg (?c2\<lparr>recv_nxt := recv_nxt ?c2 + 1\<rparr>)"
    have fin: "e" "?n = length S" using True tr(4) by (auto simp: piece_def)
    have "delivered b S e R ?n ?c3"
      using del2 fin tr(1) c2(4) by (intro on_remote_fin_delivered) auto
    moreover have "recv_inv ?c3" using inv2 by (simp add: recv_inv_def)
    ultimately show ?thesis
      using segs dr n(1,3) tr(1,3,5) c2 True
      by (auto simp: Let_def draining_def recv_pos_def intro!: exI [of _ ?n])
  qed
qed

lemma receiving_draining:
  assumes "receiving b S e R n c" "recv_inv c" "receive_capacity c = receive_buffer cfg"
  shows "draining cfg b S e R n (recv_pos c n) c"
  using assms by (auto simp: receiving_def draining_def intro!: exI [of _ n])

lemma draining_retain:
  "draining cfg b S e R n0 lo c \<Longrightarrow> draining cfg b S e R n0 lo (drain_retain c)"
proof -
  assume dr: "draining cfg b S e R n0 lo c"
  then have inv: "recv_inv (drain_retain c)"
    using reassembly_bytes_filter [of _ "reassembly c"]
    by (auto simp: draining_def recv_inv_def drain_retain_def) (meson add_left_mono le_trans)
  obtain n where "n0 \<le> n" "delivered b S e R n c" "lo \<le> recv_pos c n"
    "recv_pos c n \<le> lo + u16_max + 1" "\<forall>r \<in> set (reassembly c). rsm_at b S e lo (lo + u16_max) r"
    using dr by (auto simp: draining_def)
  then have "n0 \<le> n \<and> delivered b S e R n (drain_retain c) \<and> lo \<le> recv_pos (drain_retain c) n \<and>
    recv_pos (drain_retain c) n \<le> lo + u16_max + 1 \<and>
    (\<forall>r \<in> set (reassembly (drain_retain c)). rsm_at b S e lo (lo + u16_max) r)"
    by (simp add: drain_retain_def delivered_def recv_pos_def)
  moreover have "receive_capacity (drain_retain c) = receive_buffer cfg"
    using dr by (simp add: draining_def drain_retain_def)
  ultimately show ?thesis
    using inv unfolding draining_def by blast
qed

text \<open>Where the loop stops, every segment that is left lies beyond the delivered bytes.\<close>

lemma draining_stop:
  assumes dr: "draining cfg b S e R n0 lo c" and stop: "\<forall>r \<in> set (reassembly c). \<not> drain_next c r"
  shows "\<exists>n \<ge> n0. receiving b S e R n c \<and> recv_inv c \<and>
    (\<forall>r \<in> set (reassembly c). rsm_at b S e (recv_pos c n + 1) (recv_pos c n + u16_max) r)"
proof -
  obtain n where n: "n0 \<le> n" "delivered b S e R n c" "lo \<le> recv_pos c n"
    "recv_pos c n \<le> lo + u16_max + 1" "\<forall>r \<in> set (reassembly c). rsm_at b S e lo (lo + u16_max) r"
    using dr by (auto simp: draining_def)
  have beyond: "rsm_at b S e (recv_pos c n + 1) (recv_pos c n + u16_max) r"
    if "r \<in> set (reassembly c)" for r
  proof -
    obtain k where k: "rsm_seq r = seq_at b k" "lo \<le> k" "k + length (rsm_payload r) \<le> lo + u16_max"
      "piece S e k (rsm_payload r) (rsm_fin r)"
      using n(5) \<open>r \<in> set (reassembly c)\<close> by (auto simp: rsm_at_def)
    have pos: "recv_nxt c = seq_at b (recv_pos c n)" using n(2) by (simp add: delivered_def)
    have near: "k < recv_pos c n + 2 ^ 31" "recv_pos c n < k + 2 ^ 31"
      using k n(3,4) by (auto simp: u16_max_def)
    have "before (rsm_seq r) (recv_nxt c) \<longleftrightarrow> k < recv_pos c n"
      unfolding k(1) pos using near by (intro before_seq_at) auto
    moreover have "rsm_seq r = recv_nxt c \<longleftrightarrow> k = recv_pos c n"
      unfolding k(1) pos using near by (intro seq_at_inj) auto
    ultimately have "recv_pos c n < k"
      using stop \<open>r \<in> set (reassembly c)\<close> by (metis linorder_neqE_nat)
    with k n(3) show ?thesis by (auto simp: rsm_at_def intro!: exI [of _ k])
  qed
  then have "receiving b S e R n c"
    using n(2) by (auto simp: receiving_def intro!: rsm_at_mono [OF beyond])
  with beyond n(1) dr show ?thesis by (auto simp: draining_def)
qed

text \<open>
  Progress. A segment that starts where the loop started is consumed to its end \<open>E\<close>: it is in the
  list until the position has reached \<open>E\<close>, and the loop cannot stop while it is.
\<close>

definition heading :: "bytes \<Rightarrow> u32 \<Rightarrow> nat \<Rightarrow> nat \<Rightarrow> 'p connection \<Rightarrow> bool" where
  "heading R b lo E c \<longleftrightarrow>
     E \<le> recv_pos c (length R + length (recv_queue c)) \<or>
     (\<exists>r \<in> set (reassembly c). rsm_seq r = seq_at b lo \<and>
        E = lo + length (rsm_payload r) + (if rsm_fin r then 1 else 0))"

lemma delivered_count: "delivered b S e R n c \<Longrightarrow> n = length R + length (recv_queue c)"
  unfolding delivered_def by (metis length_append length_take min.absorb2)

lemma seq_at_near: "seq_at b k = seq_at b m \<Longrightarrow> m \<le> k \<Longrightarrow> k \<le> m + u16_max \<Longrightarrow> k = m"
  by (subst (asm) seq_at_inj) (auto simp: u16_max_def)

lemma heading_retain:
  assumes dr: "draining cfg b S e R n0 lo c" and hd: "heading R b lo E c"
  shows "heading R b lo E (drain_retain c)"
proof -
  obtain n where n: "delivered b S e R n c" "lo \<le> recv_pos c n" "recv_pos c n \<le> lo + u16_max + 1"
    "\<forall>r \<in> set (reassembly c). rsm_at b S e lo (lo + u16_max) r"
    using dr by (auto simp: draining_def)
  have pos: "recv_nxt c = seq_at b (recv_pos c n)" using n(1) by (simp add: delivered_def)
  have keep: "recv_pos (drain_retain c) m = recv_pos c m" "recv_queue (drain_retain c) = recv_queue c" for m
    by (simp_all add: drain_retain_def recv_pos_def)
  have "E \<le> recv_pos c n \<or> r \<in> set (reassembly (drain_retain c))"
    if r: "r \<in> set (reassembly c)" "rsm_seq r = seq_at b lo"
      "E = lo + length (rsm_payload r) + (if rsm_fin r then 1 else 0)" for r
  proof (cases "before_or_equal (rsm_end_seq r) (recv_nxt c)")
    case False
    then show ?thesis using r(1) by (simp add: drain_retain_def)
  next
    case True
    obtain k where k: "rsm_seq r = seq_at b k" "lo \<le> k" "k + length (rsm_payload r) \<le> lo + u16_max"
      using n(4) r(1) by (auto simp: rsm_at_def)
    have "k = lo" using seq_at_near [of b k lo] k r(2) by simp
    then have len: "length (rsm_payload r) \<le> u16_max" using k(3) by simp
    have near: "E < recv_pos c n + 2 ^ 31" "recv_pos c n < E + 2 ^ 31"
      using r(3) len n(2,3) by (auto simp: u16_max_def)
    have "before (rsm_end_seq r) (recv_nxt c) \<longleftrightarrow> E < recv_pos c n"
      unfolding rsm_end_at [OF r(2)] pos r(3) [symmetric] using near by (intro before_seq_at) auto
    moreover have "rsm_end_seq r = recv_nxt c \<longleftrightarrow> E = recv_pos c n"
      unfolding rsm_end_at [OF r(2)] pos r(3) [symmetric] using near by (intro seq_at_inj) auto
    ultimately show ?thesis using True by (auto simp: before_or_equal_def)
  qed
  then show ?thesis
    using hd unfolding heading_def keep delivered_count [OF n(1), symmetric] by blast
qed

lemma heading_round:
  assumes dr: "draining cfg b S e R n0 lo c" and split: "reassembly c = pre @ s0 # post"
    and nxt: "drain_next c s0"
    and live: "\<forall>r \<in> set (reassembly c). \<not> before_or_equal (rsm_end_seq r) (recv_nxt c)"
    and hd: "heading R b lo E c"
  shows "let s = drain_trim c s0; c2 = drain_take cfg c pre s post
    in heading R b lo E
      (if rsm_fin s then on_remote_fin now cfg (c2\<lparr>recv_nxt := recv_nxt c2 + 1\<rparr>) else c2)"
proof -
  obtain n where n: "delivered b S e R n c" "lo \<le> recv_pos c n" "recv_pos c n \<le> lo + u16_max + 1"
    "\<forall>r \<in> set (reassembly c). rsm_at b S e lo (lo + u16_max) r"
    using dr by (auto simp: draining_def)
  obtain k where k: "rsm_seq s0 = seq_at b k" "lo \<le> k" "k + length (rsm_payload s0) \<le> lo + u16_max"
    "piece S e k (rsm_payload s0) (rsm_fin s0)"
    using n(4) split by (auto simp: rsm_at_def)
  let ?s = "drain_trim c s0"
  let ?c2 = "drain_take cfg c pre ?s post"
  let ?c3 = "if rsm_fin ?s then on_remote_fin now cfg (?c2\<lparr>recv_nxt := recv_nxt ?c2 + 1\<rparr>) else ?c2"
  have tr: "\<not> read_closed c" "rsm_fin ?s = rsm_fin s0"
    "n + length (rsm_payload ?s) = k + length (rsm_payload s0)"
    using drain_trim_piece [OF n(1) k n(2,3) nxt] live split by auto
  have fits: "length (rsm_payload ?s) \<le> receive_buffer cfg - length (recv_queue c)"
    using dr drain_no_leftover [OF _ _ split] by (auto simp: draining_def)
  have c3: "reassembly ?c3 = pre @ post"
      "recv_pos ?c3 (length R + length (recv_queue ?c3)) =
        k + length (rsm_payload s0) + (if rsm_fin s0 then 1 else 0)"
    using fits tr delivered_count [OF n(1)]
    by (simp_all add: drain_take_def Let_def min_absorb2 recv_pos_def)
  have mono: "recv_pos c n \<le> recv_pos ?c3 (length R + length (recv_queue ?c3))"
    using tr(1,3) unfolding c3(2) by (simp add: recv_pos_def)
  have "heading R b lo E ?c3"
  proof (cases "E \<le> recv_pos c n")
    case True
    with mono show ?thesis unfolding heading_def by linarith
  next
    case False
    then obtain r where r: "r \<in> set (reassembly c)" "rsm_seq r = seq_at b lo"
      "E = lo + length (rsm_payload r) + (if rsm_fin r then 1 else 0)"
      using hd delivered_count [OF n(1)] unfolding heading_def by auto
    show ?thesis
    proof (cases "r = s0")
      case True
      have "k = lo" using seq_at_near [of b k lo] k(1,2,3) r(2) True by simp
      then show ?thesis using r(3) True c3(2) unfolding heading_def by simp
    next
      case False
      then have "r \<in> set (reassembly ?c3)" using r(1) split c3(1) by simp
      then show ?thesis using r(2,3) unfolding heading_def by blast
    qed
  qed
  then show ?thesis by (simp only: Let_def)
qed

lemma heading_stop:
  assumes "draining cfg b S e R n0 lo c" "\<forall>r \<in> set (reassembly c). \<not> drain_next c r" "heading R b lo E c"
  shows "E \<le> recv_pos c (length R + length (recv_queue c))"
proof (rule ccontr)
  assume "\<not> ?thesis"
  then obtain r where r: "r \<in> set (reassembly c)" "rsm_seq r = seq_at b lo"
    using assms(3) by (auto simp: heading_def)
  obtain n where n: "delivered b S e R n c" "lo \<le> recv_pos c n" "recv_pos c n \<le> lo + u16_max + 1"
    using assms(1) by (auto simp: draining_def)
  have pos: "recv_nxt c = seq_at b (recv_pos c n)" using n(1) by (simp add: delivered_def)
  have near: "lo < recv_pos c n + 2 ^ 31" "recv_pos c n < lo + 2 ^ 31"
    using n(2,3) by (auto simp: u16_max_def)
  have "before (rsm_seq r) (recv_nxt c) \<longleftrightarrow> lo < recv_pos c n"
    unfolding r(2) pos using near by (intro before_seq_at) auto
  then have "lo = recv_pos c n" using n(2) assms(2) r(1) by auto
  then show False using assms(2) r pos by auto
qed

lemma drain_receiving:
  assumes rec: "receiving b S e R n c" and inv: "recv_inv c" "receive_capacity c = receive_buffer cfg"
    and hd: "heading R b (recv_pos c n) E c"
  shows "\<exists>n' \<ge> n. receiving b S e R n' (drain_reassembly now cfg c) \<and>
    E \<le> recv_pos (drain_reassembly now cfg c) n' \<and>
    (\<forall>r \<in> set (reassembly (drain_reassembly now cfg c)).
       rsm_at b S e (recv_pos (drain_reassembly now cfg c) n' + 1)
         (recv_pos (drain_reassembly now cfg c) n' + u16_max) r)"
proof -
  define lo where "lo = recv_pos c n"
  have "draining cfg b S e R n lo c \<and> heading R b lo E c"
    using receiving_draining [OF rec inv] hd by (simp add: lo_def)
  then show ?thesis
  proof (induction rule: drain_rule)
    case (retain c)
    then show ?case using draining_retain heading_retain by blast
  next
    case (stop c)
    then obtain n' where n': "n \<le> n'" "receiving b S e R n' c"
      "\<forall>r \<in> set (reassembly c). rsm_at b S e (recv_pos c n' + 1) (recv_pos c n' + u16_max) r"
      using draining_stop by blast
    moreover have "n' = length R + length (recv_queue c)"
      using n'(2) unfolding receiving_def by (blast intro: delivered_count)
    ultimately show ?case using heading_stop stop by blast
  next
    case (leftover c pre s0 post)
    then have "length (rsm_payload (drain_trim c s0)) \<le> receive_buffer cfg - length (recv_queue c)"
      by (intro drain_no_leftover) (auto simp: draining_def)
    then show ?case by (simp add: Let_def)
  next
    case (round c pre s0 post)
    then show ?case
      using draining_round [of cfg b S e R n lo c pre s0 post now]
        heading_round [of cfg b S e R n lo c pre s0 post E now]
      unfolding Let_def by blast
  qed
qed

section \<open>One segment\<close>

lemma heading_trivial: "delivered b S e R n c \<Longrightarrow> heading R b lo (recv_pos c n) c"
  unfolding heading_def by (drule delivered_count) simp

lemma insert_received_keeps [simp]:
  "recv_pos (insert_received seq p fin cfg c) n = recv_pos c n"
  "receive_capacity (insert_received seq p fin cfg c) = receive_capacity c"
  "recv_queue (insert_received seq p fin cfg c) = recv_queue c"
  by (cases rule: insert_received_cases [of seq p fin cfg c]; simp add: recv_pos_def)+

lemma receive_pieces:
  assumes rec: "receiving b S e R n c" and inv: "recv_inv c" "receive_capacity c = receive_buffer cfg"
    and seq: "seg_seq s = seq_at b k"
    and p: "piece S e k (seg_payload s) (contains (seg_flags s) FIN)"
    and near: "k < recv_pos c n + 2 ^ 30" "recv_pos c n < k + 2 ^ 30"
  shows "\<exists>n' \<ge> n. receiving b S e R n' (snd (receive_stream_data s now cfg c))"
proof -
  let ?c1 = "insert_received (seg_seq s) (seg_payload s) (contains (seg_flags s) FIN) cfg c"
  have rec1: "receiving b S e R n ?c1"
    using insert_received_receiving [OF rec inv(1) p near] seq by simp
  have "heading R b (recv_pos ?c1 n) (recv_pos ?c1 n) ?c1"
    using rec1 heading_trivial unfolding receiving_def by blast
  then show ?thesis
    using drain_receiving [OF rec1 insert_received_recv_inv [OF inv(1)], of cfg "recv_pos ?c1 n" now] inv(2)
    by (auto simp: receive_stream_data_def Let_def)
qed

text \<open>
  The next expected byte. A segment that holds it, when the window is open and the reassembly
  list has room, is delivered up to its end or up to the end of the window.
\<close>

lemma insert_chunk_next:
  assumes del: "delivered b S e R n c" and p: "piece S e k p fin"
    and nx: "k \<le> recv_pos c n" "recv_pos c n < k + length p + (if fin then 1 else 0)"
      "recv_pos c n < k + 2 ^ 30"
  shows "\<not> read_closed c \<and> rsm_seq (insert_chunk (seq_at b k) p fin c) = recv_nxt c \<and>
    insert_start (seq_at b k) c = recv_nxt c \<and>
    rsm_payload (insert_chunk (seq_at b k) p fin c) =
      take (available_window c) (drop (n - k) p) \<and>
    rsm_fin (insert_chunk (seq_at b k) p fin c) = (fin \<and> k + length p - n \<le> available_window c)"
proof -
  let ?pos = "recv_pos c n" and ?seq = "seq_at b k"
  have nxt: "recv_nxt c = seq_at b ?pos" using del by (simp add: delivered_def)
  have open_: "\<not> read_closed c"
    using del p nx by (auto simp: recv_pos_def delivered_def piece_def split: if_splits)
  then have pos: "?pos = n" by (simp add: recv_pos_def)
  have bef: "before ?seq (recv_nxt c) \<longleftrightarrow> k < n"
    unfolding nxt pos using nx pos by (intro before_seq_at) auto
  have dist: "distance ?seq (recv_nxt c) = n - k"
    unfolding nxt pos using nx pos by (intro distance_seq_at) auto
  have start: "insert_start ?seq c = recv_nxt c"
    using bef nxt nx(1) pos by (auto simp: insert_start_def)
  have data: "insert_data ?seq p c = drop (n - k) p"
    using bef dist nx(1) pos by (auto simp: insert_data_def)
  have len: "n - k \<le> length p" using nx pos by (auto split: if_splits)
  have endp: "seq_at b k + of_nat (length p) = recv_nxt c + of_nat (length p - (n - k))"
  proof -
    have "n + (length p - (n - k)) = k + length p" using len nx(1) pos by simp
    then show ?thesis by (simp only: nxt pos seq_at_add)
  qed
  show ?thesis
    using open_ start data len endp nx(1) pos
    by (auto simp: insert_chunk_def Let_def min_def)
qed

lemma receive_next:
  assumes rec: "receiving b S e R n c" and inv: "recv_inv c" "receive_capacity c = receive_buffer cfg"
    and seq: "seg_seq s = seq_at b k"
    and p: "piece S e k (seg_payload s) (contains (seg_flags s) FIN)"
    and nx: "k \<le> recv_pos c n" "recv_pos c n < k + 2 ^ 30"
      "recv_pos c n < k + length (seg_payload s) + (if contains (seg_flags s) FIN then 1 else 0)"
    and room: "length (reassembly c) < max_reassembly_segments cfg"
  shows "\<exists>n'. receiving b S e R n' (snd (receive_stream_data s now cfg c)) \<and>
    (if k + length (seg_payload s) - n \<le> available_window c
     then k + length (seg_payload s) + (if contains (seg_flags s) FIN then 1 else 0)
     else n + available_window c)
    \<le> recv_pos (snd (receive_stream_data s now cfg c)) n'"
proof -
  let ?p = "seg_payload s" and ?fin = "contains (seg_flags s) FIN" and ?w = "available_window c"
  let ?ch = "insert_chunk (seg_seq s) ?p ?fin c"
  let ?c1 = "insert_received (seg_seq s) ?p ?fin cfg c"
  let ?E = "if k + length ?p - n \<le> ?w then k + length ?p + (if ?fin then 1 else 0) else n + ?w"
  have del: "delivered b S e R n c" using rec by (simp add: receiving_def)
  have ch: "\<not> read_closed c" "rsm_seq ?ch = recv_nxt c" "insert_start (seg_seq s) c = recv_nxt c"
    "rsm_payload ?ch = take ?w (drop (n - k) ?p)" "rsm_fin ?ch = (?fin \<and> k + length ?p - n \<le> ?w)"
    using insert_chunk_next [OF del p nx(1,3,2)] by (simp_all add: seq)
  have pos: "recv_pos c n = n" using ch(1) by (simp add: recv_pos_def)
  have E: "?E = n + length (rsm_payload ?ch) + (if rsm_fin ?ch then 1 else 0)"
  proof -
    have "length (drop (n - k) ?p) = k + length ?p - n" "k + length ?p - n + n = k + length ?p"
      using nx(1,3) pos by (auto split: if_splits)
    then show ?thesis unfolding ch(4,5) by (auto simp: min_def simp del: length_drop)
  qed
  have near: "k < recv_pos c n + 2 ^ 30" using nx(1) by simp
  have rec1: "receiving b S e R n ?c1"
    using insert_received_receiving [OF rec inv(1) p near nx(2)] seq by simp
  have nxt: "recv_nxt c = seq_at b n" using del pos by (simp add: delivered_def)
  have cap: "?w \<le> u16_max" using inv(1) by (auto simp: available_window_eq recv_inv_def)
  have "heading R b n ?E ?c1"
  proof (cases "rsm_payload ?ch = [] \<and> \<not> rsm_fin ?ch")
    case True
    then have "?E = recv_pos ?c1 (length R + length (recv_queue ?c1))"
      using E pos delivered_count [OF del] by simp
    then show ?thesis by (simp add: heading_def)
  next
    case some: False
    show ?thesis
    proof (cases "list_ex (\<lambda>r. rsm_seq r = rsm_seq ?ch \<and> rsm_end_seq r = rsm_end_seq ?ch) (reassembly c)")
      case False
      then have "?c1 = c\<lparr>reassembly := reassembly c @ [?ch]\<rparr>"
        using some room ch(3) by (simp add: insert_received_eq)
      then show ?thesis using E ch(2) nxt unfolding heading_def by auto
    next
      case True
      then obtain r where r: "r \<in> set (reassembly c)" "rsm_seq r = recv_nxt c"
        "rsm_end_seq r = rsm_end_seq ?ch"
        using ch(2) by (auto simp: list_ex_iff)
      have same: "?c1 = c" using True by (simp add: insert_received_eq)
      let ?F = "n + length (rsm_payload r) + (if rsm_fin r then 1 else 0)"
      obtain k' where k': "rsm_seq r = seq_at b k'" "n \<le> k'" "k' + length (rsm_payload r) \<le> n + u16_max"
        using rec r(1) pos by (auto simp: receiving_def rsm_at_def)
      have "k' = n" using seq_at_near [of b k' n] k' r(2) nxt by simp
      then have len: "length (rsm_payload r) \<le> u16_max" using k'(3) by simp
      have "seq_at b ?F = seq_at b ?E"
        using r(3) rsm_end_at [of r b n] rsm_end_at [of ?ch b n] r(2) ch(2) nxt E by simp
      then have "?F = ?E"
        using len cap unfolding E ch(4) by (subst (asm) seq_at_inj) (auto simp: u16_max_def)
      then show ?thesis using r(1,2) nxt unfolding heading_def same by (auto intro!: bexI [of _ r])
    qed
  qed
  then show ?thesis
    using drain_receiving [OF rec1 insert_received_recv_inv [OF inv(1)], of cfg ?E now] inv(2) pos
    by (auto simp: receive_stream_data_def Let_def)
qed

end
