(* ===== verification/Receive_Props.thy ===== *)
theory Receive_Props
  imports Conn_System Delivery
begin

text \<open>
  The properties of the receiving half, evaluated on an open connection: what is delivered is a
  prefix of the peer's stream, the next expected byte is delivered when it arrives, the buffers
  stay within the receive buffer, and what happens when the reassembly list is full.
\<close>

section \<open>Delivery\<close>

lemma conn_inv_receive:
  "conn_inv cfg c \<Longrightarrow> recv_inv c" "conn_inv cfg c \<Longrightarrow> receive_capacity c = receive_buffer cfg"
  by (simp_all add: conn_inv_def phase_inv_def param_inv_def)

lemma example_open_receiving: "receiving 5001 [] False [] 0 example_open"
  by (simp add: receiving_def delivered_def recv_pos_def example_open_eq)

definition example_data :: segment where
  "example_data = (segment_new 80 49152 5003)\<lparr>seg_flags := ACK OR PSH, seg_ack := Some 1001,
     seg_window := 4096, seg_payload := [30, 40]\<rparr>"

text \<open>
  Whatever pieces of the peer's stream arrive, in whatever order, overlapping or repeated, the
  bytes handed to the application followed by those waiting in the receive queue are a prefix of
  that stream, never shorter than before, and the end of the stream is reported only when all of
  it has been delivered. The segments may be up to \<open>2 ^ 30\<close> bytes older or newer than the receiver's
  position.
\<close>

theorem delivered_prefix:
  assumes "receiving b S e R n c" "conn_inv cfg c" "seg_seq s = seq_at b k"
    "piece S e k (seg_payload s) (contains (seg_flags s) FIN)"
    "k < recv_pos c n + 2 ^ 30" "recv_pos c n < k + 2 ^ 30"
  shows "\<exists>n' \<ge> n. receiving b S e R n' (snd (receive_stream_data s now cfg c)) \<and>
    R @ recv_queue (snd (receive_stream_data s now cfg c)) = take n' S \<and>
    (read_closed (snd (receive_stream_data s now cfg c)) \<longrightarrow> e \<and> n' = length S)"
  using receive_pieces [OF assms(1) conn_inv_receive [OF assms(2)] assms(3-6), of now]
  by (auto simp: receiving_def delivered_def)

theorem delivered_prefix_witness:
  "\<exists>n' \<ge> 0. receiving 5001 [10, 20, 30, 40] False [] n'
      (snd (receive_stream_data example_data 30 config_default example_open)) \<and>
    [] @ recv_queue (snd (receive_stream_data example_data 30 config_default example_open))
      = take n' [10, 20, 30, 40] \<and>
    (read_closed (snd (receive_stream_data example_data 30 config_default example_open)) \<longrightarrow>
       False \<and> n' = length [10, 20, 30, 40 :: u8])"
proof (rule delivered_prefix [OF _ example_open_inv, where k = 2])
  show "receiving 5001 [10, 20, 30, 40] False [] 0 example_open"
    using receiving_grow [OF example_open_receiving, of "[10, 20, 30, 40]" False] by simp
qed (simp_all add: example_data_def segment_new_def seq_at_def piece_def recv_pos_def)

text \<open>
  A segment that holds the next expected byte is delivered: when it arrives and the reassembly
  list has room, the position of the receiver moves to the end of the segment, its FIN included, or
  as far as the advertised window reaches.
\<close>

theorem next_byte_delivered:
  assumes "receiving b S e R n c" "conn_inv cfg c" "seg_seq s = seq_at b k"
    "piece S e k (seg_payload s) (contains (seg_flags s) FIN)"
    "k \<le> recv_pos c n" "recv_pos c n < k + 2 ^ 30"
    "recv_pos c n < k + length (seg_payload s) + (if contains (seg_flags s) FIN then 1 else 0)"
    "length (reassembly c) < max_reassembly_segments cfg"
  shows "\<exists>n'. receiving b S e R n' (snd (receive_stream_data s now cfg c)) \<and>
    (if k + length (seg_payload s) - n \<le> available_window c
     then k + length (seg_payload s) + (if contains (seg_flags s) FIN then 1 else 0)
     else n + available_window c)
    \<le> recv_pos (snd (receive_stream_data s now cfg c)) n'"
  by (rule receive_next [OF assms(1) conn_inv_receive [OF assms(2)] assms(3-8)])

definition example_next :: segment where
  "example_next = (segment_new 80 49152 5001)\<lparr>seg_flags := FIN OR ACK, seg_ack := Some 1001,
     seg_window := 4096, seg_payload := [10, 20]\<rparr>"

lemma example_open_window: "available_window example_open = 65535"
  by (simp add: example_open_eq available_window_def sat_add64_def u64_max_def)

theorem next_byte_delivered_witness:
  "\<exists>n'. receiving 5001 [10, 20] True [] n'
      (snd (receive_stream_data example_next 30 config_default example_open)) \<and>
    (3 :: nat) \<le> recv_pos (snd (receive_stream_data example_next 30 config_default example_open)) n'"
proof -
  have rec: "receiving 5001 [10, 20] True [] 0 example_open"
    using receiving_grow [OF example_open_receiving, of "[10, 20]" True] by simp
  have "seg_seq example_next = seq_at 5001 0"
      "piece [10, 20] True 0 (seg_payload example_next) (contains (seg_flags example_next) FIN)"
      "0 \<le> recv_pos example_open 0" "recv_pos example_open 0 < 0 + 2 ^ 30"
      "recv_pos example_open 0 < 0 + length (seg_payload example_next)
        + (if contains (seg_flags example_next) FIN then 1 else 0)"
      "length (reassembly example_open) < max_reassembly_segments config_default"
    by (simp_all add: example_next_def segment_new_def piece_def recv_pos_def example_open_eq
        config_default_def)
  from next_byte_delivered [OF rec example_open_inv this, of 30]
  show ?thesis by (simp add: example_next_def segment_new_def example_open_window
        numeral_3_eq_3)
qed

section \<open>A full reassembly list\<close>

text \<open>
  C32: When the reassembly list is full and the next expected byte is missing, no segment changes
  anything: the segment with the missing byte is refused like every other one, so nothing is ever
  delivered again and the peer retransmits into the void until its budget is used up.
\<close>

theorem full_reassembly_stuck:
  assumes "receiving b S e R n c" "max_reassembly_segments cfg \<le> length (reassembly c)"
    "\<forall>r \<in> set (reassembly c). rsm_at b S e (recv_pos c n + 1) (recv_pos c n + u16_max) r"
  shows "snd (receive_stream_data s now cfg c) = c"
proof -
  have nxt: "recv_nxt c = seq_at b (recv_pos c n)"
    using assms(1) by (simp add: receiving_def delivered_def)
  have beyond: "\<not> drain_next c r \<and> \<not> before_or_equal (rsm_end_seq r) (recv_nxt c)"
    if mem: "r \<in> set (reassembly c)" for r
  proof -
    obtain k where k: "rsm_seq r = seq_at b k" "recv_pos c n < k"
      "k + length (rsm_payload r) \<le> recv_pos c n + u16_max"
      using bspec [OF assms(3) mem] by (auto simp: rsm_at_def)
    have less: "\<not> before (seq_at b j) (recv_nxt c) \<and> seq_at b j \<noteq> recv_nxt c"
      if "recv_pos c n < j" "j \<le> recv_pos c n + u16_max + 1" for j
      using that unfolding nxt by (subst before_seq_at, simp_all add: u16_max_def) (subst seq_at_inj, simp_all)
    show ?thesis
      using less [of k] less [of "k + length (rsm_payload r) + (if rsm_fin r then 1 else 0)"] k
      by (auto simp: rsm_end_at [OF k(1)] before_or_equal_def)
  qed
  have ins: "insert_received (seg_seq s) (seg_payload s) (contains (seg_flags s) FIN) cfg c = c"
    using assms(2) by (simp add: insert_received_eq)
  have ret: "drain_retain c = c"
    using beyond by (simp add: drain_retain_def filter_id_conv)
  have "List.extract (drain_next c) (reassembly c) = None"
    using beyond by (simp add: extract_None_iff)
  then have "drain_reassembly now cfg c = c"
    by (subst drain_reassembly_unfold) (simp add: ret)
  with ins show ?thesis by (simp add: receive_stream_data_def Let_def)
qed

definition example_full :: "nat connection" where
  "example_full = example_open\<lparr>reassembly := [\<lparr>rsm_seq = 5003, rsm_payload = [30], rsm_fin = False\<rparr>]\<rparr>"

theorem full_reassembly_stuck_witness:
  "snd (receive_stream_data (example_next\<lparr>seg_flags := ACK\<rparr>) 30
     (config_default\<lparr>max_reassembly_segments := 1\<rparr>) example_full) = example_full"
proof (rule full_reassembly_stuck)
  have "rsm_at 5001 [10, 20, 30] False 1 65535 \<lparr>rsm_seq = 5003, rsm_payload = [30], rsm_fin = False\<rparr>"
    by (auto simp: rsm_at_def piece_def seq_at_def intro!: exI [of _ 2])
  then show "\<forall>r \<in> set (reassembly example_full). rsm_at 5001 [10, 20, 30] False
      (recv_pos example_full 0 + 1) (recv_pos example_full 0 + u16_max) r"
    and "receiving 5001 [10, 20, 30] False [] 0 example_full"
    by (auto simp: example_full_def recv_pos_def example_open_eq u16_max_def receiving_def
        delivered_def intro: rsm_at_mono)
  show "max_reassembly_segments (config_default\<lparr>max_reassembly_segments := 1\<rparr>)
      \<le> length (reassembly example_full)"
    by (simp add: example_full_def)
qed

section \<open>Bounded memory\<close>

text \<open>
  C31: What a peer can make a connection buffer is bounded: after any segment the bytes in the receive
  queue and in the reassembly list together fit the configured receive buffer, and the window the
  connection advertises is exactly what is left of it.
\<close>

theorem receive_memory_bounded:
  assumes "conn_inv cfg c"
  shows "length (recv_queue (snd (receive_stream_data s now cfg c))) +
      reassembly_bytes (reassembly (snd (receive_stream_data s now cfg c))) \<le> receive_buffer cfg \<and>
    unat (seg_window (ack_segment (snd (receive_stream_data s now cfg c)))) =
      receive_buffer cfg - (length (recv_queue (snd (receive_stream_data s now cfg c))) +
        reassembly_bytes (reassembly (snd (receive_stream_data s now cfg c))))"
proof -
  let ?c = "snd (receive_stream_data s now cfg c)"
  have inv: "recv_inv ?c"
    using conn_inv_receive(1) [OF assms] by (rule receive_stream_data_inv)
  have cap: "receive_capacity ?c = receive_buffer cfg"
    using recv_frameD(11) [OF receive_stream_data_frame] conn_inv_receive(2) [OF assms] by metis
  show ?thesis
    using inv cap available_window_u16_exact [OF inv]
    by (simp add: ack_segment_def recv_inv_def available_window_eq [OF inv])
qed

theorem receive_memory_bounded_witness:
  "length (recv_queue (snd (receive_stream_data example_data 30 config_default example_open))) +
      reassembly_bytes (reassembly (snd (receive_stream_data example_data 30 config_default example_open)))
      \<le> receive_buffer config_default \<and>
    unat (seg_window (ack_segment (snd (receive_stream_data example_data 30 config_default example_open)))) =
      receive_buffer config_default -
      (length (recv_queue (snd (receive_stream_data example_data 30 config_default example_open))) +
       reassembly_bytes (reassembly (snd (receive_stream_data example_data 30 config_default example_open))))"
  by (rule receive_memory_bounded [OF example_open_inv])

end
