(* ===== verification/Conversation.thy ===== *)
theory Conversation
  imports Conn_System Delivery "HOL-Library.Sublist"
begin

text \<open>
  Two connections of one conversation and a network between them that may lose, repeat, delay and
  reorder segments. The bytes an endpoint delivers to its application are, at every moment and
  in both directions, a prefix of the bytes the other endpoint's application has written.
\<close>

section \<open>What reaches the receiver\<close>

text \<open>The segments a sender may have in the network, relative to its whole stream.\<close>

definition sent_ok :: "u32 \<Rightarrow> bytes \<Rightarrow> bool \<Rightarrow> segment \<Rightarrow> bool" where
  "sent_ok b S e s \<longleftrightarrow>
     (contains (seg_flags s) SYN \<longrightarrow> seg_seq s + 1 = b) \<and>
     (seg_payload s = [] \<and> \<not> contains (seg_flags s) FIN \<or>
      (\<exists>k. seg_seq s = seq_at b k \<and> piece S e k (seg_payload s) (contains (seg_flags s) FIN)))"

lemma sent_ok_mono: "sent_ok b S e s \<Longrightarrow> e \<longrightarrow> e' \<Longrightarrow> sent_ok b S e' s"
  by (auto simp: sent_ok_def piece_def)

lemma sent_ok_grow: "sent_ok b S False s \<Longrightarrow> sent_ok b (S @ T) e s"
  by (auto simp: sent_ok_def intro: piece_grow)

lemma receiving_cong: "recv_fields c' = recv_fields c \<Longrightarrow> receiving b S e R n c' = receiving b S e R n c"
  by (simp add: recv_fields_def receiving_def delivered_def recv_pos_def)

lemma receiving_mono: "receiving b S e R n c \<Longrightarrow> e \<longrightarrow> e' \<Longrightarrow> receiving b S e' R n c"
  by (auto simp: receiving_def delivered_def rsm_at_def piece_def)

section \<open>Operations that leave the receiver alone\<close>

lemma recv_fields_retransmit [simp]:
  "recv_fields (snd (retransmit_oldest now tmo c)) = recv_fields c"
  by (simp add: recv_fields_def)

lemma recv_fields_update_remote_window [simp]:
  "recv_fields (update_remote_window w now c) = recv_fields c"
  by (simp add: recv_fields_def)

lemma recv_fields_flush: "flush_frame c c' \<Longrightarrow> recv_fields c' = recv_fields c"
  by (simp add: recv_fields_def flush_frame_def)

lemma recv_fields_apply_ack: "apply_ack ack now d c = Some (o1, c') \<Longrightarrow> recv_fields c' = recv_fields c"
proof -
  have dup: "recv_fields (snd (apply_duplicate_ack now c)) = recv_fields c"
    by (simp add: apply_duplicate_ack_def Let_def) (simp add: recv_fields_def)
  have new: "apply_new_ack ack now c = Some (o1, c') \<Longrightarrow> recv_fields c' = recv_fields c"
    by (auto simp: apply_new_ack_def recv_fields_def split: prod.splits option.splits)
  show "apply_ack ack now d c = Some (o1, c') \<Longrightarrow> recv_fields c' = recv_fields c"
    using dup new by (auto simp: apply_ack_def recv_fields_def split: if_splits)
qed

lemma recv_fields_process_ack:
  assumes "process_ack s ack now cfg c = Some (r, c')"
  shows "recv_fields c' = recv_fields c"
proof -
  obtain o1 c1 where a: "apply_ack ack now (is_duplicate_ack_candidate s (send_una c) (remote_window c)) c
      = Some (o1, c1)"
    using assms by (auto simp: process_ack_def Let_def split: option.splits)
  have fin: "recv_fields (fin_acked_transition now cfg d) = recv_fields d" for d :: "'a connection"
    by (simp add: fin_acked_transition_def enter_time_wait_def recv_fields_def split: tcp_state.split)
  have rep: "recv_fields (snd (repair_timed_out_flight now cfg d)) = recv_fields d" for d :: "'a connection"
    using repair_frame [of now cfg d] by auto
  have "recv_fields c' = recv_fields c1"
    using assms a by (auto simp: process_ack_def Let_def fin rep split: if_splits)
  with recv_fields_apply_ack [OF a] show ?thesis by simp
qed

lemma recv_fields_conn_write:
  assumes inv: "conn_inv cfg c" and w: "conn_write bs now cfg c = Some (r, c')"
  shows "recv_fields c' = recv_fields c"
proof (cases "writable c")
  case False
  then show ?thesis using w conn_write_refused [of c bs now cfg] by simp
next
  case True
  from inv w show ?thesis
  proof (cases rule: conn_write_cases)
    case refused
    then show ?thesis by simp
  next
    case (accepted segs)
    let ?c = "c\<lparr>send_queue := send_queue c @ take (write_room bs cfg c) bs, send_progress := (send_progress c)
      \<lparr>accepted_payload_bytes := accepted_payload_bytes (send_progress c) + write_room bs cfg c\<rparr>\<rparr>"
    have len: "length (take (write_room bs cfg c) bs) = write_room bs cfg c"
      by (simp add: write_room_def)
    have "phase_inv (phase (state ?c)) cfg ?c"
      using enqueue_phase_inv [of cfg c "take (write_room bs cfg c) bs", unfolded len] inv accepted(4)
        writable_phase [OF True] by (simp add: conn_inv_def)
    then obtain out d where "flush_data now ?c = Some (out, d)" "flush_frame ?c d"
      using flush_data_effect by blast
    moreover have "flush_data now ?c = Some (segs, c')"
      using w True accepted(2,4) by (auto simp: conn_write_def writable_def write_room_def Let_def
          progress_accept_def checked_add_def split: option.splits)
    ultimately show ?thesis using recv_fields_flush by (fastforce simp: recv_fields_def)
  qed
qed

lemma recv_fields_conn_close:
  assumes inv: "conn_inv cfg c" and w: "conn_close now c = Some (u, c')"
  shows "recv_fields c' = recv_fields c"
proof (cases "phase (state c) = Open")
  case False
  then show ?thesis using w by (cases "state c") (auto simp: conn_close_def)
next
  case True
  let ?c = "c\<lparr>close_requested := True\<rparr>"
  have "phase_inv (phase (state ?c)) cfg ?c"
    using inv True by (auto simp: conn_inv_def inv_defs send_ok_def)
  then obtain out d where "flush_data now ?c = Some (out, d)" "flush_frame ?c d"
    using flush_data_effect by blast
  then show ?thesis
    using w True recv_fields_flush [of ?c d] by (cases "state c") (auto simp: conn_close_def recv_fields_def)
qed

lemma recv_fields_poll_zero_window: "recv_fields (snd (poll_zero_window now cfg c)) = recv_fields c"
  by (simp add: poll_zero_window_def zero_window_probe_def Let_def recv_fields_def
      split: option.split list.split)

lemma recv_fields_conn_poll:
  assumes inv: "conn_inv cfg c" and w: "conn_poll now cfg c = Some (u, c')"
  shows "recv_fields c' = recv_fields c"
proof -
  have fl: "recv_fields d' = recv_fields d"
    if "poll_flush now segs d = Some (u', d')" "phase_inv (phase (state d)) cfg d" for segs u' and d d' :: "'a connection"
    using that flush_data_effect [OF that(2), of now] recv_fields_flush
    by (auto simp: poll_flush_def split: option.splits)
  have p: "phase_inv (phase (state c)) cfg c" using inv by (simp add: conn_inv_def)
  have p2: "phase_inv (phase (state (snd (on_rto now c)))) cfg (snd (on_rto now c))"
    using on_rto_inv [OF p] by simp
  have rto: "recv_fields (snd (on_rto now c)) = recv_fields c"
    by (simp add: on_rto_def Let_def) (simp add: recv_fields_def)
  show ?thesis
    using w fl [OF _ p] fl [OF _ p2] rto recv_fields_poll_zero_window [of now cfg c]
    by (auto simp: conn_poll_def split: if_splits list.splits prod.splits)
qed

section \<open>A segment from the network\<close>

text \<open>
  The receiver's invariant through the handshake: before the SYN-ACK nothing is received, after it
  the receiver is at some position of the peer's stream.
\<close>

definition receiver_ok :: "u32 \<Rightarrow> bytes \<Rightarrow> bool \<Rightarrow> bytes \<Rightarrow> 'p connection \<Rightarrow> bool" where
  "receiver_ok b S e R c \<longleftrightarrow>
     (if state c = SynSent
      then R = [] \<and> recv_queue c = [] \<and> reassembly c = [] \<and> \<not> read_closed c
      else \<exists>n. receiving b S e R n c)"

lemma path_not_syn_sent: "tcp_path a b \<Longrightarrow> a \<noteq> SynSent \<Longrightarrow> b \<noteq> SynSent"
  by (induction rule: rtranclp_induct) (auto elim: tcp_edgeE)

lemma receiver_ok_frame:
  assumes "receiver_ok b S e R c" "recv_fields c' = recv_fields c" "tcp_path (state c) (state c')"
    "state c = SynSent \<longrightarrow> state c' = SynSent"
  shows "receiver_ok b S e R c'"
proof (cases "state c = SynSent")
  case True
  with assms show ?thesis by (simp add: receiver_ok_def recv_fields_def)
next
  case False
  with assms path_not_syn_sent [OF assms(3) False] show ?thesis
    by (simp add: receiver_ok_def receiving_cong [OF assms(2)])
qed

lemma receive_if_data_receiving:
  assumes inv: "conn_inv cfg c" and rec: "receiving b S e R n c" and s: "sent_ok b S e s"
    and short: "length S + 1 < 2 ^ 30"
  shows "\<exists>n'. receiving b S e R n' (snd (receive_if_data s now cfg out c))"
proof (cases "has_stream_data s")
  case False
  then show ?thesis using rec by (auto simp: receive_if_data_def)
next
  case True
  then obtain k where k: "seg_seq s = seq_at b k" "piece S e k (seg_payload s) (contains (seg_flags s) FIN)"
    using s by (auto simp: sent_ok_def has_stream_data_def)
  have "recv_pos c n \<le> length S + 1"
    using rec by (simp add: receiving_def delivered_def recv_pos_def)
  moreover have "k \<le> length S" using k(2) by (simp add: piece_def)
  ultimately have "k < recv_pos c n + 2 ^ 30" "recv_pos c n < k + 2 ^ 30"
    using short by simp_all
  moreover have "recv_inv c" "receive_capacity c = receive_buffer cfg"
    using inv by (simp_all add: conn_inv_def phase_inv_def param_inv_def)
  ultimately show ?thesis
    using receive_pieces [OF rec _ _ k, of cfg now] True
    by (auto simp: receive_if_data_def Let_def)
qed

lemma flush_receiving:
  assumes "conn_inv cfg c" "receiving b S e R n c" "flush_data now c = Some (out, c')"
  shows "receiving b S e R n c'"
proof -
  have "flush_frame c c'"
    using flush_data_inv [OF assms(1), of now] assms(3) by auto
  then show ?thesis
    using assms(2) by (simp add: receiving_cong [OF recv_fields_flush])
qed

lemma receive_flush_receiving:
  assumes inv: "conn_inv cfg c" and rec: "receiving b S e R n c" and s: "sent_ok b S e s"
    and short: "length S + 1 < 2 ^ 30"
    and f: "flush_data now (snd (receive_if_data s now cfg out c)) = Some (flushed, c')"
  shows "\<exists>n'. receiving b S e R n' c'"
proof -
  obtain n' where "receiving b S e R n' (snd (receive_if_data s now cfg out c))"
    using receive_if_data_receiving [OF inv rec s short] by blast
  moreover have "conn_inv cfg (snd (receive_if_data s now cfg out c))"
    using recv_frame_inv(1) [OF inv receive_if_data_frame receive_if_data_inv [OF inv]] .
  ultimately show ?thesis using flush_receiving f by blast
qed

lemma on_syn_sent_receiving:
  assumes inv: "conn_inv cfg c" and st: "state c = SynSent" and rec: "receiver_ok b S e R c"
    and s: "sent_ok b S e s" and r: "on_syn_sent s now cfg c = Some (u, c')"
  shows "receiver_ok b S e R c'"
proof (cases "contains (seg_flags s) SYN \<and> contains (seg_flags s) ACK
    \<and> seg_ack s = Some (send_nxt c) \<and> supports_fips_version s FIPS_VERSION")
  case False
  then show ?thesis using r rec by (auto simp: on_syn_sent_def)
next
  case True
  let ?c2 = "negotiate_mss s cfg (update_remote_window (seg_window s) now c)"
  obtain o1 c3 where a: "apply_ack (send_nxt ?c2) now False ?c2 = Some (o1, c3)"
    "c' = c3\<lparr>recv_nxt := seg_seq s + 1, state := Established\<rparr>"
    using r True by (auto simp: on_syn_sent_def Let_def split: option.splits)
  have "recv_fields c3 = recv_fields ?c2" using a(1) by (rule recv_fields_apply_ack)
  then have "recv_queue c3 = []" "reassembly c3 = []" "\<not> read_closed c3" "R = []"
    using rec st by (simp_all add: recv_fields_def receiver_ok_def update_remote_window_def Let_def)
  moreover have "seg_seq s + 1 = b" using s True by (simp add: sent_ok_def)
  ultimately have "receiving b S e R 0 c'"
    by (simp add: a(2) receiving_def delivered_def recv_pos_def)
  then show ?thesis by (auto simp: receiver_ok_def a(2))
qed

lemma on_segment_receiving:
  assumes inv: "conn_inv cfg c" and rec: "receiver_ok b S e R c" and s: "sent_ok b S e s"
    and short: "length S + 1 < 2 ^ 30" and r: "on_segment s now cfg c = Some (u, c')"
  shows "receiver_ok b S e R c'"
proof -
  have path: "tcp_path (state c) (state c')"
    using on_segment_effect [OF inv, of s now] r by (auto simp: effect_def finished_def split: if_splits)
  consider (rst) "contains (seg_flags s) RST" | (ss) "state c = SynSent" "\<not> contains (seg_flags s) RST"
    | (sr) "state c = SynReceived" "\<not> contains (seg_flags s) RST"
    | (sync) "phase (state c) \<noteq> Opening" "\<not> contains (seg_flags s) RST"
    by (cases "state c") auto
  then show ?thesis
  proof cases
    case rst
    then show ?thesis using r rec by (simp add: on_segment_def)
  next
    case ss
    then show ?thesis using on_syn_sent_receiving [OF inv ss(1) rec s] r by (simp add: on_segment_def)
  next
    case sr
    then obtain n where n: "receiving b S e R n c" using rec by (auto simp: receiver_ok_def)
    have on: "on_syn_received s now cfg c = Some (u, c')" using r sr by (simp add: on_segment_def)
    have st': "state c' \<noteq> SynSent" using path_not_syn_sent [OF path] sr by simp
    have quiet: ?thesis if "recv_fields c' = recv_fields c"
      using n st' by (auto simp: receiver_ok_def receiving_cong [OF that])
    consider (dup) "contains (seg_flags s) SYN \<and> \<not> contains (seg_flags s) ACK \<and> seg_seq s + 1 = recv_nxt c"
      | (stray) "\<not> (contains (seg_flags s) SYN \<and> \<not> contains (seg_flags s) ACK \<and> seg_seq s + 1 = recv_nxt c)"
          "seg_ack s \<noteq> Some (send_nxt c)"
      | (ack) "\<not> (contains (seg_flags s) SYN \<and> \<not> contains (seg_flags s) ACK \<and> seg_seq s + 1 = recv_nxt c)"
          "seg_ack s = Some (send_nxt c)"
      by blast
    then show ?thesis
    proof cases
      case dup
      then have "c' = snd (retransmit_oldest now False c)"
        using on by (simp add: on_syn_received_def Let_def)
      then show ?thesis by (intro quiet) simp
    next
      case stray
      then have "c' = c" using on by (simp only: on_syn_received_def if_False simp_thms) simp
      then show ?thesis by (intro quiet) simp
    next
      case ack
      have body: "on_syn_received s now cfg c =
        (case apply_ack (send_nxt c) now False c of
          None \<Rightarrow> None
        | Some (outcome, c1) \<Rightarrow>
            (let c2 = (update_remote_window (seg_window s) now c1)\<lparr>state := Established\<rparr>;
                 received = receive_if_data s now cfg [] c2
             in (case flush_data now (snd received) of
                   None \<Rightarrow> None
                 | Some (flushed, c3) \<Rightarrow>
                     Some (\<lparr>upd_segments = fst received @ flushed, upd_accepted = True,
                            upd_closed = False\<rparr>, c3))))"
        unfolding on_syn_received_def if_not_P [OF ack(1)] using ack(2) by simp
      obtain o1 c1 where a: "apply_ack (send_nxt c) now False c = Some (o1, c1)"
        using on body by (auto split: option.splits)
      let ?c2 = "(update_remote_window (seg_window s) now c1)\<lparr>state := Established\<rparr>"
      have p: "phase_inv Opening cfg c" using inv sr by (simp add: conn_inv_def)
      have "phase_inv Open cfg c1"
        using apply_ack_effect [OF p, of "send_nxt c" now False] a by auto
      then have i2: "conn_inv cfg ?c2"
        using update_remote_window_inv by (simp add: conn_inv_def state_inv_def phase_inv_state)
      have "recv_fields ?c2 = recv_fields (update_remote_window (seg_window s) now c1)"
        by (simp add: recv_fields_def)
      then have same: "recv_fields ?c2 = recv_fields c" using recv_fields_apply_ack [OF a] by simp
      then have n2: "receiving b S e R n ?c2" using n by (simp only: receiving_cong [OF same])
      obtain flushed where "flush_data now (snd (receive_if_data s now cfg [] ?c2)) = Some (flushed, c')"
        using on a unfolding body by (auto simp: Let_def split: option.splits)
      then show ?thesis
        using receive_flush_receiving [OF i2 n2 s short] st' by (auto simp: receiver_ok_def)
    qed
  next
    case sync
    have ns: "state c \<noteq> SynSent" "state c \<noteq> SynReceived" using sync by auto
    then have on: "on_synchronized s now cfg c = Some (u, c')"
      using r sync by (simp add: on_segment_def)
    obtain n where n: "receiving b S e R n c" using rec ns by (auto simp: receiver_ok_def)
    have st': "state c' \<noteq> SynSent" using path_not_syn_sent [OF path ns(1)] .
    obtain fin out c1 where a: "(case seg_ack s of None \<Rightarrow> Some ((False, []), c)
        | Some ack \<Rightarrow> process_ack s ack now cfg c) = Some ((fin, out), c1)"
      using on by (auto simp: on_synchronized_def split: option.splits)
    have i1: "\<not> fin \<Longrightarrow> conn_inv cfg c1"
    proof (cases "seg_ack s")
      case None
      then show ?thesis using a inv by simp
    next
      case (Some ack)
      then show "\<not> fin \<Longrightarrow> conn_inv cfg c1" using process_ack_effect [OF inv sync(1), of s ack now] a by auto
    qed
    have same: "recv_fields c1 = recv_fields c"
      using a recv_fields_process_ack by (cases "seg_ack s") auto
    have n1: "receiving b S e R n c1" using n by (simp only: receiving_cong [OF same])
    show ?thesis
    proof (cases fin)
      case True
      then have "c' = c1" using on a by (simp add: on_synchronized_def)
      then show ?thesis using n1 st' by (auto simp: receiver_ok_def)
    next
      case False
      obtain flushed where "flush_data now (snd (receive_if_data s now cfg out c1)) = Some (flushed, c')"
        using on a False by (auto simp: on_synchronized_def Let_def split: option.splits)
      then show ?thesis
        using receive_flush_receiving [OF i1 [OF False] n1 s short] st' by (auto simp: receiver_ok_def)
    qed
  qed
qed

section \<open>Endpoints\<close>

text \<open>
  An endpoint with its history: the bytes its application has written (as far as \<open>write\<close> accepted
  them) and read, and every segment it has put into the network. A segment stays in that set, so
  it may arrive any number of times and at any moment, or never.
\<close>

record 'p endpoint =
  ep_conn :: "'p connection"
  ep_written :: bytes
  ep_read :: bytes
  ep_sent :: "segment set"
  ep_live :: bool

definition ep_ended :: "'p endpoint \<Rightarrow> bool" where
  "ep_ended x \<longleftrightarrow> ended (phase (state (ep_conn x)))"

inductive endpoint_step :: "config \<Rightarrow> segment set \<Rightarrow> 'p endpoint \<Rightarrow> 'p endpoint \<Rightarrow> bool"
  for cfg and net where
  ep_deliver: "ep_live x \<Longrightarrow> s \<in> net \<Longrightarrow> on_segment s now cfg (ep_conn x) = Some (u, c') \<Longrightarrow>
     endpoint_step cfg net x (x\<lparr>ep_conn := c', ep_sent := ep_sent x \<union> set (upd_segments u),
       ep_live := \<not> upd_closed u\<rparr>)"
| ep_write: "ep_live x \<Longrightarrow> conn_write bs now cfg (ep_conn x) = Some (Inr (k, segs), c') \<Longrightarrow>
     endpoint_step cfg net x (x\<lparr>ep_conn := c', ep_written := ep_written x @ take k bs,
       ep_sent := ep_sent x \<union> set segs\<rparr>)"
| ep_read: "ep_live x \<Longrightarrow> conn_read m (ep_conn x) = ((bs, segs), c') \<Longrightarrow>
     endpoint_step cfg net x (x\<lparr>ep_conn := c', ep_read := ep_read x @ bs,
       ep_sent := ep_sent x \<union> set segs\<rparr>)"
| ep_close: "ep_live x \<Longrightarrow> conn_close now (ep_conn x) = Some (u, c') \<Longrightarrow>
     endpoint_step cfg net x (x\<lparr>ep_conn := c', ep_sent := ep_sent x \<union> set (upd_segments u),
       ep_live := \<not> upd_closed u\<rparr>)"
| ep_poll: "ep_live x \<Longrightarrow> conn_poll now cfg (ep_conn x) = Some (u, c') \<Longrightarrow>
     endpoint_step cfg net x (x\<lparr>ep_conn := c', ep_sent := ep_sent x \<union> set (upd_segments u),
       ep_live := \<not> upd_closed u\<rparr>)"

section \<open>The sender's side of a step\<close>

definition sender_ok :: "config \<Rightarrow> u32 \<Rightarrow> 'p endpoint \<Rightarrow> bool" where
  "sender_ok cfg b x \<longleftrightarrow>
     (ep_live x \<longrightarrow> conn_inv cfg (ep_conn x) \<and> out_base (ep_conn x) = b \<and>
        accepted_payload_bytes (send_progress (ep_conn x)) = length (ep_written x) \<and>
        pending (ep_conn x) = drop (acked_payload_bytes (send_progress (ep_conn x))) (ep_written x)) \<and>
     (\<forall>s \<in> ep_sent x. sent_ok b (ep_written x) (ep_ended x) s)"

lemma piece_undrop:
  "piece (drop a S) e j p fin \<Longrightarrow> a \<le> length S \<Longrightarrow> piece S e (a + j) p fin"
  by (auto simp: piece_def add.commute)

lemma emits_sent_ok:
  assumes "emits ph c s" "stream_base ph c = b"
    "pending c = drop (acked_payload_bytes (send_progress c)) S"
    "acked_payload_bytes (send_progress c) \<le> length S" "ended ph \<longrightarrow> e"
  shows "sent_ok b S e s"
proof -
  have "piece S (ended ph) (acked_payload_bytes (send_progress c) + j) (seg_payload s)
      (contains (seg_flags s) FIN)"
    if "piece (pending c) (ended ph) j (seg_payload s) (contains (seg_flags s) FIN)" for j
    using that assms(3,4) by (simp add: piece_undrop)
  then have "sent_ok b S (ended ph) s"
    using assms(1,2) by (auto simp: emits_def sent_ok_def)
  then show ?thesis using assms(5) by (rule sent_ok_mono)
qed

text \<open>What an acknowledgment removes from the front is what the counter counts.\<close>

lemma acks_pending:
  assumes "acks_bytes n c c'" "pending c = drop (acked_payload_bytes (send_progress c)) S"
    "accepted_payload_bytes (send_progress c) = length S" "progress_inv c"
  shows "pending c' = drop (acked_payload_bytes (send_progress c')) S"
    "acked_payload_bytes (send_progress c') \<le> length S"
    "accepted_payload_bytes (send_progress c') = length S"
proof -
  have "n \<le> length (pending c)" using assms(1) by (simp add: acks_bytes_def pending_def)
  moreover have "length S = acked_payload_bytes (send_progress c) + length (pending c)"
    using assms(3,4) by (simp add: progress_inv_def)
  ultimately show "acked_payload_bytes (send_progress c') \<le> length S"
    using assms(1) by (simp add: acks_bytes_def)
  show "pending c' = drop (acked_payload_bytes (send_progress c')) S"
    "accepted_payload_bytes (send_progress c') = length S"
    using assms(1-3) by (simp_all add: acks_bytes_def add.commute)
qed

lemma conn_inv_progress: "conn_inv cfg c \<Longrightarrow> progress_inv c"
  by (simp add: conn_inv_def phase_inv_def)

lemma sender_effect:
  assumes ok: "sender_ok cfg b x" and live: "ep_live x" and eff: "effect cfg (ep_conn x) out c'"
  shows "sender_ok cfg b (x\<lparr>ep_conn := c', ep_sent := ep_sent x \<union> set out, ep_live := l\<rparr>)"
    and "ep_ended x \<longrightarrow> ended (phase (state c'))"
proof -
  let ?c = "ep_conn x"
  have c: "conn_inv cfg ?c" "out_base ?c = b"
    "accepted_payload_bytes (send_progress ?c) = length (ep_written x)"
    "pending ?c = drop (acked_payload_bytes (send_progress ?c)) (ep_written x)"
    using ok live by (simp_all add: sender_ok_def)
  obtain n where n: "acks_bytes n ?c c'" using eff by (auto simp: effect_def)
  note p = acks_pending [OF n c(4,3) conn_inv_progress [OF c(1)]]
  have path: "tcp_path (state ?c) (state c')" using eff by (simp add: effect_def)
  show e: "ep_ended x \<longrightarrow> ended (phase (state c'))"
    using path_phase [OF path] by (simp add: ep_ended_def)
  have base: "out_base c' = b" using eff c(2) by (simp add: effect_def)
  have "sent_ok b (ep_written x) (ended (phase (state c'))) s" if "s \<in> set out" for s
    using eff that base p by (intro emits_sent_ok [of "phase (state c')" c'])
      (auto simp: effect_def emits_all_def out_base_def)
  moreover have "sent_ok b (ep_written x) (ended (phase (state c'))) s" if "s \<in> ep_sent x" for s
    using ok that e by (auto simp: sender_ok_def intro: sent_ok_mono)
  ultimately show "sender_ok cfg b (x\<lparr>ep_conn := c', ep_sent := ep_sent x \<union> set out, ep_live := l\<rparr>)"
    using eff p base by (auto simp: sender_ok_def ep_ended_def effect_def)
qed

lemma sender_read:
  "sender_ok cfg b (x\<lparr>ep_conn := c', ep_sent := S, ep_live := True\<rparr>) \<Longrightarrow> ep_live x \<Longrightarrow>
   sender_ok cfg b (x\<lparr>ep_conn := c', ep_read := R, ep_sent := S\<rparr>)"
  by (simp add: sender_ok_def ep_ended_def)

lemma sender_finished:
  assumes ok: "sender_ok cfg b x" and live: "ep_live x" and fin: "finished (ep_conn x) out c'"
  shows "sender_ok cfg b (x\<lparr>ep_conn := c', ep_sent := ep_sent x \<union> set out, ep_live := False\<rparr>)"
    and "ended (phase (state c'))"
proof -
  let ?c = "ep_conn x"
  have c: "conn_inv cfg ?c" "out_base ?c = b"
    "accepted_payload_bytes (send_progress ?c) = length (ep_written x)"
    "pending ?c = drop (acked_payload_bytes (send_progress ?c)) (ep_written x)"
    using ok live by (simp_all add: sender_ok_def)
  obtain n where n: "acks_bytes n ?c c'" using fin by (auto simp: finished_def)
  note p = acks_pending [OF n c(4,3) conn_inv_progress [OF c(1)]]
  show e: "ended (phase (state c'))" using fin by (simp add: finished_def)
  have "sent_ok b (ep_written x) True s" if "s \<in> set out" for s
    using fin that c(2) p by (intro emits_sent_ok [of Finished c']) (auto simp: finished_def)
  moreover have "sent_ok b (ep_written x) True s" if "s \<in> ep_sent x" for s
    using ok that by (auto simp: sender_ok_def intro: sent_ok_mono)
  ultimately show "sender_ok cfg b (x\<lparr>ep_conn := c', ep_sent := ep_sent x \<union> set out, ep_live := False\<rparr>)"
    using e by (auto simp: sender_ok_def ep_ended_def)
qed

lemma sender_write:
  assumes ok: "sender_ok cfg b x" and live: "ep_live x"
    and w: "conn_write bs now cfg (ep_conn x) = Some (Inr (k, segs), c')"
  shows "sender_ok cfg b (x\<lparr>ep_conn := c', ep_written := ep_written x @ take k bs,
      ep_sent := ep_sent x \<union> set segs\<rparr>)"
    and "\<not> ep_ended x"
proof -
  let ?c = "ep_conn x"
  have c: "conn_inv cfg ?c" "out_base ?c = b"
    "accepted_payload_bytes (send_progress ?c) = length (ep_written x)"
    "pending ?c = drop (acked_payload_bytes (send_progress ?c)) (ep_written x)"
    using ok live by (simp_all add: sender_ok_def)
  have wr: "writable ?c" "k = write_room bs cfg ?c" "conn_inv cfg c'"
    "pending c' = pending ?c @ take k bs"
    "send_progress c' = (send_progress ?c)\<lparr>accepted_payload_bytes :=
       accepted_payload_bytes (send_progress ?c) + k\<rparr>"
    "out_base c' = out_base ?c" "emits_all c' segs"
    using c(1) w by (cases rule: conn_write_cases; simp)+
  show open_: "\<not> ep_ended x"
    using writable_phase [OF wr(1)] by (simp add: ep_ended_def)
  have len: "length (take k bs) = k" using wr(2) by (simp add: write_room_def)
  have acked: "acked_payload_bytes (send_progress ?c) \<le> length (ep_written x)"
    using c(3) conn_inv_progress [OF c(1)] by (simp add: progress_inv_def)
  have pend: "pending c' = drop (acked_payload_bytes (send_progress c')) (ep_written x @ take k bs)"
    using wr(4,5) c(4) acked by simp
  have "sent_ok b (ep_written x @ take k bs) (ended (phase (state c'))) s" if "s \<in> set segs" for s
    using wr(5,6,7) that c(2) pend acked
    by (intro emits_sent_ok [of "phase (state c')" c']) (auto simp: emits_all_def out_base_def)
  moreover have "sent_ok b (ep_written x @ take k bs) (ended (phase (state c'))) s" if "s \<in> ep_sent x" for s
    using ok that open_ by (auto simp: sender_ok_def intro: sent_ok_grow)
  ultimately show "sender_ok cfg b (x\<lparr>ep_conn := c', ep_written := ep_written x @ take k bs,
      ep_sent := ep_sent x \<union> set segs\<rparr>)"
    using wr c pend len by (auto simp: sender_ok_def ep_ended_def)
qed

section \<open>The receiver's side of a step\<close>

lemma receiver_mono:
  "receiver_ok b S e R c \<Longrightarrow> e \<longrightarrow> e' \<Longrightarrow> receiver_ok b S e' R c"
  unfolding receiver_ok_def by (auto split: if_splits) (blast intro: receiving_mono)+

lemma receiver_grow: "receiver_ok b S False R c \<Longrightarrow> receiver_ok b (S @ T) e R c"
  unfolding receiver_ok_def by (auto split: if_splits) (blast intro: receiving_grow)

lemma receiver_read:
  assumes inv: "conn_inv cfg c" and rec: "receiver_ok b S e R c" and r: "conn_read m c = ((bs, segs), c')"
  shows "receiver_ok b S e (R @ bs) c'"
proof -
  have c': "c' = c\<lparr>recv_queue := drop (min m (length (recv_queue c))) (recv_queue c)\<rparr>"
    "bs = take (min m (length (recv_queue c))) (recv_queue c)"
    using r by (auto simp: conn_read_def Let_def)
  then have "bs @ recv_queue c' = recv_queue c" by simp
  then show ?thesis
    using rec c' by (auto simp: receiver_ok_def receiving_def delivered_def recv_pos_def)
qed

lemma poll_keeps_syn_sent:
  assumes inv: "conn_inv cfg c" and r: "conn_poll now cfg c = Some (u, c')" and st: "state c = SynSent"
  shows "state c' = SynSent"
proof -
  have fl: "state d' = SynSent" if "poll_flush now segs d = Some (u', d')" "state d = SynSent"
    for segs u' and d d' :: "'a connection"
    using that by (auto simp: poll_flush_def flush_data_def)
  have z: "state (snd (poll_zero_window now cfg c)) = SynSent"
    using st by (simp add: poll_zero_window_def zero_window_probe_def Let_def split: option.split list.split)
  have rto: "state x2 = SynSent" if "on_rto now c = (x1, x2)" for x1 and x2 :: "'a connection"
    using on_rto_frame(1) [where now = now and c = c] that st by simp
  show ?thesis
    using r st z by (auto simp: conn_poll_def split: if_splits list.splits prod.splits intro: fl dest: rto)
qed

lemma not_syn_sent_back: "tcp_path a b \<Longrightarrow> b = SynSent \<Longrightarrow> a = SynSent"
  using path_not_syn_sent by blast

text \<open>A step of an endpoint, for the stream it sends and the stream it receives.\<close>

definition stream_grows :: "'p endpoint \<Rightarrow> 'p endpoint \<Rightarrow> bool" where
  "stream_grows x x' \<longleftrightarrow>
     ep_written x' = ep_written x \<and> (ep_ended x \<longrightarrow> ep_ended x') \<or>
     \<not> ep_ended x \<and> (\<exists>T. ep_written x' = ep_written x @ T)"

lemma endpoint_sender:
  assumes "endpoint_step cfg net x x'" "sender_ok cfg b x"
  shows "sender_ok cfg b x' \<and> stream_grows x x'"
  using assms(1)
proof cases
  case (ep_deliver s now u c')
  have inv: "conn_inv cfg (ep_conn x)" using assms(2) ep_deliver(2) by (simp add: sender_ok_def)
  have "contains (seg_flags s) RST \<and> c' = ep_conn x \<and> upd_segments u = [] \<and> upd_closed u \<or>
      finished (ep_conn x) (upd_segments u) c' \<and> upd_closed u \<or>
      effect cfg (ep_conn x) (upd_segments u) c'"
    using on_segment_effect [OF inv, of s now] ep_deliver(4) by (auto split: if_splits)
  then consider (rst) "c' = ep_conn x" "upd_segments u = []" "upd_closed u"
    | (fin) "finished (ep_conn x) (upd_segments u) c'" "upd_closed u"
    | (eff) "effect cfg (ep_conn x) (upd_segments u) c'"
    by blast
  then show ?thesis
  proof cases
    case rst
    then show ?thesis using assms(2) ep_deliver(1)
      by (simp add: sender_ok_def stream_grows_def ep_ended_def)
  next
    case fin
    then show ?thesis using sender_finished [OF assms(2) ep_deliver(2) fin(1)] ep_deliver(1)
      by (simp add: stream_grows_def ep_ended_def)
  next
    case eff
    then show ?thesis using sender_effect [OF assms(2) ep_deliver(2) eff] ep_deliver(1)
      by (simp add: stream_grows_def ep_ended_def)
  qed
next
  case (ep_write bs now k segs c')
  then show ?thesis using sender_write [OF assms(2) ep_write(2,3)] by (auto simp: stream_grows_def)
next
  case (ep_read m bs segs c')
  have inv: "conn_inv cfg (ep_conn x)" using assms(2) ep_read(2) by (simp add: sender_ok_def)
  have eff: "effect cfg (ep_conn x) segs c'"
    using conn_read_effect(1) [OF inv, of m] ep_read(3) by simp
  show ?thesis
    using sender_effect [OF assms(2) ep_read(2) eff] ep_read(1,2)
      sender_read [where cfg = cfg and b = b and x = x and c' = c' and S = "ep_sent x \<union> set segs"
        and R = "ep_read x @ bs"]
    by (simp add: stream_grows_def ep_ended_def)
next
  case (ep_close now u c')
  have inv: "conn_inv cfg (ep_conn x)" using assms(2) ep_close(2) by (simp add: sender_ok_def)
  have eff: "effect cfg (ep_conn x) (upd_segments u) c'"
    using conn_close_effect [OF inv, of now] ep_close(3) by auto
  show ?thesis
    using sender_effect [OF assms(2) ep_close(2) eff] ep_close(1)
    by (simp add: stream_grows_def ep_ended_def)
next
  case (ep_poll now u c')
  have inv: "conn_inv cfg (ep_conn x)" using assms(2) ep_poll(2) by (simp add: sender_ok_def)
  have eff: "effect cfg (ep_conn x) (upd_segments u) c'"
    using conn_poll_effect [OF inv, of now] ep_poll(3) by auto
  show ?thesis
    using sender_effect [OF assms(2) ep_poll(2) eff] ep_poll(1)
    by (simp add: stream_grows_def ep_ended_def)
qed

lemma endpoint_receiver:
  assumes step: "endpoint_step cfg net x x'" and ok: "sender_ok cfg b' x"
    and rec: "receiver_ok b S e (ep_read x) (ep_conn x)"
    and net: "\<forall>s \<in> net. sent_ok b S e s" and short: "length S + 1 < 2 ^ 30"
  shows "receiver_ok b S e (ep_read x') (ep_conn x')"
  using step
proof cases
  case (ep_deliver s now u c')
  then show ?thesis
    using on_segment_receiving [OF _ rec _ short ep_deliver(4)] net ok by (simp add: sender_ok_def)
next
  case (ep_write bs now k segs c')
  have inv: "conn_inv cfg (ep_conn x)" using ok ep_write(2) by (simp add: sender_ok_def)
  have "writable (ep_conn x)" "fin_sent (state (ep_conn x)) (state c')"
    using inv ep_write(3) by (cases rule: conn_write_cases; simp)+
  then have "receiver_ok b S e (ep_read x) c'"
    using recv_fields_conn_write [OF inv ep_write(3)] rec
    by (intro receiver_ok_frame [OF rec]) (auto simp: writable_def dest: fin_sent_path)
  then show ?thesis by (simp add: ep_write(1))
next
  case (ep_read m bs segs c')
  have inv: "conn_inv cfg (ep_conn x)" using ok ep_read(2) by (simp add: sender_ok_def)
  show ?thesis using receiver_read [OF inv rec ep_read(3)] by (simp add: ep_read(1))
next
  case (ep_close now u c')
  have inv: "conn_inv cfg (ep_conn x)" using ok ep_close(2) by (simp add: sender_ok_def)
  have "tcp_path (state (ep_conn x)) (state c')"
    using conn_close_effect [OF inv, of now] ep_close(3) by (auto simp: effect_def)
  moreover have "state (ep_conn x) = SynSent \<longrightarrow> state c' = SynSent"
    using ep_close(3) by (auto simp: conn_close_def)
  ultimately have "receiver_ok b S e (ep_read x) c'"
    using recv_fields_conn_close [OF inv ep_close(3)] by (intro receiver_ok_frame [OF rec]) auto
  then show ?thesis by (simp add: ep_close(1))
next
  case (ep_poll now u c')
  have inv: "conn_inv cfg (ep_conn x)" using ok ep_poll(2) by (simp add: sender_ok_def)
  have "tcp_path (state (ep_conn x)) (state c')"
    using conn_poll_effect [OF inv, of now] ep_poll(3) by (auto simp: effect_def)
  moreover have "state (ep_conn x) = SynSent \<longrightarrow> state c' = SynSent"
    using poll_keeps_syn_sent [OF inv ep_poll(3)] by blast
  ultimately have "receiver_ok b S e (ep_read x) c'"
    using recv_fields_conn_poll [OF inv ep_poll(3)] by (intro receiver_ok_frame [OF rec]) auto
  then show ?thesis by (simp add: ep_poll(1))
qed

section \<open>The conversation\<close>

text \<open>
  A conversation starts when the server creates its connection from the client's SYN. Each step is
  a step of one endpoint; what it receives is anything the other has ever sent.
\<close>

type_synonym 'p conversation = "'p endpoint \<times> 'p endpoint"

definition endpoint_new :: "'p connection \<times> segment list \<Rightarrow> 'p endpoint" where
  "endpoint_new cs = \<lparr>ep_conn = fst cs, ep_written = [], ep_read = [], ep_sent = set (snd cs),
     ep_live = True\<rparr>"

inductive conversation_start :: "config \<Rightarrow> config \<Rightarrow> 'p conversation \<Rightarrow> bool" for ca cb where
  handshake: "valid_setup ca \<Longrightarrow> valid_setup cb \<Longrightarrow> lport \<noteq> 0 \<Longrightarrow> rport \<noteq> 0 \<Longrightarrow>
     conn_client server lport rport isna nowa ca toka = Some ((a, [syn]), toka') \<Longrightarrow>
     conn_server client syn isnb nowb cb tokb = Some ((d, segs), tokb') \<Longrightarrow>
     conversation_start ca cb (endpoint_new (a, [syn]), endpoint_new (d, segs))"

inductive conversation_step :: "config \<Rightarrow> config \<Rightarrow> 'p conversation \<Rightarrow> 'p conversation \<Rightarrow> bool"
  for ca cb where
  client_step: "endpoint_step ca (ep_sent y) x x' \<Longrightarrow> conversation_step ca cb (x, y) (x', y)"
| server_step: "endpoint_step cb (ep_sent x) y y' \<Longrightarrow> conversation_step ca cb (x, y) (x, y')"

text \<open>
  The contract of a reliable stream, as a relation between the writer and the reader. The position
  arithmetic needs that a stream is shorter than \<open>2 ^ 30\<close> bytes, so that no sequence number is used
  twice while an old segment may still be in the network.
\<close>

definition stream_short :: "'p endpoint \<Rightarrow> bool" where
  "stream_short x \<longleftrightarrow> length (ep_written x) + 1 < 2 ^ 30"

definition link_ok :: "config \<Rightarrow> u32 \<Rightarrow> 'p endpoint \<Rightarrow> 'p endpoint \<Rightarrow> bool" where
  "link_ok cfg b x y \<longleftrightarrow>
     sender_ok cfg b x \<and> receiver_ok b (ep_written x) (ep_ended x) (ep_read y) (ep_conn y)"

definition conversation_ok :: "config \<Rightarrow> config \<Rightarrow> 'p conversation \<Rightarrow> bool" where
  "conversation_ok ca cb s \<longleftrightarrow>
     (stream_short (fst s) \<and> stream_short (snd s) \<longrightarrow>
       (\<exists>bx dy. link_ok ca bx (fst s) (snd s) \<and> link_ok cb dy (snd s) (fst s)))"

lemma endpoint_grows: "endpoint_step cfg net x x' \<Longrightarrow> stream_short x' \<Longrightarrow> stream_short x"
  by (cases rule: endpoint_step.cases) (auto simp: stream_short_def)

lemma link_step:
  assumes step: "endpoint_step cx (ep_sent y) x x'"
    and xy: "link_ok cx b x y" and yx: "link_ok cy d y x" and short: "stream_short y"
  shows "link_ok cx b x' y \<and> link_ok cy d y x'"
proof -
  have s: "sender_ok cx b x'" "stream_grows x x'"
    using endpoint_sender [OF step] xy by (auto simp: link_ok_def)
  have "receiver_ok b (ep_written x') (ep_ended x') (ep_read y) (ep_conn y)"
    using s(2) xy unfolding stream_grows_def link_ok_def
    by (auto intro: receiver_mono receiver_grow)
  moreover have "receiver_ok d (ep_written y) (ep_ended y) (ep_read x') (ep_conn x')"
    using endpoint_receiver [OF step, of b d "ep_written y" "ep_ended y"] xy yx short
    by (auto simp: link_ok_def sender_ok_def stream_short_def)
  ultimately show ?thesis
    using s(1) yx by (simp add: link_ok_def)
qed

lemma created_link:
  assumes x: "created cx st fs isn rcv who c seg" and y: "created cy st' fs' isn' rcv' who' d seg'"
    and rcv: "st' = SynSent \<or> st' \<noteq> SynSent \<and> rcv' = isn + 1"
    and fs: "contains fs SYN" and st: "phase st = Opening"
  shows "link_ok cx (isn + 1) (endpoint_new (c, [seg])) (endpoint_new (d, [seg']))"
proof -
  have "emits (phase (state c)) c seg" "out_base c = isn + 1" "seg_seq seg = isn" "pending c = []"
      "progress_inv c" "accepted_payload_bytes (send_progress c) = 0"
    using x st by (auto simp: created_def conn_inv_def phase_inv_def)
  moreover from this have "acked_payload_bytes (send_progress c) = 0"
    by (simp add: progress_inv_def)
  ultimately have "sender_ok cx (isn + 1) (endpoint_new (c, [seg]))"
    using x st by (auto simp: sender_ok_def endpoint_new_def created_def sent_ok_def emits_def)
  moreover have "receiver_ok (isn + 1) [] e [] d" for e
    using y rcv by (auto simp: receiver_ok_def created_def recv_fields_def receiving_def
        delivered_def recv_pos_def intro!: exI [of _ 0])
  ultimately show ?thesis
    by (simp add: link_ok_def endpoint_new_def)
qed

lemma conversation_start_ok: "conversation_start ca cb s \<Longrightarrow> conversation_ok ca cb s"
proof (induction rule: conversation_start.induct)
  case (handshake lport rport server isna nowa toka a syn toka' client isnb nowb tokb d segs tokb')
  have "toka < u64_max"
    using handshake(5) by (auto simp: conn_client_def dest: new_needs_token split: option.splits)
  from conn_client_effect [OF handshake(1,3,4) this, of server isna nowa] handshake(5)
  have a: "created ca SynSent SYN isna 0 (server, lport, rport, toka) a syn" by auto
  have ports: "seg_dst_port syn \<noteq> 0" "seg_src_port syn \<noteq> 0"
    using handshake(3-5) by (auto simp: conn_client_def conn_new_def send_tracked_def Let_def
        segment_for_def split: option.splits)
  have "tokb < u64_max"
    using handshake(6) by (auto simp: conn_server_def dest: new_needs_token split: option.splits)
  from conn_server_effect [OF handshake(2) ports this, of client isnb nowb] handshake(6)
  obtain seg where d: "segs = [seg]"
    "created cb SynReceived (SYN OR ACK) isnb (isna + 1)
      (client, seg_dst_port syn, seg_src_port syn, tokb) d seg"
    using a by (auto simp: created_def)
  have "link_ok ca (isna + 1) (endpoint_new (a, [syn])) (endpoint_new (d, [seg]))"
    by (rule created_link [OF a d(2)]) simp_all
  moreover have "link_ok cb (isnb + 1) (endpoint_new (d, [seg])) (endpoint_new (a, [syn]))"
    by (rule created_link [OF d(2) a]) simp_all
  ultimately show ?case using d(1) by (auto simp: conversation_ok_def)
qed

lemma conversation_step_ok:
  "conversation_ok ca cb s \<Longrightarrow> conversation_step ca cb s t \<Longrightarrow> conversation_ok ca cb t"
proof (rotate_tac 1, induction rule: conversation_step.induct)
  case (client_step y x x')
  then show ?case
    using link_step [OF client_step(1)] endpoint_grows [OF client_step(1)]
    by (fastforce simp: conversation_ok_def)
next
  case (server_step x y y')
  then show ?case
    using link_step [OF server_step(1)] endpoint_grows [OF server_step(1)]
    by (fastforce simp: conversation_ok_def)
qed

interpretation conversation: invariant_system
  "conversation_start ca cb" "conversation_step ca cb" "conversation_ok ca cb"
  by unfold_locales (auto intro: conversation_start_ok conversation_step_ok)

section \<open>The reliable stream\<close>

lemma receiver_ok_prefix:
  "receiver_ok b S e R c \<Longrightarrow>
     prefix (R @ recv_queue c) S \<and> (read_closed c \<longrightarrow> e \<and> R @ recv_queue c = S)"
  by (auto simp: receiver_ok_def receiving_def delivered_def take_is_prefix split: if_splits)

text \<open>
  C2: End-to-end correctness of the stream. Two connections that the handshake has brought together
  exchange segments over a network that may lose, repeat, delay and reorder them, while both
  applications write, read and close and the timers fire in any order. At every moment, in both
  directions, the bytes an application has read followed by those waiting for it are a prefix of
  the bytes the other application's \<open>write\<close> accepted, and when the end of the stream is reported,
  the writer has closed and every byte has arrived.
\<close>

theorem reliable_stream:
  assumes "reach (conversation_start ca cb) (conversation_step ca cb) (x, y)"
    and "length (ep_written x) + 1 < 2 ^ 30" "length (ep_written y) + 1 < 2 ^ 30"
  shows "prefix (ep_read y @ recv_queue (ep_conn y)) (ep_written x) \<and>
    prefix (ep_read x @ recv_queue (ep_conn x)) (ep_written y) \<and>
    (read_closed (ep_conn y) \<longrightarrow> ep_ended x \<and> ep_read y @ recv_queue (ep_conn y) = ep_written x) \<and>
    (read_closed (ep_conn x) \<longrightarrow> ep_ended y \<and> ep_read x @ recv_queue (ep_conn x) = ep_written y)"
proof -
  have "conversation_ok ca cb (x, y)" using assms(1) by (rule conversation.inv_reach)
  then obtain b d where "link_ok ca b x y" "link_ok cb d y x"
    using assms(2,3) by (auto simp: conversation_ok_def stream_short_def)
  then show ?thesis using receiver_ok_prefix unfolding link_ok_def by blast
qed

end
