(* ===== verification/Conversation_Run.thy ===== *)
theory Conversation_Run
  imports Conversation
begin

text \<open>
  A run of a conversation that the properties are evaluated on: the client completes the handshake,
  writes two bytes, and the server receives them. \<open>run_deliver\<close> and \<open>run_write\<close> are the steps as
  functions.
\<close>

definition run_deliver :: "config \<Rightarrow> nat \<Rightarrow> segment \<Rightarrow> 'p endpoint \<Rightarrow> 'p endpoint" where
  "run_deliver cfg now s x =
     (case on_segment s now cfg (ep_conn x) of
        None \<Rightarrow> x
      | Some (u, c') \<Rightarrow> x\<lparr>ep_conn := c', ep_sent := ep_sent x \<union> set (upd_segments u),
                          ep_live := \<not> upd_closed u\<rparr>)"

definition run_write :: "config \<Rightarrow> nat \<Rightarrow> bytes \<Rightarrow> 'p endpoint \<Rightarrow> 'p endpoint" where
  "run_write cfg now bs x =
     (case conn_write bs now cfg (ep_conn x) of
        Some (Inr (k, segs), c') \<Rightarrow> x\<lparr>ep_conn := c', ep_written := ep_written x @ take k bs,
          ep_sent := ep_sent x \<union> set segs\<rparr>
      | _ \<Rightarrow> x)"

lemma run_deliver_step:
  assumes "ep_live x" "conn_inv cfg (ep_conn x)" "s \<in> net"
  shows "endpoint_step cfg net x (run_deliver cfg now s x)"
proof -
  obtain u c' where r: "on_segment s now cfg (ep_conn x) = Some (u, c')"
    using on_segment_effect [OF assms(2), of s now] by blast
  show ?thesis
    using ep_deliver [OF assms(1,3) r] by (simp add: run_deliver_def r)
qed

lemma run_write_step:
  "ep_live x \<Longrightarrow> conn_write bs now cfg (ep_conn x) = Some (Inr (k, segs), c') \<Longrightarrow>
     endpoint_step cfg net x (run_write cfg now bs x)"
  using ep_write [of x bs now cfg k segs c' net] by (simp add: run_write_def)

definition example_pair_client :: "nat connection \<times> segment list" where
  "example_pair_client = fst (the (conn_client 7 49152 80 1000 0 config_default 1))"

definition example_hello :: segment where
  "example_hello = build_segment \<lparr>hdr_local_port = 49152, hdr_remote_port = 80, hdr_seq = 1000,
     hdr_ack = 0, hdr_window = 65535, hdr_mss = 1024, hdr_flags = SYN\<rparr> []"

definition example_pair_server :: "nat connection \<times> segment list" where
  "example_pair_server = fst (the (conn_server 3 example_hello 2000 5 config_default 9))"

definition example_reply :: segment where
  "example_reply = build_segment \<lparr>hdr_local_port = 80, hdr_remote_port = 49152, hdr_seq = 2000,
     hdr_ack = 1001, hdr_window = 65535, hdr_mss = 1024, hdr_flags = SYN OR ACK\<rparr> []"

definition example_bytes :: segment where
  "example_bytes = build_segment \<lparr>hdr_local_port = 49152, hdr_remote_port = 80, hdr_seq = 1001,
     hdr_ack = 2001, hdr_window = 65535, hdr_mss = 1024, hdr_flags = ACK OR PSH\<rparr> [7, 8]"

definition example_x0 where "example_x0 = endpoint_new example_pair_client"
definition example_y0 where "example_y0 = endpoint_new example_pair_server"
definition example_x1 where "example_x1 = run_deliver config_default 20 example_reply example_x0"
definition example_x2 where "example_x2 = run_write config_default 30 [7, 8] example_x1"
definition example_y1 where "example_y1 = run_deliver config_default 40 example_bytes example_y0"

lemmas run_defs = eval_defs available_window_u16_def available_window_def ack_segment_def
  conn_write_def buffered_bytes_def progress_accept_def flush_data_def flush_loop_unfold
  send_window_def reno_window_def distance_def flush_fin_def endpoint_new_def run_deliver_def
  run_write_def example_pair_client_def example_pair_server_def example_hello_def example_reply_def
  example_bytes_def

lemma example_x0_eq:
  "\<exists>c. conn_client 7 49152 80 1000 0 config_default 1 = Some ((c, [example_hello]), 2) \<and>
     example_x0 = endpoint_new (c, [example_hello])"
  by (simp add: example_x0_def run_defs)

lemma example_y0_eq:
  "\<exists>c. conn_server 3 example_hello 2000 5 config_default 9 = Some ((c, [example_reply]), 10) \<and>
     example_y0 = endpoint_new (c, [example_reply])"
  by (simp add: example_y0_def run_defs)

lemma example_start: "conversation_start config_default config_default (example_x0, example_y0)"
proof -
  obtain a d where "conn_client 7 49152 80 1000 0 config_default 1 = Some ((a, [example_hello]), 2)"
    "example_x0 = endpoint_new (a, [example_hello])"
    "conn_server 3 example_hello 2000 5 config_default 9 = Some ((d, [example_reply]), 10)"
    "example_y0 = endpoint_new (d, [example_reply])"
    using example_x0_eq example_y0_eq by blast
  then show ?thesis
    using handshake [OF valid_setup_default valid_setup_default, of 49152 80 7 1000 0 1 a example_hello 2
        3 2000 5 9 d "[example_reply]" 10] by simp
qed

lemma example_x1_open: "ep_live example_x1 \<and>
    (\<exists>segs c'. conn_write [7, 8] 30 config_default (ep_conn example_x1) = Some (Inr (2, segs), c'))"
  by (simp add: example_x1_def example_x0_def run_defs)

lemma example_x2_sent: "example_bytes \<in> ep_sent example_x2 \<and> ep_written example_x2 = [7, 8]"
  by (simp add: example_x2_def example_x1_def example_x0_def run_defs)

lemma example_x0_inv: "ep_live example_x0" "conn_inv config_default (ep_conn example_x0)"
    "example_hello \<in> ep_sent example_x0"
proof -
  obtain a where a: "conn_client 7 49152 80 1000 0 config_default 1 = Some ((a, [example_hello]), 2)"
    "example_x0 = endpoint_new (a, [example_hello])" using example_x0_eq by blast
  have "conn_start config_default a"
    using start_client [OF valid_setup_default _ _ a(1)] by simp
  then show "ep_live example_x0" "conn_inv config_default (ep_conn example_x0)"
      "example_hello \<in> ep_sent example_x0"
    by (simp_all add: a(2) endpoint_new_def conn_start_inv)
qed

lemma example_y0_inv: "ep_live example_y0" "conn_inv config_default (ep_conn example_y0)"
    "example_reply \<in> ep_sent example_y0" "ep_written example_y0 = []"
proof -
  obtain d where d: "conn_server 3 example_hello 2000 5 config_default 9 = Some ((d, [example_reply]), 10)"
    "example_y0 = endpoint_new (d, [example_reply])" using example_y0_eq by blast
  have "conn_start config_default d"
    using start_server [OF valid_setup_default _ _ d(1)]
    by (simp add: example_hello_def build_segment_def segment_new_def Let_def)
  then show "ep_live example_y0" "conn_inv config_default (ep_conn example_y0)"
      "example_reply \<in> ep_sent example_y0" "ep_written example_y0 = []"
    by (simp_all add: d(2) endpoint_new_def conn_start_inv)
qed

lemma example_reach:
  "reach (conversation_start config_default config_default)
     (conversation_step config_default config_default) (example_x2, example_y1)"
proof -
  let ?reach = "reach (conversation_start config_default config_default)
     (conversation_step config_default config_default)"
  have "?reach (example_x0, example_y0)"
    by (rule reach_start) (rule example_start)
  then have "?reach (example_x1, example_y0)"
    unfolding example_x1_def
    by (rule reach_step) (intro client_step run_deliver_step example_x0_inv example_y0_inv)
  then have "?reach (example_x2, example_y0)"
    unfolding example_x2_def using example_x1_open
    by (elim conjE exE) (rule reach_step, assumption, rule client_step, rule run_write_step)
  then show ?thesis
    unfolding example_y1_def
    by (rule reach_step)
       (intro server_step run_deliver_step example_y0_inv example_x2_sent [THEN conjunct1])
qed

lemma example_y1_written: "ep_written example_y1 = []"
  by (simp add: example_y1_def run_deliver_def example_y0_inv split: option.split prod.split)

theorem reliable_stream_witness:
  "prefix (ep_read example_y1 @ recv_queue (ep_conn example_y1)) [7, 8] \<and>
   prefix (ep_read example_x2 @ recv_queue (ep_conn example_x2)) []"
  using reliable_stream [OF example_reach] example_x2_sent example_y1_written by simp

end
