(* ===== verification/Stack.thy ===== *)
theory Stack
  imports Machine
begin

text \<open>
  The stack: \<open>Stack\<close> of \<open>stack.rs\<close> with \<open>stack_admission.rs\<close>, \<open>stack_abort.rs\<close>,
  \<open>stack_marker.rs\<close> and \<open>stack_poll.rs\<close>. The connection table (a \<open>HashMap\<close>) is an association
  list with distinct keys, whose order stands for the table's unspecified iteration order; the
  lookup and accept tables are only ever indexed, so they are maps. Operations that create a
  connection also take and return the process-wide token counter of \<open>marker.rs\<close>.
\<close>

section \<open>State\<close>

record 'p connection_key =
  key_peer :: 'p
  key_local_port :: u16
  key_remote_port :: u16

record 'p connection_reservation =
  res_slots :: nat
  res_eligible :: "'p \<Rightarrow> bool"

record 'p stack =
  config :: config
  reservation :: "'p connection_reservation option"
  listeners :: "u16 set"
  accepts :: "u16 \<rightharpoonup> connection_id list"
  connections :: "(connection_id \<times> 'p connection) list"
  lookup :: "'p connection_key \<rightharpoonup> connection_id"
  outbound :: "'p outbound list"
  next_connection_id :: nat
  next_ephemeral_port :: u16
  isn_state :: u64

definition get_conn :: "connection_id \<Rightarrow> 'p stack \<Rightarrow> 'p connection option" where
  "get_conn cid s = map_of (connections s) cid"

definition put_conn :: "connection_id \<Rightarrow> 'p connection \<Rightarrow> 'p stack \<Rightarrow> 'p stack" where
  "put_conn cid c s = s\<lparr>connections := AList.update cid c (connections s)\<rparr>"

definition conn_key :: "'p connection \<Rightarrow> 'p connection_key" where
  "conn_key c = \<lparr>key_peer = peer c, key_local_port = local_port c, key_remote_port = remote_port c\<rparr>"

definition stack_new :: "config \<Rightarrow> u64 \<Rightarrow> 'p stack option" where
  "stack_new cfg isn_seed =
     (case validate cfg of
        Inl e \<Rightarrow> None
      | Inr u \<Rightarrow> Some \<lparr>
          config = cfg,
          reservation = None,
          listeners = {},
          accepts = Map.empty,
          connections = [],
          lookup = Map.empty,
          outbound = [],
          next_connection_id = 1,
          next_ephemeral_port = 49152,
          isn_state = max isn_seed 1\<rparr>)"

section \<open>Listeners\<close>

definition listen :: "u16 \<Rightarrow> 'p stack \<Rightarrow> (stack_error + unit) \<times> 'p stack" where
  "listen port s =
     (if port = 0 then (Inl ZeroPort, s)
      else if port \<in> listeners s then (Inl (AlreadyListening port), s)
      else (Inr (), s\<lparr>listeners := insert port (listeners s),
        accepts := (case accepts s port of
            None \<Rightarrow> (accepts s)(port \<mapsto> []) | Some q \<Rightarrow> accepts s)\<rparr>))"

definition close_listener :: "u16 \<Rightarrow> 'p stack \<Rightarrow> 'p stack" where
  "close_listener port s =
     s\<lparr>listeners := listeners s - {port}, accepts := (accepts s)(port := None)\<rparr>"

fun accept_loop ::
  "(connection_id \<Rightarrow> bool) \<Rightarrow> connection_id list \<Rightarrow> connection_id option \<times> connection_id list" where
  "accept_loop live [] = (None, [])"
| "accept_loop live (cid # queue) = (if live cid then (Some cid, queue) else accept_loop live queue)"

definition accept :: "u16 \<Rightarrow> 'p stack \<Rightarrow> connection_id option \<times> 'p stack" where
  "accept port s =
     (case accepts s port of
        None \<Rightarrow> (None, s)
      | Some queue \<Rightarrow>
          (case accept_loop (\<lambda>cid. get_conn cid s \<noteq> None) queue of
             (found, queue') \<Rightarrow> (found, s\<lparr>accepts := (accepts s)(port \<mapsto> queue')\<rparr>)))"

section \<open>Emission and removal\<close>

fun emit_all :: "'p \<Rightarrow> segment list \<Rightarrow> 'p stack \<Rightarrow> (stack_error + unit) \<times> 'p stack" where
  "emit_all p [] s = (Inr (), s)"
| "emit_all p (x # xs) s =
     (case encode x of
        Inl e \<Rightarrow> (Inl (Wire e), s)
      | Inr bs \<Rightarrow> emit_all p xs
          (s\<lparr>outbound := outbound s @ [\<lparr>out_peer = p, out_bytes = bs\<rparr>]\<rparr>))"

definition emit ::
  "connection_id \<Rightarrow> segment list \<Rightarrow> 'p stack \<Rightarrow> (stack_error + unit) \<times> 'p stack" where
  "emit cid segments s =
     (case get_conn cid s of
        None \<Rightarrow> (Inr (), s)
      | Some c \<Rightarrow> emit_all (peer c) segments s)"

definition reset_for :: "segment \<Rightarrow> segment" where
  "reset_for incoming =
     (let reset = (segment_new (seg_dst_port incoming) (seg_src_port incoming) 0)\<lparr>seg_window := 0\<rparr>
      in case seg_ack incoming of
           Some a \<Rightarrow> reset\<lparr>seg_seq := a, seg_flags := RST\<rparr>
         | None \<Rightarrow> reset\<lparr>seg_flags := flags_union RST ACK,
             seg_ack := Some (seg_seq incoming + sequence_len incoming)\<rparr>)"

definition emit_reset :: "'p \<Rightarrow> segment \<Rightarrow> 'p stack \<Rightarrow> (stack_error + unit) \<times> 'p stack" where
  "emit_reset p incoming s = emit_all p [reset_for incoming] s"

definition remove_connection :: "connection_id \<Rightarrow> 'p stack \<Rightarrow> 'p stack" where
  "remove_connection cid s =
     (case get_conn cid s of
        None \<Rightarrow> s
      | Some c \<Rightarrow> s\<lparr>connections := AList.delete cid (connections s),
                     lookup := (lookup s)(conn_key c := None)\<rparr>)"

section \<open>Admission and allocation\<close>

definition set_connection_reservation ::
  "nat \<Rightarrow> ('p \<Rightarrow> bool) \<Rightarrow> 'p stack \<Rightarrow> (stack_error + unit) \<times> 'p stack" where
  "set_connection_reservation slots eligible s =
     (if max_connections (config s) \<le> slots
      then (Inl (InvalidConfig ''reserved connections must leave ordinary capacity''), s)
      else (Inr (), s\<lparr>reservation :=
        (if slots \<noteq> 0 then Some \<lparr>res_slots = slots, res_eligible = eligible\<rparr> else None)\<rparr>))"

definition wrapping_sub64 :: "nat \<Rightarrow> nat \<Rightarrow> nat" where
  "wrapping_sub64 a b = wrap64 (a + 2 ^ 64 - b)"

definition peer_connections :: "'p \<Rightarrow> 'p stack \<Rightarrow> nat" where
  "peer_connections p s = length (filter (\<lambda>(cid, c). peer c = p) (connections s))"

definition ensure_connection_capacity :: "'p \<Rightarrow> 'p stack \<Rightarrow> stack_error + unit" where
  "ensure_connection_capacity p s =
     (if max_connections (config s) \<le> length (connections s)
         \<or> max_connections_per_peer (config s) \<le> peer_connections p s
      then Inl ConnectionLimit
      else (case reservation s of
          None \<Rightarrow> Inr ()
        | Some r \<Rightarrow>
            if wrapping_sub64 (max_connections (config s)) (res_slots r) \<le> length (connections s)
               \<and> \<not> res_eligible r p
            then Inl ConnectionLimit else Inr ()))"

definition allocate_connection_id :: "'p stack \<Rightarrow> connection_id \<times> 'p stack" where
  "allocate_connection_id s =
     (next_connection_id s,
      s\<lparr>next_connection_id := max (wrap64 (next_connection_id s + 1)) 1\<rparr>)"

fun allocate_port_loop :: "nat \<Rightarrow> 'p \<Rightarrow> u16 \<Rightarrow> 'p stack \<Rightarrow> (stack_error + u16) \<times> 'p stack" where
  "allocate_port_loop n p rport s =
     (if n = 0 then (Inl NoEphemeralPort, s)
      else let port = next_ephemeral_port s;
        s1 = s\<lparr>next_ephemeral_port := (if port = 65535 then 49152 else port + 1)\<rparr>
      in if lookup s1 \<lparr>key_peer = p, key_local_port = port, key_remote_port = rport\<rparr> = None
         then (Inr port, s1)
         else allocate_port_loop (n - 1) p rport s1)"

declare allocate_port_loop.simps [simp del]

definition allocate_ephemeral_port :: "'p \<Rightarrow> u16 \<Rightarrow> 'p stack \<Rightarrow> (stack_error + u16) \<times> 'p stack" where
  "allocate_ephemeral_port p rport s = allocate_port_loop 16384 p rport s"

definition xorshift :: "u64 \<Rightarrow> u64" where
  "xorshift v0 =
     (let v1 = v0 XOR push_bit 13 v0;
          v2 = v1 XOR drop_bit 7 v1
      in v2 XOR push_bit 17 v2)"

definition next_isn :: "'p stack \<Rightarrow> u32 \<times> 'p stack" where
  "next_isn s =
     (let v = xorshift (isn_state s)
      in (ucast (v XOR drop_bit 32 v), s\<lparr>isn_state := max v 1\<rparr>))"

section \<open>Opening connections\<close>

definition connect_from_with_isn ::
  "'p \<Rightarrow> u16 \<Rightarrow> u16 \<Rightarrow> u32 \<Rightarrow> nat \<Rightarrow> nat \<times> 'p stack
     \<Rightarrow> (stack_error, connection_id, nat \<times> 'p stack) call" where
  "connect_from_with_isn p lport rport isn now_ms ts =
     (case ts of (token, s) \<Rightarrow>
      if lport = 0 \<or> rport = 0 then Some (Inl ZeroPort, (token, s))
      else (case ensure_connection_capacity p s of
          Inl e \<Rightarrow> Some (Inl e, (token, s))
        | Inr u \<Rightarrow>
            (let key = \<lparr>key_peer = p, key_local_port = lport, key_remote_port = rport\<rparr>
             in if lookup s key \<noteq> None then Some (Inl ConnectionExists, (token, s))
             else (case allocate_connection_id s of
               (cid, s1) \<Rightarrow>
                 (case conn_client p lport rport isn now_ms (config s1) token of
                    None \<Rightarrow> None
                  | Some ((c, segments), token') \<Rightarrow>
                      (let s2 = put_conn cid c (s1\<lparr>lookup := (lookup s1)(key \<mapsto> cid)\<rparr>)
                       in case emit cid segments s2 of
                            (Inl e, s3) \<Rightarrow> Some (Inl e, (token', s3))
                          | (Inr v, s3) \<Rightarrow> Some (Inr cid, (token', s3))))))))"

definition connect ::
  "'p \<Rightarrow> u16 \<Rightarrow> nat \<Rightarrow> nat \<times> 'p stack \<Rightarrow> (stack_error, connection_id, nat \<times> 'p stack) call" where
  "connect p rport now_ms ts =
     (case ts of (token, s) \<Rightarrow>
      (case allocate_ephemeral_port p rport s of
        (Inl e, s1) \<Rightarrow> Some (Inl e, (token, s1))
      | (Inr lport, s1) \<Rightarrow>
          (case next_isn s1 of
             (isn, s2) \<Rightarrow> connect_from_with_isn p lport rport isn now_ms (token, s2))))"

section \<open>Input\<close>

definition input_syn ::
  "'p \<Rightarrow> segment \<Rightarrow> nat \<Rightarrow> nat \<times> 'p stack \<Rightarrow> (stack_error, unit, nat \<times> 'p stack) call" where
  "input_syn p seg now_ms ts =
     (case ts of (token, s) \<Rightarrow>
      if \<not> supports_fips_version seg FIPS_VERSION
      then (case emit_reset p seg s of (r, s1) \<Rightarrow> Some (r, (token, s1)))
      else (case ensure_connection_capacity p s of
          Inl e \<Rightarrow> Some (Inl e, (token, s))
        | Inr u \<Rightarrow>
            (case allocate_connection_id s of
               (cid, s1) \<Rightarrow>
                 (case next_isn s1 of
                    (isn, s2) \<Rightarrow>
                      (case conn_server p seg isn now_ms (config s2) token of
                         None \<Rightarrow> None
                       | Some ((c, segments), token') \<Rightarrow>
                           (let s3 = put_conn cid c
                              (s2\<lparr>lookup := (lookup s2)(\<lparr>key_peer = p,
                                 key_local_port = seg_dst_port seg,
                                 key_remote_port = seg_src_port seg\<rparr> \<mapsto> cid)\<rparr>)
                            in case emit cid segments s3 of
                                 (r, s4) \<Rightarrow> Some (r, (token', s4))))))))"

definition stale_handshake_ack :: "segment \<Rightarrow> 'p connection \<Rightarrow> bool" where
  "stale_handshake_ack seg c \<longleftrightarrow>
     state c = SynSent \<and> \<not> contains (seg_flags seg) RST \<and>
     (case seg_ack seg of
        None \<Rightarrow> False
      | Some a \<Rightarrow> \<not> after a (send_una c) \<or> after a (send_nxt c))"

definition unexpected_syn :: "segment \<Rightarrow> 'p connection \<Rightarrow> bool" where
  "unexpected_syn seg c \<longleftrightarrow>
     state c \<noteq> SynSent \<and> \<not> contains (seg_flags seg) RST \<and> contains (seg_flags seg) SYN \<and>
     (state c \<noteq> SynReceived \<or> seg_seq seg + 1 \<noteq> recv_nxt c)"

definition push_accept :: "u16 \<Rightarrow> connection_id \<Rightarrow> 'p stack \<Rightarrow> 'p stack" where
  "push_accept port cid s =
     s\<lparr>accepts := (accepts s)(port \<mapsto>
         (case accepts s port of None \<Rightarrow> [cid] | Some q \<Rightarrow> q @ [cid]))\<rparr>"

definition apply_update ::
  "connection_id \<Rightarrow> update \<Rightarrow> 'p stack \<Rightarrow> (stack_error + unit) \<times> 'p stack" where
  "apply_update cid u s =
     (case emit cid (upd_segments u) s of
        (Inl e, s1) \<Rightarrow> (Inl e, s1)
      | (Inr v, s1) \<Rightarrow> (Inr (), if upd_closed u then remove_connection cid s1 else s1))"

definition input_existing ::
  "'p \<Rightarrow> connection_id \<Rightarrow> segment \<Rightarrow> nat \<Rightarrow> 'p stack \<Rightarrow> (stack_error, unit, 'p stack) call" where
  "input_existing p cid seg now_ms s =
     (case get_conn cid s of
        None \<Rightarrow> None
      | Some c \<Rightarrow>
          if stale_handshake_ack seg c then Some (emit_reset p seg s)
          else if unexpected_syn seg c then Some (emit cid [ack_segment c] s)
          else (case on_segment seg now_ms (config s) c of
              None \<Rightarrow> None
            | Some (u, c') \<Rightarrow>
                (let s1 = put_conn cid c' s;
                     s2 = (if upd_accepted u then push_accept (local_port c') cid s1 else s1)
                 in Some (apply_update cid u s2))))"

definition input ::
  "'p \<Rightarrow> bytes \<Rightarrow> nat \<Rightarrow> nat \<times> 'p stack \<Rightarrow> (stack_error, unit, nat \<times> 'p stack) call" where
  "input p bs now_ms ts =
     (case ts of (token, s) \<Rightarrow>
      (case decode bs of
        Inl e \<Rightarrow> Some (Inl (Wire e), (token, s))
      | Inr seg \<Rightarrow>
          (case lookup s \<lparr>key_peer = p, key_local_port = seg_dst_port seg,
                          key_remote_port = seg_src_port seg\<rparr> of
             Some cid \<Rightarrow>
               (case input_existing p cid seg now_ms s of
                  None \<Rightarrow> None
                | Some (r, s1) \<Rightarrow> Some (r, (token, s1)))
           | None \<Rightarrow>
               if contains (seg_flags seg) SYN \<and> \<not> contains (seg_flags seg) ACK
                  \<and> seg_dst_port seg \<in> listeners s
               then input_syn p seg now_ms (token, s)
               else if \<not> contains (seg_flags seg) RST
               then (case emit_reset p seg s of (r, s1) \<Rightarrow> Some (r, (token, s1)))
               else Some (Inr (), (token, s)))))"

section \<open>Timers\<close>

definition poll_one :: "nat \<Rightarrow> connection_id \<Rightarrow> 'p stack \<Rightarrow> 'p stack option" where
  "poll_one now_ms cid s =
     (case get_conn cid s of
        None \<Rightarrow> Some s
      | Some c \<Rightarrow>
          (case conn_poll now_ms (config s) c of
             None \<Rightarrow> None
           | Some (u, c') \<Rightarrow>
               (case emit cid (upd_segments u) (put_conn cid c' s) of
                  (r, s1) \<Rightarrow> Some (if upd_closed u then remove_connection cid s1 else s1))))"

fun poll_ids :: "nat \<Rightarrow> connection_id list \<Rightarrow> 'p stack \<Rightarrow> 'p stack option" where
  "poll_ids now_ms [] s = Some s"
| "poll_ids now_ms (cid # ids) s =
     (case poll_one now_ms cid s of None \<Rightarrow> None | Some s1 \<Rightarrow> poll_ids now_ms ids s1)"

definition poll :: "nat \<Rightarrow> 'p stack \<Rightarrow> 'p stack option" where
  "poll now_ms s = poll_ids now_ms (map fst (connections s)) s"

definition next_poll_at :: "nat \<Rightarrow> 'p stack \<Rightarrow> nat option" where
  "next_poll_at now_ms s =
     min_list_opt (List.map_filter (\<lambda>(cid, c). conn_next_poll_at now_ms (config s) c) (connections s))"

section \<open>Stream operations\<close>

definition write_with_marker ::
  "connection_id \<Rightarrow> bytes \<Rightarrow> nat \<Rightarrow> 'p stack
     \<Rightarrow> (stack_error, nat \<times> send_marker, 'p stack) call" where
  "write_with_marker cid bs now_ms s =
     (case get_conn cid s of
        None \<Rightarrow> Some (Inl UnknownConnection, s)
      | Some c \<Rightarrow>
          (case conn_write bs now_ms (config s) c of
             None \<Rightarrow> None
           | Some (Inl e, c') \<Rightarrow> Some (Inl e, put_conn cid c' s)
           | Some (Inr (accepted, segments), c') \<Rightarrow>
               (case emit cid segments (put_conn cid c' s) of
                  (Inl e, s1) \<Rightarrow> Some (Inl e, s1)
                | (Inr v, s1) \<Rightarrow>
                    Some (Inr (accepted, progress_marker cid (send_progress c')), s1))))"

definition stack_write ::
  "connection_id \<Rightarrow> bytes \<Rightarrow> nat \<Rightarrow> 'p stack \<Rightarrow> (stack_error, nat, 'p stack) call" where
  "stack_write cid bs now_ms s =
     call_bind (write_with_marker cid bs now_ms s) (\<lambda>r s1. Some (Inr (fst r), s1))"

definition marker_status :: "send_marker \<Rightarrow> 'p stack \<Rightarrow> marker_status" where
  "marker_status m s =
     (case get_conn (marker_connection_id m) s of
        None \<Rightarrow> ConnectionGone
      | Some c \<Rightarrow> progress_status m (send_progress c))"

definition stack_read ::
  "connection_id \<Rightarrow> nat \<Rightarrow> nat \<Rightarrow> 'p stack \<Rightarrow> (stack_error + bytes) \<times> 'p stack" where
  "stack_read cid maximum now_ms s =
     (case get_conn cid s of
        None \<Rightarrow> (Inl UnknownConnection, s)
      | Some c \<Rightarrow>
          (case conn_read maximum c of
             ((bs, segments), c') \<Rightarrow>
               (case emit cid segments (put_conn cid c' s) of
                  (Inl e, s1) \<Rightarrow> (Inl e, s1)
                | (Inr v, s1) \<Rightarrow> (Inr bs, s1))))"

definition stack_close ::
  "connection_id \<Rightarrow> nat \<Rightarrow> 'p stack \<Rightarrow> (stack_error, unit, 'p stack) call" where
  "stack_close cid now_ms s =
     (case get_conn cid s of
        None \<Rightarrow> Some (Inl UnknownConnection, s)
      | Some c \<Rightarrow>
          (case conn_close now_ms c of
             None \<Rightarrow> None
           | Some (u, c') \<Rightarrow> Some (apply_update cid u (put_conn cid c' s))))"

definition abort :: "connection_id \<Rightarrow> 'p stack \<Rightarrow> (stack_error + unit) \<times> 'p stack" where
  "abort cid s =
     (case get_conn cid s of
        None \<Rightarrow> (Inl UnknownConnection, s)
      | Some c \<Rightarrow>
          (case encode (reset_segment c) of
             Inl e \<Rightarrow> (Inl (Wire e), s)
           | Inr reset \<Rightarrow>
               (let s1 = s\<lparr>outbound := filter (\<lambda>o1.
                        out_peer o1 \<noteq> peer c \<or>
                        (case decode (out_bytes o1) of
                           Inr seg \<Rightarrow> seg_src_port seg \<noteq> local_port c
                             \<or> seg_dst_port seg \<noteq> remote_port c
                         | Inl e \<Rightarrow> True)) (outbound s)\<rparr>;
                    s2 = s1\<lparr>outbound := outbound s1 @ [\<lparr>out_peer = peer c, out_bytes = reset\<rparr>]\<rparr>
                in (Inr (), remove_connection cid s2))))"

fun abort_ids :: "connection_id list \<Rightarrow> 'p stack \<Rightarrow> (stack_error + unit) \<times> 'p stack" where
  "abort_ids [] s = (Inr (), s)"
| "abort_ids (cid # ids) s =
     (case abort cid s of
        (Inl e, s1) \<Rightarrow> (Inl e, s1)
      | (Inr u, s1) \<Rightarrow> abort_ids ids s1)"

definition abort_peer :: "'p \<Rightarrow> 'p stack \<Rightarrow> (stack_error + nat) \<times> 'p stack" where
  "abort_peer p s =
     (let ids = map fst (filter (\<lambda>(cid, c). peer c = p) (connections s))
      in case abort_ids ids s of
           (Inl e, s1) \<Rightarrow> (Inl e, s1)
         | (Inr u, s1) \<Rightarrow> (Inr (length ids), s1))"

section \<open>Queries\<close>

definition stack_state :: "connection_id \<Rightarrow> 'p stack \<Rightarrow> tcp_state option" where
  "stack_state cid s = map_option state (get_conn cid s)"

definition is_read_closed :: "connection_id \<Rightarrow> 'p stack \<Rightarrow> bool" where
  "is_read_closed cid s = (case get_conn cid s of None \<Rightarrow> True | Some c \<Rightarrow> read_closed c)"

definition stack_peer :: "connection_id \<Rightarrow> 'p stack \<Rightarrow> 'p option" where
  "stack_peer cid s = map_option peer (get_conn cid s)"

definition ports :: "connection_id \<Rightarrow> 'p stack \<Rightarrow> (u16 \<times> u16) option" where
  "ports cid s = map_option (\<lambda>c. (local_port c, remote_port c)) (get_conn cid s)"

definition drain_outbound :: "'p stack \<Rightarrow> 'p outbound list \<times> 'p stack" where
  "drain_outbound s = (outbound s, s\<lparr>outbound := []\<rparr>)"

end
