(* ===== verification/Addressed.thy ===== *)
theory Addressed
  imports Machine Receiver
begin

text \<open>
  What every segment of a connection has in common: it can be encoded, and it carries the ports of
  its connection. Each operation of theory \<open>Machine\<close> gets one lemma. The only thing they need of
  the connection is \<open>ready\<close>, which the connection invariant gives (theory \<open>Stack_Invariant\<close>).
\<close>

definition sends :: "'p connection \<Rightarrow> segment \<Rightarrow> bool" where
  "sends c s \<longleftrightarrow> good_segment s \<and> seg_src_port s = local_port c \<and> seg_dst_port s = remote_port c"

definition ready :: "'p connection \<Rightarrow> bool" where
  "ready c \<longleftrightarrow> local_port c \<noteq> 0 \<and> remote_port c \<noteq> 0 \<and>
     (\<forall>t \<in> set (unacked c). trk_flags t AND NOT SUPPORTED_MASK = 0)"

definition talks :: "'p connection \<Rightarrow> segment list \<Rightarrow> 'p connection \<Rightarrow> bool" where
  "talks c segs c' \<longleftrightarrow> ready c' \<and> local_port c' = local_port c \<and> remote_port c' = remote_port c \<and>
     (\<forall>s \<in> set segs. sends c s)"

lemma talks_refl: "ready c \<Longrightarrow> talks c [] c"
  by (simp add: talks_def)

lemma talks_trans: "talks c xs d \<Longrightarrow> talks d ys e \<Longrightarrow> talks c (xs @ ys) e"
  by (auto simp: talks_def sends_def)

lemma talks_ready: "talks c xs d \<Longrightarrow> ready d"
  by (simp add: talks_def)

lemma talks_quiet: "ready c \<Longrightarrow> unacked c' = unacked c \<Longrightarrow> local_port c' = local_port c \<Longrightarrow>
    remote_port c' = remote_port c \<Longrightarrow> talks c [] c'"
  by (simp add: talks_def ready_def)

lemma sends_built: "ready c \<Longrightarrow> hdr_local_port h = local_port c \<Longrightarrow>
    hdr_remote_port h = remote_port c \<Longrightarrow> hdr_flags h AND NOT SUPPORTED_MASK = 0 \<Longrightarrow>
    sends c (build_segment h p)"
  using build_segment_good [of h p] by (simp add: sends_def ready_def)

lemma sends_ack [simp]: "ready c \<Longrightarrow> sends c (ack_segment c)"
  unfolding ack_segment_def by (rule sends_built) simp_all

lemma sends_reset [simp]: "ready c \<Longrightarrow> sends c (reset_segment c)"
  unfolding reset_segment_def by (rule sends_built) simp_all

section \<open>Sending\<close>

lemma talks_send_tracked:
  assumes "ready c" "fs AND NOT SUPPORTED_MASK = 0"
  shows "talks c [fst (send_tracked fs p now c)] (snd (send_tracked fs p now c))"
proof -
  have "sends c (fst (send_tracked fs p now c))"
    unfolding send_tracked_def segment_for_def Let_def fst_conv
    by (rule sends_built) (use assms in simp_all)
  then show ?thesis
    using assms by (auto simp: talks_def ready_def send_tracked_def Let_def)
qed

lemma talks_flush_loop:
  assumes "flush_loop now out c = Some r" "ready c"
  shows "\<exists>segs. fst r = out @ segs \<and> talks c segs (snd r)"
proof -
  have "ready c \<longrightarrow> (\<exists>segs. fst r = out @ segs \<and> talks c segs (snd r))"
  proof (rule flush_loop.raw_induct [of "\<lambda>now out c r.
      ready c \<longrightarrow> (\<exists>segs. fst r = out @ segs \<and> talks c segs (snd r))", OF _ assms(1)], rule impI)
    fix f now out and c :: "'a connection" and r
    assume ih: "\<And>now out c r. f now out c = Some r \<Longrightarrow>
        ready c \<longrightarrow> (\<exists>segs. fst r = out @ segs \<and> talks c segs (snd r))"
      and r: "(let available = send_window c
        in if available = 0 \<or> send_queue c = [] then Some (out, c)
        else let count = min (min available (mss c)) (length (send_queue c));
          payload = take count (send_queue c);
          sent = send_tracked (ACK OR PSH) payload now (c\<lparr>send_queue := drop count (send_queue c)\<rparr>)
        in f now (out @ [fst sent]) (snd sent)) = Some r"
      and c: "ready c"
    show "\<exists>segs. fst r = out @ segs \<and> talks c segs (snd r)"
    proof (cases "send_window c = 0 \<or> send_queue c = []")
      case True
      then show ?thesis using r c by (auto simp: Let_def intro: talks_refl)
    next
      case False
      let ?n = "min (min (send_window c) (mss c)) (length (send_queue c))"
      let ?sent = "send_tracked (ACK OR PSH) (take ?n (send_queue c)) now
         (c\<lparr>send_queue := drop ?n (send_queue c)\<rparr>)"
      have q: "talks c [] (c\<lparr>send_queue := drop ?n (send_queue c)\<rparr>)"
        using c by (rule talks_quiet) simp_all
      have t: "talks c [fst ?sent] (snd ?sent)"
        using talks_trans [OF q talks_send_tracked [OF talks_ready [OF q]]] by simp
      have "f now (out @ [fst ?sent]) (snd ?sent) = Some r"
        using r False by (simp add: Let_def)
      with ih talks_ready [OF t]
      obtain segs where "fst r = (out @ [fst ?sent]) @ segs" "talks (snd ?sent) segs (snd r)"
        by blast
      then show ?thesis
        using talks_trans [OF t] by (intro exI [of _ "fst ?sent # segs"]) auto
    qed
  qed
  with assms(2) show ?thesis by simp
qed

lemma talks_flush_data:
  assumes c: "ready c" and f: "flush_data now c = Some (segs, c')"
  shows "talks c segs c'"
proof (cases "state c \<noteq> Established \<and> state c \<noteq> CloseWait")
  case True
  then show ?thesis using f talks_refl [OF c] by (simp add: flush_data_def)
next
  case False
  then obtain out c1 where l: "flush_loop now [] c = Some (out, c1)"
    and fin: "(segs, c') = flush_fin now out c1"
    using f by (auto simp: flush_data_def split: option.splits if_splits)
  have t: "talks c out c1" using talks_flush_loop [OF l c] by simp
  show ?thesis
  proof (cases "close_requested c1 \<and> send_queue c1 = [] \<and> 0 < send_window c1")
    case True
    let ?d = "c1\<lparr>close_requested := False,
      state := (if state c1 = Established then FinWait1 else LastAck)\<rparr>"
    have d: "talks c1 [] ?d" using talks_ready [OF t] by (rule talks_quiet) simp_all
    have "talks c1 [fst (send_tracked (FIN OR ACK) [] now ?d)] (snd (send_tracked (FIN OR ACK) [] now ?d))"
      using talks_trans [OF d talks_send_tracked [OF talks_ready [OF d]]] by simp
    with True fin show ?thesis using talks_trans [OF t] by (simp add: flush_fin_def Let_def)
  next
    case False
    then show ?thesis using fin t by (auto simp: flush_fin_def)
  qed
qed

section \<open>Retransmitting and probing\<close>

lemma talks_retransmit:
  assumes "ready c"
  shows "talks c (case fst (retransmit_oldest now tmo c) of None \<Rightarrow> [] | Some s \<Rightarrow> [s])
     (snd (retransmit_oldest now tmo c))"
proof (cases "unacked c")
  case (Cons t ts)
  then have "trk_flags t AND NOT SUPPORTED_MASK = 0" using assms by (simp add: ready_def)
  then have "sends c (build_segment
      \<lparr>hdr_local_port = local_port c, hdr_remote_port = remote_port c, hdr_seq = q,
       hdr_ack = recv_nxt c, hdr_window = available_window_u16 c, hdr_mss = of_nat (mss c),
       hdr_flags = trk_flags t\<rparr> p)" for q p
    using assms by (intro sends_built) simp_all
  then show ?thesis
    using assms Cons by (auto simp: retransmit_oldest_def talks_def ready_def Let_def)
qed (use assms talks_refl in \<open>auto simp: retransmit_oldest_def\<close>)

lemma talks_repair:
  assumes "ready c"
  shows "talks c (case fst (repair_timed_out_flight now cfg c) of None \<Rightarrow> [] | Some s \<Rightarrow> [s])
     (snd (repair_timed_out_flight now cfg c))"
  using talks_retransmit [OF assms] talks_refl [OF assms]
  by (auto simp: repair_timed_out_flight_def split: list.split)

lemma talks_zero_window_probe:
  assumes "ready c"
  shows "talks c (case fst (zero_window_probe now c) of None \<Rightarrow> [] | Some s \<Rightarrow> [s])
     (snd (zero_window_probe now c))"
proof (cases "find (\<lambda>t. trk_payload t \<noteq> []) (unacked c)")
  case None
  show ?thesis
  proof (cases "send_queue c")
    case Nil
    with None show ?thesis using talks_refl [OF assms] by (simp add: zero_window_probe_def)
  next
    case (Cons byte rest)
    have q: "talks c [] (c\<lparr>send_queue := rest\<rparr>)" using assms by (rule talks_quiet) simp_all
    show ?thesis
      using talks_trans [OF q talks_send_tracked [OF talks_ready [OF q]]] None Cons
      by (simp add: zero_window_probe_def Let_def)
  qed
next
  case (Some t)
  have "sends c (build_segment
      \<lparr>hdr_local_port = local_port c, hdr_remote_port = remote_port c, hdr_seq = trk_seq t,
       hdr_ack = recv_nxt c, hdr_window = available_window_u16 c, hdr_mss = of_nat (mss c),
       hdr_flags = ACK OR PSH\<rparr> [trk_payload t ! 0])"
    using assms by (rule sends_built) simp_all
  with Some show ?thesis
    using assms by (simp add: zero_window_probe_def talks_def ready_def)
qed

section \<open>Receiving\<close>

lemma talks_recv_frame: "ready c \<Longrightarrow> recv_frame c c' \<Longrightarrow> talks c [] c'"
  by (rule talks_quiet) (simp_all add: recv_frameD)

lemma talks_update_remote_window: "ready c \<Longrightarrow> talks c [] (update_remote_window w now c)"
  by (rule talks_quiet) (simp_all add: update_remote_window_def Let_def)

lemma talks_receive_if_data:
  assumes "talks c out d"
  shows "talks c (fst (receive_if_data s now cfg out d)) (snd (receive_if_data s now cfg out d))"
proof -
  let ?e = "snd (receive_stream_data s now cfg d)"
  have "talks d [] ?e"
    using talks_ready [OF assms] receive_stream_data_frame by (rule talks_recv_frame)
  moreover have "talks ?e [ack_segment ?e] ?e"
    using talks_ready [OF calculation] by (simp add: talks_def)
  moreover have "fst (receive_stream_data s now cfg d) = [ack_segment ?e]"
    by (simp add: receive_stream_data_def Let_def)
  ultimately show ?thesis
    using talks_trans [OF assms, of "[ack_segment ?e]" ?e] talks_trans [of d "[]" ?e "[ack_segment ?e]" ?e] assms
    by (simp add: receive_if_data_def Let_def)
qed

section \<open>Acknowledgments\<close>

lemma pop_acked_flags:
  "pop_acked r ack now pl fin sample ts = (pl', fin', sample', ts') \<Longrightarrow> set ts' \<subseteq> set ts"
  by (induction ts arbitrary: pl fin sample) (auto split: if_splits)

lemma trim_front_flags:
  "trim_front ack ts = (n, ts') \<Longrightarrow> trk_flags ` set ts' = trk_flags ` set ts"
  by (cases ts) (auto simp: Let_def split: if_splits)

lemma talks_new_ack:
  assumes c: "ready c" and a: "apply_new_ack ack now c = Some (outcome, c')"
  shows "talks c [] c' \<and> ack_retransmit outcome = None"
proof -
  obtain pl fin sample rest n rest' where
    p: "pop_acked (rtt c) ack now 0 False None (unacked c) = (pl, fin, sample, rest)"
    and t: "trim_front ack rest = (n, rest')"
    by (metis prod_cases4 surj_pair)
  have "trk_flags ` set rest' \<subseteq> trk_flags ` set (unacked c)"
    using pop_acked_flags [OF p] trim_front_flags [OF t] by auto
  then have "\<forall>t \<in> set rest'. trk_flags t AND NOT SUPPORTED_MASK = 0"
    using c by (fastforce simp: ready_def)
  with a p t c show ?thesis
    by (auto simp: apply_new_ack_def talks_def ready_def split: option.splits)
qed

lemma talks_apply_ack:
  assumes c: "ready c" and a: "apply_ack ack now dup c = Some (outcome, c')"
  shows "talks c (case ack_retransmit outcome of None \<Rightarrow> [] | Some s \<Rightarrow> [s]) c'"
proof -
  have quiet: "talks c [] (c\<lparr>duplicate_acks := n, reno := x\<rparr>)" "talks c [] (c\<lparr>duplicate_acks := n\<rparr>)" for n x
    using c by (auto intro!: talks_quiet)
  have dup: "talks c (case ack_retransmit (fst (apply_duplicate_ack now c)) of None \<Rightarrow> [] | Some s \<Rightarrow> [s])
      (snd (apply_duplicate_ack now c))"
    using quiet(1) talks_trans [OF quiet(1) talks_retransmit [OF talks_ready [OF quiet(1)]]]
    by (simp add: apply_duplicate_ack_def no_outcome_def Let_def talks_def)
  show ?thesis
    using a dup talks_new_ack [OF c] talks_refl [OF c] quiet(2)
    by (auto simp: apply_ack_def no_outcome_def split: if_splits)
qed

lemma talks_process_ack:
  assumes c: "ready c" and a: "process_ack s ack now cfg c = Some ((fin, out), c')"
  shows "talks c out c'"
proof -
  let ?d = "is_duplicate_ack_candidate s (send_una c) (remote_window c)"
  obtain outcome c1 where a1: "apply_ack ack now ?d c = Some (outcome, c1)"
    using a by (auto simp: process_ack_def Let_def split: option.splits)
  let ?o = "case ack_retransmit outcome of None \<Rightarrow> [] | Some r \<Rightarrow> [r]"
  have t1: "talks c ?o c1" using c a1 by (rule talks_apply_ack)
  define c2 where "c2 = (if ack_fin_acked outcome then fin_acked_transition now cfg c1 else c1)"
  define c3 where "c3 = (if in_closed_interval ack (send_una c2) (send_nxt c2)
                      then update_remote_window (seg_window s) now c2 else c2)"
  have t2: "talks c1 [] c2"
    using talks_ready [OF t1] by (rule talks_quiet)
      (simp_all add: c2_def fin_acked_transition_def enter_time_wait_def split: tcp_state.split)
  have t3: "talks c2 [] c3"
    using talks_ready [OF t2] by (simp add: c3_def talks_update_remote_window talks_refl)
  define rep where "rep = (if after (send_una c3) (send_una c)
    then repair_timed_out_flight now cfg c3 else (None, c3))"
  have t4: "talks c3 (case fst rep of None \<Rightarrow> [] | Some r \<Rightarrow> [r]) (snd rep)"
    using talks_ready [OF t3] by (simp add: rep_def talks_repair talks_refl)
  show ?thesis
  proof (cases "ack_fin_acked outcome \<and> state c1 = LastAck")
    case True
    then show ?thesis using a a1 t1 by (simp add: process_ack_def Let_def)
  next
    case False
    then have "process_ack s ack now cfg c =
        Some ((False, ?o @ (case fst rep of None \<Rightarrow> [] | Some r \<Rightarrow> [r])), snd rep)"
      using a1 unfolding rep_def c3_def c2_def by (simp add: process_ack_def Let_def)
    with a have "out = ?o @ (case fst rep of None \<Rightarrow> [] | Some r \<Rightarrow> [r])" "c' = snd rep" by simp_all
    then show ?thesis
      using talks_trans [OF t1 talks_trans [OF t2 talks_trans [OF t3 t4]]] by simp
  qed
qed

section \<open>Entry points\<close>

lemma talks_receive_flush:
  assumes t: "talks c out d" and f: "flush_data now (snd (receive_if_data s now cfg out d)) = Some (flushed, e)"
  shows "talks c (fst (receive_if_data s now cfg out d) @ flushed) e"
  using talks_trans [OF talks_receive_if_data [OF t] talks_flush_data [OF _ f]]
    talks_ready [OF talks_receive_if_data [OF t]] by blast

lemma talks_on_synchronized:
  assumes c: "ready c" and "on_synchronized s now cfg c = Some (u, c')"
  shows "talks c (upd_segments u) c'"
proof -
  obtain fin out c1 where p: "(case seg_ack s of None \<Rightarrow> Some ((False, []), c)
      | Some ack \<Rightarrow> process_ack s ack now cfg c) = Some ((fin, out), c1)"
    using assms(2) by (auto simp: on_synchronized_def split: option.splits)
  have t: "talks c out c1"
    using p talks_process_ack [OF c] talks_refl [OF c] by (auto split: option.splits)
  show ?thesis
  proof (cases fin)
    case True
    then show ?thesis using assms(2) p t by (auto simp: on_synchronized_def update_close_def)
  next
    case False
    then obtain flushed where
      f: "flush_data now (snd (receive_if_data s now cfg out c1)) = Some (flushed, c')"
      and u: "u = update_open (fst (receive_if_data s now cfg out c1) @ flushed)"
      using assms(2) p by (auto simp: on_synchronized_def Let_def split: option.splits)
    show ?thesis using talks_receive_flush [OF t f] by (simp add: u update_open_def)
  qed
qed

lemma talks_on_syn_sent:
  assumes c: "ready c" and o: "on_syn_sent s now cfg c = Some (u, c')"
  shows "talks c (upd_segments u) c'"
proof -
  define c2 where "c2 = negotiate_mss s cfg (update_remote_window (seg_window s) now c)"
  have t2: "talks c [] c2"
    using c by (rule talks_quiet)
      (simp_all add: c2_def negotiate_mss_def update_remote_window_def Let_def)
  show ?thesis
  proof (cases "u = update_open [] \<and> c' = c")
    case True
    then show ?thesis using talks_refl [OF c] by (simp add: update_open_def)
  next
    case False
    then obtain outcome c3 where a: "apply_ack (send_nxt c2) now False c2 = Some (outcome, c3)"
      and u: "c' = c3\<lparr>recv_nxt := seg_seq s + 1, state := Established\<rparr>" "u = update_open [ack_segment c']"
      using o by (auto simp: on_syn_sent_def Let_def simp flip: c2_def split: if_splits option.splits)
    have "talks c2 [] c3"
      using talks_apply_ack [OF talks_ready [OF t2] a] by (auto simp: talks_def)
    then have "talks c [] c3" using talks_trans [OF t2] by fastforce
    moreover have "talks c3 [] c'"
      using talks_ready [OF calculation] by (rule talks_quiet) (simp_all add: u)
    ultimately have "talks c [] c'" using talks_trans by fastforce
    then show ?thesis
      using talks_trans [of c "[]" c' "[ack_segment c']" c'] talks_ready
      by (simp add: u(2) update_open_def talks_def)
  qed
qed

lemma talks_on_syn_received:
  assumes c: "ready c" and o: "on_syn_received s now cfg c = Some (u, c')"
  shows "talks c (upd_segments u) c'"
proof -
  define again where "again \<longleftrightarrow> contains (seg_flags s) SYN \<and> \<not> contains (seg_flags s) ACK
    \<and> seg_seq s + 1 = recv_nxt c"
  consider (again) again | (ignored) "\<not> again" "seg_ack s \<noteq> Some (send_nxt c)"
    | (acked) "\<not> again" "seg_ack s = Some (send_nxt c)" by blast
  then show ?thesis
  proof cases
    case again
    then have "u = update_open (case fst (retransmit_oldest now False c) of None \<Rightarrow> [] | Some r \<Rightarrow> [r])"
      "c' = snd (retransmit_oldest now False c)"
      using o by (simp_all add: on_syn_received_def Let_def again_def)
    then show ?thesis using talks_retransmit [OF c] by (simp add: update_open_def)
  next
    case ignored
    then show ?thesis using o talks_refl [OF c] by (auto simp: on_syn_received_def update_open_def again_def split: if_splits)
  next
    case acked
    then obtain outcome c1 where a: "apply_ack (send_nxt c) now False c = Some (outcome, c1)"
      using o by (cases "apply_ack (send_nxt c) now False c") (auto simp: on_syn_received_def again_def)
    have "talks c [] c1" using talks_apply_ack [OF c a] by (auto simp: talks_def)
    define c2 where "c2 = (update_remote_window (seg_window s) now c1)\<lparr>state := Established\<rparr>"
    have "talks c1 [] c2"
      using talks_ready [OF \<open>talks c [] c1\<close>] by (rule talks_quiet)
        (simp_all add: c2_def update_remote_window_def Let_def)
    then have t2: "talks c [] c2" using talks_trans [OF \<open>talks c [] c1\<close>] by fastforce
    obtain flushed c3 where f: "flush_data now (snd (receive_if_data s now cfg [] c2)) = Some (flushed, c3)"
      using o acked a by (cases "flush_data now (snd (receive_if_data s now cfg [] c2))")
        (auto simp: on_syn_received_def again_def Let_def simp flip: c2_def)
    then have "upd_segments u = fst (receive_if_data s now cfg [] c2) @ flushed" "c' = c3"
      using o acked a by (auto simp: on_syn_received_def again_def Let_def simp flip: c2_def)
    then show ?thesis using talks_receive_flush [OF t2 f] by simp
  qed
qed

lemma on_reset_segments:
  "upd_segments (on_reset s c) = [] \<or> upd_segments (on_reset s c) = [ack_segment c]"
  by (simp add: on_reset_def update_open_def update_close_def Let_def)

lemma talks_on_segment:
  assumes c: "ready c" and o: "on_segment s now cfg c = Some (u, c')"
  shows "talks c (upd_segments u) c'"
proof (cases "contains (seg_flags s) RST")
  case True
  then have "c' = c" "upd_segments u = [] \<or> upd_segments u = [ack_segment c]"
    using o on_reset_segments [of s c] by (auto simp: on_segment_def)
  then show ?thesis using c by (auto simp: talks_def)
next
  case False
  then show ?thesis
    using o talks_on_syn_sent [OF c] talks_on_syn_received [OF c] talks_on_synchronized [OF c]
    by (auto simp: on_segment_def split: if_splits)
qed

lemma talks_conn_write:
  assumes c: "ready c" and w: "conn_write bs now cfg c = Some (Inr (n, segs), c')"
  shows "talks c segs c'"
proof -
  obtain progress where f: "flush_data now (c\<lparr>send_queue := send_queue c @ take n bs,
      send_progress := progress\<rparr>) = Some (segs, c')"
    using w by (auto simp: conn_write_def Let_def split: if_splits option.splits)
  have "talks c [] (c\<lparr>send_queue := send_queue c @ take n bs, send_progress := progress\<rparr>)"
    using c by (rule talks_quiet) simp_all
  from talks_trans [OF this talks_flush_data [OF talks_ready [OF this] f]] show ?thesis by simp
qed

lemma talks_conn_read:
  assumes "ready c"
  shows "talks c (snd (fst (conn_read m c))) (snd (conn_read m c))"
proof -
  let ?d = "c\<lparr>recv_queue := drop (min m (length (recv_queue c))) (recv_queue c)\<rparr>"
  have d: "talks c [] ?d" using assms by (rule talks_quiet) simp_all
  then have "talks c [ack_segment ?d] ?d"
    using talks_trans [OF d, of "[ack_segment ?d]" ?d] talks_ready [OF d] by (simp add: talks_def)
  with d show ?thesis by (simp add: conn_read_def Let_def)
qed

lemma talks_conn_close:
  assumes c: "ready c" and w: "conn_close now c = Some (u, c')"
  shows "talks c (upd_segments u) c'"
proof -
  have q: "talks c [] (c\<lparr>close_requested := True\<rparr>)" using c by (rule talks_quiet) simp_all
  show ?thesis
    using w talks_refl [OF c] talks_trans [OF q talks_flush_data [OF talks_ready [OF q]]]
    by (auto simp: conn_close_def update_open_def update_close_def split: if_splits option.splits)
qed

lemma talks_poll_flush:
  assumes "talks c out d" "poll_flush now out d = Some (u, c')"
  shows "talks c (upd_segments u) c'"
  using assms(2) talks_trans [OF assms(1) talks_flush_data [OF talks_ready [OF assms(1)]]]
  by (auto simp: poll_flush_def update_open_def split: option.splits)

lemma talks_on_rto:
  assumes "ready c"
  shows "talks c (fst (on_rto now c)) (snd (on_rto now c))"
proof -
  let ?d = "c\<lparr>rto_recovery_until := (case rto_recovery_until c of
       Some e \<Rightarrow> Some e | None \<Rightarrow> Some (send_nxt c)),
     reno := reno_on_timeout (distance (send_una c) (send_nxt c)) (reno c),
     rtt := rtt_on_timeout (rtt c)\<rparr>"
  have d: "talks c [] ?d" using assms by (rule talks_quiet) simp_all
  show ?thesis
    using talks_trans [OF d talks_retransmit [OF talks_ready [OF d]]] by (simp add: on_rto_def Let_def)
qed

lemma talks_poll_zero_window:
  assumes "ready c"
  shows "talks c (upd_segments (fst (poll_zero_window now cfg c))) (snd (poll_zero_window now cfg c))"
proof -
  define d where "d = c\<lparr>next_zero_window_probe_ms := Some (case next_zero_window_probe_ms c of
       Some d \<Rightarrow> d | None \<Rightarrow> sat_add64 now (initial_rto_ms cfg))\<rparr>"
  have d: "talks c [] d" using assms unfolding d_def by (rule talks_quiet) simp_all
  obtain probe e where z: "zero_window_probe now d = (probe, e)" by force
  have e: "talks c (case probe of None \<Rightarrow> [] | Some s \<Rightarrow> [s]) e"
    using talks_trans [OF d talks_zero_window_probe [OF talks_ready [OF d], of now]] z by simp
  have "talks e [] (e\<lparr>zero_window_probes := a, next_zero_window_probe_ms := b\<rparr>)" for a b
    using talks_ready [OF e] by (rule talks_quiet) simp_all
  then have "talks c (case probe of None \<Rightarrow> [] | Some s \<Rightarrow> [s])
      (e\<lparr>zero_window_probes := a, next_zero_window_probe_ms := b\<rparr>)" for a b
    using talks_trans [OF e] by (metis append_Nil2)
  then show ?thesis
    using d e z unfolding poll_zero_window_def Let_def
    by (auto simp: update_open_def update_close_def simp flip: d_def split: option.split)
qed

lemma conn_poll_cases:
  obtains (closed) "conn_poll now cfg c = Some (update_close [], c)"
    | (zero) "conn_poll now cfg c = Some (poll_zero_window now cfg c)"
    | (quiet) "conn_poll now cfg c = poll_flush now [] c"
    | (rto) "conn_poll now cfg c = poll_flush now (fst (on_rto now c)) (snd (on_rto now c))"
proof (cases "case close_deadline c of None \<Rightarrow> False | Some d \<Rightarrow> d \<le> now")
  case True
  then show thesis by (intro closed) (simp add: conn_poll_def)
next
  case open_: False
  show thesis
  proof (cases "remote_window c = 0 \<and> (close_requested c \<or> has_probe_payload c)")
    case True
    with open_ show thesis by (intro zero) (simp add: conn_poll_def)
  next
    case False
    show thesis
    proof (cases "unacked c")
      case Nil
      with open_ False show thesis by (intro quiet) (auto simp: conn_poll_def)
    next
      case (Cons t ts)
      consider "now < retransmit_deadline c t"
        | "retransmit_deadline c t \<le> now" "max_retransmissions cfg \<le> transmissions t"
        | "retransmit_deadline c t \<le> now" "transmissions t < max_retransmissions cfg" by linarith
      then show thesis
      proof cases
        case 1
        with open_ False Cons show thesis by (intro quiet) (auto simp: conn_poll_def)
      next
        case 2
        with open_ False Cons show thesis by (intro closed) (auto simp: conn_poll_def)
      next
        case 3
        with open_ False Cons show thesis by (intro rto) (auto simp: conn_poll_def split_beta)
      qed
    qed
  qed
qed

lemma talks_conn_poll:
  assumes c: "ready c" and w: "conn_poll now cfg c = Some (u, c')"
  shows "talks c (upd_segments u) c'"
proof (cases rule: conn_poll_cases [of now cfg c])
  case closed
  then show ?thesis using w talks_refl [OF c] by (auto simp: update_close_def)
next
  case zero
  then show ?thesis using w talks_poll_zero_window [OF c, of now cfg]
    by (cases "poll_zero_window now cfg c") simp
next
  case quiet
  then show ?thesis using w talks_poll_flush [OF talks_refl [OF c]] by simp
next
  case rto
  then show ?thesis using w talks_poll_flush [OF talks_on_rto [OF c]] by simp
qed

end
