(* ===== verification/Stack_Invariant.thy ===== *)
theory Stack_Invariant
  imports Stack Addressed Conn_System
begin

text \<open>
  The invariant of the stack. \<open>table_ok\<close>: the connection table and the lookup table are inverse to
  each other on the address keys. \<open>conns_ok\<close>: every connection satisfies the connection invariant and
  has an identifier that was allocated. \<open>room_ok\<close>: the connection limits hold. \<open>accepts_ok\<close>: the accept
  queues hold each connection once, only for its own port and only after its handshake.
  \<open>packets_ok\<close>: every queued datagram decodes. The token counter of \<open>marker.rs\<close> runs ahead of the
  identifiers, so that no identifier is ever given out twice.
\<close>

section \<open>The table as an association list\<close>

lemma length_update: "length (AList.update k v al) = (if map_of al k = None then Suc (length al) else length al)"
  by (induction al) auto

lemma delete_update [simp]: "AList.delete k (AList.update k v al) = AList.delete k al"
  by (induction al) auto

lemma filter_update_same:
  "map_of al k = Some v \<Longrightarrow> P v' = P v \<Longrightarrow>
     length (filter (\<lambda>(k, v). P v) (AList.update k v' al)) = length (filter (\<lambda>(k, v). P v) al)"
  by (induction al) auto

lemma filter_update_new:
  "map_of al k = None \<Longrightarrow> length (filter (\<lambda>(k, v). P v) (AList.update k v' al))
     = length (filter (\<lambda>(k, v). P v) al) + (if P v' then 1 else 0)"
  by (induction al) auto

lemma filter_delete_le:
  "length (filter (\<lambda>(k, v). P v) (AList.delete k al)) \<le> length (filter (\<lambda>(k, v). P v) al)"
  by (induction al) auto

lemma get_conn_simps [simp]:
  "get_conn cid (put_conn cid' c s) = (if cid = cid' then Some c else get_conn cid s)"
  "config (put_conn cid' c s) = config s" "lookup (put_conn cid' c s) = lookup s"
  "accepts (put_conn cid' c s) = accepts s" "outbound (put_conn cid' c s) = outbound s"
  "reservation (put_conn cid' c s) = reservation s" "listeners (put_conn cid' c s) = listeners s"
  "next_connection_id (put_conn cid' c s) = next_connection_id s"
  "next_ephemeral_port (put_conn cid' c s) = next_ephemeral_port s"
  "isn_state (put_conn cid' c s) = isn_state s"
  "connections (put_conn cid' c s) = AList.update cid' c (connections s)"
  by (simp_all add: get_conn_def put_conn_def update_conv')

lemma remove_connection_simps [simp]:
  "config (remove_connection cid s) = config s" "accepts (remove_connection cid s) = accepts s"
  "outbound (remove_connection cid s) = outbound s"
  "reservation (remove_connection cid s) = reservation s"
  "listeners (remove_connection cid s) = listeners s"
  "next_connection_id (remove_connection cid s) = next_connection_id s"
  "next_ephemeral_port (remove_connection cid s) = next_ephemeral_port s"
  "isn_state (remove_connection cid s) = isn_state s"
  by (simp_all add: remove_connection_def split: option.split)

lemma remove_connection_table:
  "get_conn cid s = Some c \<Longrightarrow> connections (remove_connection cid s) = AList.delete cid (connections s)"
  "get_conn cid s = Some c \<Longrightarrow> lookup (remove_connection cid s) = (lookup s)(conn_key c := None)"
  "get_conn cid' (remove_connection cid s) = (if cid' = cid then None else get_conn cid' s)"
  by (auto simp: remove_connection_def get_conn_def delete_conv' split: option.split)

section \<open>The invariant\<close>

definition table_ok :: "'p stack \<Rightarrow> bool" where
  "table_ok s \<longleftrightarrow> distinct (map fst (connections s)) \<and>
     (\<forall>cid c. get_conn cid s = Some c \<longrightarrow> lookup s (conn_key c) = Some cid) \<and>
     (\<forall>k cid. lookup s k = Some cid \<longrightarrow> (\<exists>c. get_conn cid s = Some c \<and> conn_key c = k))"

definition conns_ok :: "'p stack \<Rightarrow> bool" where
  "conns_ok s \<longleftrightarrow> (\<forall>cid c. get_conn cid s = Some c \<longrightarrow>
     conn_inv (config s) c \<and> cid < next_connection_id s)"

definition room_ok :: "'p stack \<Rightarrow> bool" where
  "room_ok s \<longleftrightarrow> length (connections s) \<le> max_connections (config s) \<and>
     (\<forall>p. peer_connections p s \<le> max_connections_per_peer (config s)) \<and>
     (\<forall>r. reservation s = Some r \<longrightarrow> res_slots r < max_connections (config s))"

text \<open>
  \<open>H\<close> is a set of identifiers that \<open>accept\<close> has handed out: they are past the handshake, if they still
  exist, and no queue holds them.
\<close>

definition accepts_ok :: "connection_id set \<Rightarrow> 'p stack \<Rightarrow> bool" where
  "accepts_ok H s \<longleftrightarrow> (\<forall>port q. accepts s port = Some q \<longrightarrow> distinct q \<and> set q \<inter> H = {} \<and>
     (\<forall>cid \<in> set q. cid < next_connection_id s \<and>
        (\<forall>c. get_conn cid s = Some c \<longrightarrow> local_port c = port \<and> phase (state c) \<noteq> Opening))) \<and>
     (\<forall>cid \<in> H. cid < next_connection_id s \<and>
        (\<forall>c. get_conn cid s = Some c \<longrightarrow> phase (state c) \<noteq> Opening))"

definition packets_ok :: "'p stack \<Rightarrow> bool" where
  "packets_ok s \<longleftrightarrow> (\<forall>x \<in> set (outbound s). \<exists>seg. decode (out_bytes x) = Inr seg)"

definition generators_ok :: "'p stack \<Rightarrow> bool" where
  "generators_ok s \<longleftrightarrow> 49152 \<le> next_ephemeral_port s \<and> isn_state s \<noteq> 0"

definition stack_inv :: "connection_id set \<Rightarrow> nat \<times> 'p stack \<Rightarrow> bool" where
  "stack_inv H ts \<longleftrightarrow> (case ts of (token, s) \<Rightarrow>
     valid_setup (config s) \<and> 1 \<le> next_connection_id s \<and> next_connection_id s \<le> token \<and>
     token \<le> u64_max \<and> table_ok s \<and> conns_ok s \<and> room_ok s \<and> accepts_ok H s \<and> packets_ok s \<and>
     generators_ok s)"

lemma stack_invD:
  assumes "stack_inv H (token, s)"
  shows "valid_setup (config s)" "1 \<le> next_connection_id s" "next_connection_id s \<le> token"
    "token \<le> u64_max" "table_ok s" "conns_ok s" "room_ok s" "accepts_ok H s" "packets_ok s"
    "generators_ok s"
  using assms by (simp_all add: stack_inv_def)

lemma kinds_supported:
  "data_seg t \<or> syn_seg t \<or> fin_seg t \<Longrightarrow> trk_flags t AND NOT SUPPORTED_MASK = 0"
  by (auto simp: data_seg_def syn_seg_def fin_seg_def)

lemma conn_inv_ready: "conn_inv cfg c \<Longrightarrow> ready c"
  using queue_ok_kinds kinds_supported
  by (fastforce simp: ready_def conn_inv_def phase_inv_def param_inv_def send_ok_def queue_kinds_def)

lemma stack_inv_conn:
  assumes "stack_inv H (token, s)" "get_conn cid s = Some c"
  shows "conn_inv (config s) c" "cid < next_connection_id s" "lookup s (conn_key c) = Some cid" "ready c"
proof -
  show inv: "conn_inv (config s) c" "cid < next_connection_id s"
    using stack_invD(6) [OF assms(1)] assms(2) by (auto simp: conns_ok_def)
  show "lookup s (conn_key c) = Some cid"
    using stack_invD(5) [OF assms(1)] assms(2) by (simp add: table_ok_def)
  show "ready c" using inv(1) by (rule conn_inv_ready)
qed

lemma stack_inv_lookup:
  "stack_inv H (token, s) \<Longrightarrow> lookup s k = Some cid \<Longrightarrow> \<exists>c. get_conn cid s = Some c \<and> conn_key c = k"
  by (auto simp: stack_inv_def table_ok_def)

lemma conn_key_identity: "identity c' = identity c \<Longrightarrow> conn_key c' = conn_key c \<and> peer c' = peer c"
  by (simp add: identity_def conn_key_def)

lemma conn_key_inj: "conn_key c' = conn_key c \<Longrightarrow> peer c' = peer c \<and> local_port c' = local_port c"
  by (simp add: conn_key_def)

section \<open>The primitive updates keep it\<close>

definition packet :: "'p \<Rightarrow> segment \<Rightarrow> 'p outbound" where
  "packet p x = \<lparr>out_peer = p, out_bytes = wire_bytes x\<rparr>"

lemma emit_all_good:
  "\<forall>x \<in> set segs. good_segment x \<Longrightarrow>
     emit_all p segs s = (Inr (), s\<lparr>outbound := outbound s @ map (packet p) segs\<rparr>)"
  by (induction segs arbitrary: s) (simp_all add: encode_good packet_def)

lemma packet_decodes: "good_segment x \<Longrightarrow> decode (out_bytes (packet p x)) = Inr x"
  by (simp add: packet_def decode_wire_bytes)

lemma get_conn_update [simp]:
  "get_conn cid (s\<lparr>outbound := x\<rparr>) = get_conn cid s" "get_conn cid (s\<lparr>accepts := a\<rparr>) = get_conn cid s"
  "get_conn cid (s\<lparr>next_connection_id := n\<rparr>) = get_conn cid s"
  "get_conn cid (s\<lparr>next_ephemeral_port := n'\<rparr>) = get_conn cid s"
  "get_conn cid (s\<lparr>isn_state := w\<rparr>) = get_conn cid s"
  "get_conn cid (s\<lparr>lookup := l\<rparr>) = get_conn cid s"
  "get_conn cid (s\<lparr>listeners := ls\<rparr>) = get_conn cid s"
  "get_conn cid (s\<lparr>reservation := rs\<rparr>) = get_conn cid s"
  by (simp_all add: get_conn_def)

text \<open>The parts of the invariant do not look at the fields another part is about.\<close>

lemma frame_outbound [simp]:
  "table_ok (s\<lparr>outbound := x\<rparr>) = table_ok s" "conns_ok (s\<lparr>outbound := x\<rparr>) = conns_ok s"
  "room_ok (s\<lparr>outbound := x\<rparr>) = room_ok s" "accepts_ok H (s\<lparr>outbound := x\<rparr>) = accepts_ok H s"
  "generators_ok (s\<lparr>outbound := x\<rparr>) = generators_ok s"
  by (simp_all add: table_ok_def conns_ok_def room_ok_def accepts_ok_def generators_ok_def peer_connections_def)

lemma frame_accepts [simp]:
  "table_ok (s\<lparr>accepts := x\<rparr>) = table_ok s" "conns_ok (s\<lparr>accepts := x\<rparr>) = conns_ok s"
  "room_ok (s\<lparr>accepts := x\<rparr>) = room_ok s" "packets_ok (s\<lparr>accepts := x\<rparr>) = packets_ok s"
  "generators_ok (s\<lparr>accepts := x\<rparr>) = generators_ok s"
  by (simp_all add: table_ok_def conns_ok_def room_ok_def packets_ok_def generators_ok_def peer_connections_def)

lemma frame_generators [simp]:
  "table_ok (s\<lparr>next_ephemeral_port := x\<rparr>) = table_ok s" "table_ok (s\<lparr>isn_state := y\<rparr>) = table_ok s"
  "conns_ok (s\<lparr>next_ephemeral_port := x\<rparr>) = conns_ok s" "conns_ok (s\<lparr>isn_state := y\<rparr>) = conns_ok s"
  "room_ok (s\<lparr>next_ephemeral_port := x\<rparr>) = room_ok s" "room_ok (s\<lparr>isn_state := y\<rparr>) = room_ok s"
  "accepts_ok H (s\<lparr>next_ephemeral_port := x\<rparr>) = accepts_ok H s" "accepts_ok H (s\<lparr>isn_state := y\<rparr>) = accepts_ok H s"
  "packets_ok (s\<lparr>next_ephemeral_port := x\<rparr>) = packets_ok s" "packets_ok (s\<lparr>isn_state := y\<rparr>) = packets_ok s"
  by (simp_all add: table_ok_def conns_ok_def room_ok_def accepts_ok_def packets_ok_def peer_connections_def)

lemma frame_setup [simp]:
  "table_ok (s\<lparr>listeners := x\<rparr>) = table_ok s" "table_ok (s\<lparr>reservation := y\<rparr>) = table_ok s"
  "conns_ok (s\<lparr>listeners := x\<rparr>) = conns_ok s" "conns_ok (s\<lparr>reservation := y\<rparr>) = conns_ok s"
  "room_ok (s\<lparr>listeners := x\<rparr>) = room_ok s"
  "accepts_ok H (s\<lparr>listeners := x\<rparr>) = accepts_ok H s" "accepts_ok H (s\<lparr>reservation := y\<rparr>) = accepts_ok H s"
  "packets_ok (s\<lparr>listeners := x\<rparr>) = packets_ok s" "packets_ok (s\<lparr>reservation := y\<rparr>) = packets_ok s"
  "generators_ok (s\<lparr>listeners := x\<rparr>) = generators_ok s" "generators_ok (s\<lparr>reservation := y\<rparr>) = generators_ok s"
  by (simp_all add: table_ok_def conns_ok_def room_ok_def accepts_ok_def packets_ok_def
      generators_ok_def peer_connections_def)

lemma inv_outbound:
  assumes "stack_inv H (token, s)" "\<And>x. x \<in> set xs \<Longrightarrow> \<exists>seg. decode (out_bytes x) = Inr seg"
  shows "stack_inv H (token, s\<lparr>outbound := xs\<rparr>)"
  using assms by (simp add: stack_inv_def packets_ok_def)

lemma inv_emit:
  assumes "stack_inv H (token, s)" "\<forall>x \<in> set segs. good_segment x"
  shows "stack_inv H (token, s\<lparr>outbound := outbound s @ map (packet p) segs\<rparr>)"
proof (rule inv_outbound [OF assms(1)])
  fix x
  assume "x \<in> set (outbound s @ map (packet p) segs)"
  then show "\<exists>seg. decode (out_bytes x) = Inr seg"
    using stack_invD(9) [OF assms(1)] assms(2) by (auto simp: packets_ok_def dest: packet_decodes)
qed

lemma inv_token: "stack_inv H (token, s) \<Longrightarrow> token \<le> token' \<Longrightarrow> token' \<le> u64_max \<Longrightarrow> stack_inv H (token', s)"
  by (simp add: stack_inv_def)

lemma inv_put:
  assumes inv: "stack_inv H (token, s)" and get: "get_conn cid s = Some c"
    and c': "conn_inv (config s) c'" "conn_key c' = conn_key c"
      "phase (state c) \<noteq> Opening \<Longrightarrow> phase (state c') \<noteq> Opening"
  shows "stack_inv H (token, put_conn cid c' s)"
proof -
  note i = stack_invD [OF inv]
  have get': "map_of (connections s) cid = Some c" using get by (simp add: get_conn_def)
  have key: "peer c' = peer c" "local_port c' = local_port c" using conn_key_inj [OF c'(2)] by simp_all
  have "table_ok (put_conn cid c' s)"
    unfolding table_ok_def
  proof (intro conjI allI impI)
    show "distinct (map fst (connections (put_conn cid c' s)))"
      using i(5) by (simp add: table_ok_def distinct_update)
  next
    fix cid' d
    assume "get_conn cid' (put_conn cid c' s) = Some d"
    then show "lookup (put_conn cid c' s) (conn_key d) = Some cid'"
      using i(5) get c'(2) by (auto simp: table_ok_def split: if_splits)
  next
    fix k cid'
    assume "lookup (put_conn cid c' s) k = Some cid'"
    then obtain d where "get_conn cid' s = Some d" "conn_key d = k"
      using stack_inv_lookup [OF inv, of k cid'] by auto
    then show "\<exists>d. get_conn cid' (put_conn cid c' s) = Some d \<and> conn_key d = k"
      using get c'(2) by auto
  qed
  moreover have "conns_ok (put_conn cid c' s)"
    using i(6) get c'(1) by (auto simp: conns_ok_def)
  moreover have "room_ok (put_conn cid c' s)"
    using i(7) get' filter_update_same [OF get', of "\<lambda>c. peer c = p" c' for p] key(1)
    by (auto simp: room_ok_def peer_connections_def length_update)
  moreover have "accepts_ok H (put_conn cid c' s)"
    using i(8) get c'(3) key(2) by (auto simp: accepts_ok_def)
  moreover have "packets_ok (put_conn cid c' s)" "generators_ok (put_conn cid c' s)"
    using i(9,10) by (simp_all add: packets_ok_def generators_ok_def)
  ultimately show ?thesis using i(1-4) by (simp add: stack_inv_def)
qed

lemma inv_remove:
  assumes inv: "stack_inv H (token, s)"
  shows "stack_inv H (token, remove_connection cid s)"
proof (cases "get_conn cid s")
  case None
  then show ?thesis using inv by (simp add: remove_connection_def)
next
  case (Some c)
  note i = stack_invD [OF inv] and tab = remove_connection_table(1,2) [OF Some]
  note get = remove_connection_table(3) [of _ cid s]
  have inj: "conn_key d = conn_key c \<Longrightarrow> get_conn cid' s = Some d \<Longrightarrow> cid' = cid" for d cid'
    using stack_inv_conn(3) [OF inv, of cid' d] stack_inv_conn(3) [OF inv Some] by simp
  have "table_ok (remove_connection cid s)"
    unfolding table_ok_def
  proof (intro conjI allI impI)
    show "distinct (map fst (connections (remove_connection cid s)))"
      using i(5) by (simp add: table_ok_def tab distinct_delete)
  next
    fix cid' d
    assume "get_conn cid' (remove_connection cid s) = Some d"
    then show "lookup (remove_connection cid s) (conn_key d) = Some cid'"
      using i(5) inj by (auto simp: table_ok_def tab get split: if_splits)
  next
    fix k cid'
    assume "lookup (remove_connection cid s) k = Some cid'"
    then have "lookup s k = Some cid'" "k \<noteq> conn_key c" by (auto simp: tab split: if_splits)
    then obtain d where "get_conn cid' s = Some d" "conn_key d = k"
      using stack_inv_lookup [OF inv, of k cid'] by auto
    then show "\<exists>d. get_conn cid' (remove_connection cid s) = Some d \<and> conn_key d = k"
      using \<open>k \<noteq> conn_key c\<close> Some by (auto simp: get)
  qed
  moreover have "conns_ok (remove_connection cid s)"
    using i(6) by (auto simp: conns_ok_def get)
  moreover have "room_ok (remove_connection cid s)"
  proof -
    have "length (AList.delete cid (connections s)) \<le> length (connections s)"
      by (rule length_delete_le)
    moreover have "length (filter (\<lambda>(cid, c). peer c = p) (AList.delete cid (connections s)))
        \<le> length (filter (\<lambda>(cid, c). peer c = p) (connections s))" for p
      by (rule filter_delete_le)
    ultimately show ?thesis
      using i(7) by (auto simp: room_ok_def tab peer_connections_def intro: order_trans)
  qed
  moreover have "accepts_ok H (remove_connection cid s)"
    using i(8) by (auto simp: accepts_ok_def get)
  moreover have "packets_ok (remove_connection cid s)" "generators_ok (remove_connection cid s)"
    using i(9,10) by (simp_all add: packets_ok_def generators_ok_def)
  ultimately show ?thesis using i(1-4) by (simp add: stack_inv_def)
qed

lemma inv_push_accept:
  assumes inv: "stack_inv H (token, s)" and get: "get_conn cid s = Some c"
    and c: "phase (state c) \<noteq> Opening"
    and fresh: "cid \<notin> H" "\<And>q. accepts s (local_port c) = Some q \<Longrightarrow> cid \<notin> set q"
  shows "stack_inv H (token, push_accept (local_port c) cid s)"
proof -
  note i = stack_invD [OF inv]
  have "accepts_ok H (push_accept (local_port c) cid s)"
    using i(8) get c fresh stack_inv_conn(2) [OF inv get]
    by (auto simp: accepts_ok_def push_accept_def split: option.splits if_splits)
  then show ?thesis
    using i by (simp add: stack_inv_def push_accept_def)
qed

section \<open>What the operations do to the connections\<close>

text \<open>
  \<open>evolves s t\<close>: a connection of \<open>s\<close> that is still in \<open>t\<close> got there by connection steps, and a
  connection that is new in \<open>t\<close> is a reachable one under a new identifier.
\<close>

definition evolves :: "'p stack \<Rightarrow> 'p stack \<Rightarrow> bool" where
  "evolves s t \<longleftrightarrow> config t = config s \<and> next_connection_id s \<le> next_connection_id t \<and>
     (\<forall>cid c'. get_conn cid t = Some c' \<longrightarrow> cid < next_connection_id s \<longrightarrow>
        (\<exists>c. get_conn cid s = Some c \<and> (conn_step (config s))\<^sup>*\<^sup>* c c')) \<and>
     (\<forall>cid c'. get_conn cid t = Some c' \<longrightarrow> next_connection_id s \<le> cid \<longrightarrow> conn_reach (config s) c')"

lemma evolvesD:
  assumes "evolves s t"
  shows "config t = config s" "next_connection_id s \<le> next_connection_id t"
    "get_conn cid t = Some c' \<Longrightarrow> cid < next_connection_id s \<Longrightarrow>
       \<exists>c. get_conn cid s = Some c \<and> (conn_step (config s))\<^sup>*\<^sup>* c c'"
    "get_conn cid t = Some c' \<Longrightarrow> next_connection_id s \<le> cid \<Longrightarrow> conn_reach (config s) c'"
  using assms by (simp_all add: evolves_def)

lemma reach_steps: "reach start step s \<Longrightarrow> step\<^sup>*\<^sup>* s t \<Longrightarrow> reach start step t"
  by (rotate_tac 1, induction rule: rtranclp_induct) (auto intro: reach.intros)

lemma evolves_trans:
  assumes st: "evolves s t" and tu: "evolves t u"
  shows "evolves s u"
  unfolding evolves_def
proof (intro conjI allI impI)
  show "config u = config s" "next_connection_id s \<le> next_connection_id u"
    using st tu by (simp_all add: evolves_def)
  note cfg = evolvesD(1) [OF st]
  fix cid c''
  assume u: "get_conn cid u = Some c''"
  { assume old: "cid < next_connection_id s"
    then obtain c' where c': "get_conn cid t = Some c'" "(conn_step (config s))\<^sup>*\<^sup>* c' c''"
      using evolvesD(2) [OF st] evolvesD(3) [OF tu u] cfg by auto
    with evolvesD(3) [OF st c'(1) old]
    show "\<exists>c. get_conn cid s = Some c \<and> (conn_step (config s))\<^sup>*\<^sup>* c c''"
      by (meson rtranclp_trans) }
  { assume new: "next_connection_id s \<le> cid"
    show "conn_reach (config s) c''"
    proof (cases "cid < next_connection_id t")
      case True
      with evolvesD(3) [OF tu u] cfg obtain c' where "get_conn cid t = Some c'"
        "(conn_step (config s))\<^sup>*\<^sup>* c' c''" by auto
      with evolvesD(4) [OF st _ new] show ?thesis by (blast intro: reach_steps)
    qed (use evolvesD(4) [OF tu u] cfg in simp) }
qed

text \<open>Connections under identifiers that were not given out do not exist.\<close>

lemma evolvesI:
  assumes inv: "stack_inv H (token, s)" and t: "config t = config s" "next_connection_id t = next_connection_id s"
    and old: "\<And>cid c'. get_conn cid t = Some c' \<Longrightarrow>
      \<exists>c. get_conn cid s = Some c \<and> (conn_step (config s))\<^sup>*\<^sup>* c c'"
  shows "evolves s t"
  unfolding evolves_def
proof (intro conjI allI impI)
  fix cid c'
  assume "get_conn cid t = Some c'" and new: "next_connection_id s \<le> cid"
  then obtain c where "get_conn cid s = Some c" using old by blast
  with new stack_inv_conn(2) [OF inv this] show "conn_reach (config s) c'" by simp
qed (use t old in simp_all)

lemma evolves_same:
  assumes inv: "stack_inv H (token, s)" and t: "connections t = connections s" "config t = config s"
    "next_connection_id t = next_connection_id s"
  shows "evolves s t"
  using inv t(2,3) by (rule evolvesI) (auto simp: get_conn_def t(1))

lemma evolves_refl: "stack_inv H (token, s) \<Longrightarrow> evolves s s"
  by (rule evolves_same) simp_all

lemma evolves_put:
  assumes inv: "stack_inv H (token, s)" and get: "get_conn cid s = Some c"
    and step: "(conn_step (config s))\<^sup>*\<^sup>* c c'"
  shows "evolves s (put_conn cid c' s)"
  using inv by (rule evolvesI) (use get step in \<open>auto split: if_splits\<close>)

lemma evolves_remove: "stack_inv H (token, s) \<Longrightarrow> evolves s (remove_connection cid s)"
  by (rule evolvesI) (auto simp: remove_connection_table(3) split: if_splits)

end
