(* ===== verification/Stack_Ops.thy ===== *)
theory Stack_Ops
  imports Stack_Invariant
begin

text \<open>
  Every operation of the stack returns and keeps the invariant of theory \<open>Stack_Invariant\<close>, with the
  errors it can report. The operations on an existing connection share the two lemmas of the first
  section: the connection's new value is stored, its segments are queued for its peer, and a closed
  connection disappears from both tables.
\<close>

section \<open>Storing, emitting and removing\<close>

definition sent :: "'p connection \<Rightarrow> segment list \<Rightarrow> 'p stack \<Rightarrow> 'p stack" where
  "sent c segs s = s\<lparr>outbound := outbound s @ map (packet (peer c)) segs\<rparr>"

lemma sent_simps [simp]:
  "get_conn cid (sent c segs s) = get_conn cid s" "lookup (sent c segs s) = lookup s"
  "config (sent c segs s) = config s" "accepts (sent c segs s) = accepts s"
  "connections (sent c segs s) = connections s"
  "next_connection_id (sent c segs s) = next_connection_id s"
  by (simp_all add: sent_def)

lemma inv_sent:
  "stack_inv H (token, s) \<Longrightarrow> \<forall>x \<in> set segs. sends d x \<Longrightarrow> stack_inv H (token, sent c segs s)"
  unfolding sent_def by (rule inv_emit) (simp_all add: sends_def)

lemma emit_sends:
  "get_conn cid s = Some c \<Longrightarrow> \<forall>x \<in> set segs. sends d x \<Longrightarrow> emit cid segs s = (Inr (), sent c segs s)"
  by (simp add: emit_def sent_def emit_all_good sends_def)

lemma remove_put:
  assumes "get_conn cid s = Some c" "conn_key c' = conn_key c"
  shows "remove_connection cid (sent c' segs (put_conn cid c' s)) = remove_connection cid (sent c segs s)"
  using assms conn_key_inj [OF assms(2)]
  by (simp add: remove_connection_def sent_def get_conn_def put_conn_def update_conv')

lemma stored:
  assumes inv: "stack_inv H (token, s)" and get: "get_conn cid s = Some c"
    and step: "conn_step (config s) c c'" and segs: "\<forall>x \<in> set segs. sends d x"
  shows "emit cid segs (put_conn cid c' s) = (Inr (), sent c segs (put_conn cid c' s))"
    and "stack_inv H (token, sent c segs (put_conn cid c' s))"
    and "evolves s (sent c segs (put_conn cid c' s))"
proof -
  have c': "conn_inv (config s) c'" "tcp_path (state c) (state c')" "identity c' = identity c"
    using conn_step_effect [OF stack_inv_conn(1) [OF inv get] step] by simp_all
  note key = conn_key_identity [OF c'(3)]
  have put: "stack_inv H (token, put_conn cid c' s)"
    using inv_put [OF inv get c'(1)] key path_phase [OF c'(2)] by blast
  then show "stack_inv H (token, sent c segs (put_conn cid c' s))"
    using segs by (rule inv_sent)
  have "evolves s (put_conn cid c' s)"
    using step by (intro evolves_put [OF inv get]) blast
  then show "evolves s (sent c segs (put_conn cid c' s))"
    using evolves_trans evolves_same [OF put] by (metis sent_simps(3,5,6))
  show "emit cid segs (put_conn cid c' s) = (Inr (), sent c segs (put_conn cid c' s))"
    using emit_sends [of cid "put_conn cid c' s" c' segs d] segs key by (simp add: sent_def)
qed

lemma emitted_removed:
  assumes "get_conn cid s = Some c" "identity c' = identity c" "\<forall>x \<in> set segs. sends d x"
    "emit cid segs (put_conn cid c' s) = (r, t)"
  shows "r = Inr () \<and> remove_connection cid t = remove_connection cid (sent c segs s)"
  using assms emit_sends [of cid "put_conn cid c' s" c' segs d] remove_put [of cid s c c' segs]
    conn_key_identity [OF assms(2)]
  by simp

lemma apply_update_closed:
  assumes "get_conn cid s = Some c" "identity c' = identity c"
    and "\<forall>x \<in> set (upd_segments u). sends d x" "upd_closed u"
  shows "apply_update cid u (put_conn cid c' s)
    = (Inr (), remove_connection cid (sent c (upd_segments u) s))"
  using emitted_removed [OF assms(1-3)] assms(4)
  by (cases "emit cid (upd_segments u) (put_conn cid c' s)") (simp add: apply_update_def)

lemma evolves_sent: "stack_inv H (token, s) \<Longrightarrow> evolves s (sent c segs s)"
  by (rule evolves_same) simp_all

lemma inv_removed:
  assumes inv: "stack_inv H (token, s)" and segs: "\<forall>x \<in> set segs. sends d x"
  shows "stack_inv H (token, remove_connection cid (sent c segs s)) \<and>
     evolves s (remove_connection cid (sent c segs s))"
  using inv_sent [OF assms, of c] evolves_trans [OF evolves_sent [OF inv] evolves_remove] inv_remove
  by blast

section \<open>Creating a connection\<close>

lemma sends_tracked:
  "local_port c \<noteq> 0 \<Longrightarrow> remote_port c \<noteq> 0 \<Longrightarrow> fs AND NOT SUPPORTED_MASK = 0 \<Longrightarrow>
     sends (snd (send_tracked fs p now c)) (fst (send_tracked fs p now c))"
  by (simp add: send_tracked_def segment_for_def Let_def sends_def good_segment_def)

lemma conn_new_ports:
  "conn_new p lport rport st isn rcv cfg token = Some (c, token') \<Longrightarrow>
     local_port c = lport \<and> remote_port c = rport"
  by (auto simp: conn_new_def split: option.splits)

lemma conn_created:
  assumes "valid_setup cfg" "lport \<noteq> 0" "rport \<noteq> 0" "token < u64_max"
  shows "\<exists>c seg. conn_client p lport rport isn now cfg token = Some ((c, [seg]), token + 1) \<and>
    conn_inv cfg c \<and> conn_key c = \<lparr>key_peer = p, key_local_port = lport, key_remote_port = rport\<rparr> \<and>
    state c = SynSent \<and> sends c seg \<and> conn_start cfg c"
proof -
  obtain c seg where c: "conn_client p lport rport isn now cfg token = Some ((c, [seg]), token + 1)"
    "created cfg SynSent SYN isn 0 (p, lport, rport, token) c seg"
    using conn_client_effect [OF assms, of p isn now] by auto
  have "sends c seg"
    using c(1) assms(2,3)
    by (auto simp: conn_client_def Let_def split: option.splits dest!: conn_new_ports
        intro!: sends_tracked simp del: send_tracked_simps)
  moreover have "conn_start cfg c" using start_client [OF assms(1-3) c(1)] .
  ultimately show ?thesis
    using c by (auto simp: created_def identity_def conn_key_def)
qed

lemma conn_accepted:
  assumes "valid_setup cfg" "good_segment syn" "token < u64_max"
  shows "\<exists>c seg. conn_server p syn isn now cfg token = Some ((c, [seg]), token + 1) \<and>
    conn_inv cfg c \<and> conn_key c = \<lparr>key_peer = p, key_local_port = seg_dst_port syn,
      key_remote_port = seg_src_port syn\<rparr> \<and> state c = SynReceived \<and> sends c seg \<and>
    conn_start cfg c"
proof -
  have ports: "seg_dst_port syn \<noteq> 0" "seg_src_port syn \<noteq> 0"
    using assms(2) by (simp_all add: good_segment_def)
  obtain c seg where c: "conn_server p syn isn now cfg token = Some ((c, [seg]), token + 1)"
    "created cfg SynReceived (SYN OR ACK) isn (seg_seq syn + 1)
      (p, seg_dst_port syn, seg_src_port syn, token) c seg"
    using conn_server_effect [OF assms(1) ports assms(3), of p isn now] by auto
  have "sends c seg"
    using c(1) ports
    by (auto simp: conn_server_def Let_def split: option.splits dest!: conn_new_ports
        intro!: sends_tracked simp del: send_tracked_simps)
  moreover have "conn_start cfg c" using start_server [OF assms(1) ports c(1)] .
  ultimately show ?thesis
    using c by (auto simp: created_def identity_def conn_key_def)
qed

lemma capacity_room:
  "ensure_connection_capacity p s = Inr u \<Longrightarrow>
     length (connections s) < max_connections (config s) \<and>
     peer_connections p s < max_connections_per_peer (config s)"
  by (auto simp: ensure_connection_capacity_def split: if_splits)

lemma capacity_total: "ensure_connection_capacity p s = Inr () \<or> ensure_connection_capacity p s = Inl ConnectionLimit"
  by (auto simp: ensure_connection_capacity_def split: option.split)

definition inserted :: "'p connection \<Rightarrow> 'p stack \<Rightarrow> 'p stack" where
  "inserted c s = put_conn (next_connection_id s) c
     (s\<lparr>next_connection_id := max (wrap64 (next_connection_id s + 1)) 1,
        lookup := (lookup s)(conn_key c \<mapsto> next_connection_id s)\<rparr>)"

lemma inv_inserted:
  assumes inv: "stack_inv H (token, s)" and room: "ensure_connection_capacity (peer c) s = Inr u"
    and token: "token < u64_max" and new: "lookup s (conn_key c) = None"
    and c: "conn_inv (config s) c" "phase (state c) = Opening"
  shows "stack_inv H (token + 1, inserted c s)"
proof -
  note i = stack_invD [OF inv]
  let ?n = "next_connection_id s"
  have n: "max (wrap64 (?n + 1)) 1 = ?n + 1"
    using i(3) token by simp
  have none: "get_conn ?n s = None"
    using i(6) by (cases "get_conn ?n s") (auto simp: conns_ok_def)
  have other: "conn_key d \<noteq> conn_key c" if "get_conn cid s = Some d" for cid d
    using stack_inv_conn(3) [OF inv that] new by auto
  have fields: "get_conn cid (inserted c s) = (if cid = ?n then Some c else get_conn cid s)"
    "lookup (inserted c s) = (lookup s)(conn_key c \<mapsto> ?n)" "config (inserted c s) = config s"
    "connections (inserted c s) = AList.update ?n c (connections s)"
    "next_connection_id (inserted c s) = ?n + 1" "accepts (inserted c s) = accepts s"
    "outbound (inserted c s) = outbound s" "reservation (inserted c s) = reservation s"
    "generators_ok (inserted c s) = generators_ok s" for cid
    using n by (simp_all add: inserted_def generators_ok_def)
  have "table_ok (inserted c s)"
    unfolding table_ok_def fields
  proof (intro conjI allI impI)
    show "distinct (map fst (AList.update ?n c (connections s)))"
      using i(5) by (simp add: table_ok_def distinct_update)
  next
    fix cid d
    assume "(if cid = ?n then Some c else get_conn cid s) = Some d"
    then show "((lookup s)(conn_key c \<mapsto> ?n)) (conn_key d) = Some cid"
      using other [of cid d] stack_inv_conn(3) [OF inv, of cid d] by (auto split: if_splits)
  next
    fix k cid
    assume "((lookup s)(conn_key c \<mapsto> ?n)) k = Some cid"
    then show "\<exists>d. (if cid = ?n then Some c else get_conn cid s) = Some d \<and> conn_key d = k"
      using stack_inv_lookup [OF inv, of k cid] none by (auto split: if_splits)
  qed
  moreover have "conns_ok (inserted c s)"
    using i(6) c(1) by (auto simp: conns_ok_def fields less_SucI)
  moreover have "room_ok (inserted c s)"
  proof -
    have al: "map_of (connections s) ?n = None" using none by (simp add: get_conn_def)
    have "peer_connections p (inserted c s) = peer_connections p s + (if peer c = p then 1 else 0)" for p
      using filter_update_new [OF al, of "\<lambda>d. peer d = p" c] by (simp add: peer_connections_def fields)
    then show ?thesis
      using i(7) capacity_room [OF room] al by (auto simp: room_ok_def fields length_update)
  qed
  moreover have "accepts_ok H (inserted c s)"
    using i(8) unfolding accepts_ok_def fields by (fastforce split: if_splits)
  moreover have "packets_ok (inserted c s)"
    using i(9) by (simp add: packets_ok_def fields)
  ultimately show ?thesis
    using i token by (simp add: stack_inv_def fields)
qed

section \<open>Allocation of ports and sequence numbers\<close>

lemma allocate_port_effect:
  assumes "49152 \<le> next_ephemeral_port s" "allocate_port_loop n p rport s = (r, s')"
  shows "(\<exists>q. s' = s\<lparr>next_ephemeral_port := q\<rparr> \<and> 49152 \<le> q) \<and>
    (r = Inl NoEphemeralPort \<or> (\<exists>port. r = Inr port \<and> 49152 \<le> port \<and>
       lookup s \<lparr>key_peer = p, key_local_port = port, key_remote_port = rport\<rparr> = None))"
  using assms
proof (induction n arbitrary: s)
  case 0
  then show ?case by (auto simp: allocate_port_loop.simps intro: exI [of _ "next_ephemeral_port s"])
next
  case (Suc n)
  let ?port = "next_ephemeral_port s"
  let ?q = "if ?port = 65535 then 49152 else ?port + 1"
  have q: "49152 \<le> ?q"
  proof (cases "?port = 65535")
    case False
    have "1 + ?port \<noteq> 0"
    proof
      assume "1 + ?port = 0"
      then have "?port = - 1" by (metis eq_neg_iff_add_eq_0 add.commute)
      with False show False by simp
    qed
    with Suc.prems(1) show ?thesis
      by (auto simp: word_le_nat_alt unatSuc add.commute [of ?port])
  qed simp
  show ?case
  proof (cases "lookup s \<lparr>key_peer = p, key_local_port = ?port, key_remote_port = rport\<rparr> = None")
    case True
    then have "r = Inr ?port" "s' = s\<lparr>next_ephemeral_port := ?q\<rparr>"
      using Suc.prems(2) by (auto simp: allocate_port_loop.simps [of "Suc n"] Let_def)
    with True q Suc.prems(1) show ?thesis by blast
  next
    case False
    then have "allocate_port_loop n p rport (s\<lparr>next_ephemeral_port := ?q\<rparr>) = (r, s')"
      using Suc.prems(2) by (auto simp: allocate_port_loop.simps [of "Suc n"] Let_def)
    from Suc.IH [OF _ this] q show ?thesis by auto
  qed
qed

lemma allocate_ephemeral_effect:
  assumes inv: "stack_inv H (token, s)" and a: "allocate_ephemeral_port p rport s = (r, s')"
  shows "stack_inv H (token, s')" "connections s' = connections s" "lookup s' = lookup s"
    "r = Inl NoEphemeralPort \<or> (\<exists>port. r = Inr port \<and> 49152 \<le> port \<and>
       lookup s' \<lparr>key_peer = p, key_local_port = port, key_remote_port = rport\<rparr> = None)"
    "config s' = config s" "next_connection_id s' = next_connection_id s"
proof -
  have "49152 \<le> next_ephemeral_port s"
    using inv by (simp add: stack_inv_def generators_ok_def)
  from allocate_port_effect [OF this a [unfolded allocate_ephemeral_port_def]]
  obtain q where q: "s' = s\<lparr>next_ephemeral_port := q\<rparr>" "49152 \<le> q"
    and r: "r = Inl NoEphemeralPort \<or> (\<exists>port. r = Inr port \<and> 49152 \<le> port \<and>
       lookup s \<lparr>key_peer = p, key_local_port = port, key_remote_port = rport\<rparr> = None)"
    by blast
  show "stack_inv H (token, s')"
    using inv q by (simp add: stack_inv_def generators_ok_def)
  show "connections s' = connections s" "lookup s' = lookup s" "config s' = config s"
    "next_connection_id s' = next_connection_id s" using q by simp_all
  show "r = Inl NoEphemeralPort \<or> (\<exists>port. r = Inr port \<and> 49152 \<le> port \<and>
       lookup s' \<lparr>key_peer = p, key_local_port = port, key_remote_port = rport\<rparr> = None)"
    using r q by simp
qed

lemma max_1_nonzero: "max v 1 \<noteq> 0" for v :: u64
  by (metis max.cobounded2 word_le_0_iff zero_neq_one)

lemma next_isn_inv:
  "stack_inv H (token, s) \<Longrightarrow> stack_inv H (token, snd (next_isn s))"
  by (simp add: next_isn_def Let_def stack_inv_def generators_ok_def max_1_nonzero)

lemma next_isn_simps [simp]:
  "lookup (snd (next_isn s)) = lookup s" "connections (snd (next_isn s)) = connections s"
  "config (snd (next_isn s)) = config s" "reservation (snd (next_isn s)) = reservation s"
  "next_connection_id (snd (next_isn s)) = next_connection_id s"
  by (simp_all add: next_isn_def Let_def)

lemma capacity_next_isn [simp]:
  "ensure_connection_capacity p (snd (next_isn s)) = ensure_connection_capacity p s"
  by (simp add: ensure_connection_capacity_def peer_connections_def split: option.split)

section \<open>Opening connections\<close>

lemma evolves_inserted:
  assumes inv: "stack_inv H (token, s)" and token: "token < u64_max" and c: "conn_start (config s) c"
  shows "evolves s (sent c segs (inserted c s))"
proof -
  have "max (wrap64 (next_connection_id s + 1)) 1 = next_connection_id s + 1"
    using stack_invD(3) [OF inv] token by simp
  moreover have "get_conn cid s = Some c' \<Longrightarrow> next_connection_id s \<le> cid \<Longrightarrow> False" for cid c'
    using stack_inv_conn(2) [OF inv] by fastforce
  ultimately show ?thesis
    using c unfolding evolves_def by (auto simp: inserted_def intro: reach_start split: if_splits)
qed

definition opens :: "tcp_state \<Rightarrow> nat \<times> 'p stack \<Rightarrow> 'p connection_key \<Rightarrow> connection_id \<Rightarrow> nat \<times> 'p stack \<Rightarrow> bool" where
  "opens st ts key cid ts' \<longleftrightarrow> (case ts of (token, s) \<Rightarrow>
     cid = next_connection_id s \<and> ensure_connection_capacity (key_peer key) s = Inr () \<and> lookup s key = None \<and>
     (\<exists>c seg. ts' = (token + 1, sent c [seg] (inserted c s)) \<and> conn_inv (config s) c \<and>
        conn_key c = key \<and> state c = st \<and> sends c seg \<and> conn_start (config s) c))"

lemma opens_inv:
  assumes inv: "stack_inv H ts" and token: "fst ts < u64_max" and o: "opens st ts key cid ts'" "phase st = Opening"
  shows "stack_inv H ts' \<and> evolves (snd ts) (snd ts')"
proof -
  obtain token s where ts: "ts = (token, s)" by force
  obtain c seg where c: "ts' = (token + 1, sent c [seg] (inserted c s))" "conn_inv (config s) c"
    "conn_key c = key" "state c = st" "sends c seg" "conn_start (config s) c"
    using o(1) by (auto simp: opens_def ts)
  have "peer c = key_peer key" using c(3) by (auto simp: conn_key_def)
  then have "stack_inv H (token + 1, inserted c s)"
    using inv token o c by (intro inv_inserted [where u = "()"]) (simp_all add: ts opens_def)
  then have "stack_inv H ts'" unfolding c(1) using c(5) by (intro inv_sent [where d = c]) simp_all
  moreover have "evolves s (sent c [seg] (inserted c s))"
    using inv token c(6) by (intro evolves_inserted) (simp_all add: ts)
  ultimately show ?thesis by (simp add: ts c(1))
qed

lemma emit_inserted:
  assumes "sends c seg"
  shows "emit (next_connection_id s) [seg] (inserted c s) = (Inr (), sent c [seg] (inserted c s))"
  using assms by (intro emit_sends [where d = c]) (simp_all add: inserted_def)

lemma connect_from_opens:
  assumes "lport \<noteq> 0" "rport \<noteq> 0" "ensure_connection_capacity p s = Inr ()"
    and key: "lookup s (conn_key c) = None" "conn_key c = \<lparr>key_peer = p, key_local_port = lport, key_remote_port = rport\<rparr>"
    and c: "conn_client p lport rport isn now (config s) token = Some ((c, [seg]), token')" "sends c seg"
  shows "connect_from_with_isn p lport rport isn now (token, s) =
    Some (Inr (next_connection_id s), (token', sent c [seg] (inserted c s)))"
  using assms emit_inserted [OF c(2), of s]
  by (simp add: connect_from_with_isn_def Let_def allocate_connection_id_def inserted_def)

lemma connect_from_effect:
  assumes inv: "stack_inv H (token, s)" and token: "token < u64_max"
  shows "\<exists>r t. connect_from_with_isn p lport rport isn now (token, s) = Some (r, t) \<and>
    (case r of Inl e \<Rightarrow> t = (token, s) \<and> e \<in> {ZeroPort, ConnectionLimit, ConnectionExists}
     | Inr cid \<Rightarrow> opens SynSent (token, s)
         \<lparr>key_peer = p, key_local_port = lport, key_remote_port = rport\<rparr> cid t)"
proof (cases "lport = 0 \<or> rport = 0")
  case True
  then show ?thesis by (auto simp: connect_from_with_isn_def)
next
  case ports: False
  let ?key = "\<lparr>key_peer = p, key_local_port = lport, key_remote_port = rport\<rparr>"
  show ?thesis
  proof (cases "ensure_connection_capacity p s = Inr () \<and> lookup s ?key = None")
    case False
    then show ?thesis
      using ports capacity_total [of p s] by (auto simp: connect_from_with_isn_def Let_def)
  next
    case True
    obtain c seg where c: "conn_client p lport rport isn now (config s) token = Some ((c, [seg]), token + 1)"
      "conn_inv (config s) c" "conn_key c = ?key" "state c = SynSent" "sends c seg" "conn_start (config s) c"
      using conn_created [OF stack_invD(1) [OF inv] _ _ token, of lport rport p isn now] ports by auto
    have "connect_from_with_isn p lport rport isn now (token, s) =
        Some (Inr (next_connection_id s), (token + 1, sent c [seg] (inserted c s)))"
      using ports True c(1,3,5) by (intro connect_from_opens) simp_all
    then show ?thesis using True c by (auto simp: opens_def)
  qed
qed

lemma connect_effect:
  assumes inv: "stack_inv H (token, s)" and token: "token < u64_max"
  shows "\<exists>r t. connect p rport now (token, s) = Some (r, t) \<and> stack_inv H t \<and> evolves s (snd t) \<and>
    (case r of Inl e \<Rightarrow> e \<in> {NoEphemeralPort, ZeroPort, ConnectionLimit, ConnectionExists} \<and>
         fst t = token \<and> connections (snd t) = connections s
     | Inr cid \<Rightarrow> \<exists>c. get_conn cid (snd t) = Some c \<and> state c = SynSent \<and> peer c = p \<and>
         remote_port c = rport \<and> 49152 \<le> local_port c \<and> get_conn cid s = None)"
proof -
  obtain q s1 where a: "allocate_ephemeral_port p rport s = (q, s1)" by force
  note al = allocate_ephemeral_effect [OF inv a]
  show ?thesis
  proof (cases q)
    case (Inl e)
    then show ?thesis using a al evolves_same [OF inv al(2)] by (auto simp: connect_def)
  next
    case (Inr port)
    obtain isn s2 where n: "next_isn s1 = (isn, s2)" by force
    have inv2: "stack_inv H (token, s2)" using next_isn_inv [OF al(1)] n by simp
    have same: "connections s2 = connections s" "lookup s2 = lookup s1"
      using al(2) next_isn_simps(1,2) [of s1] n by simp_all
    have ev: "evolves s s2"
      using inv same(1) by (rule evolves_same) (use al(5,6) next_isn_simps(3,5) [of s1] n in simp_all)
    obtain r t where c: "connect_from_with_isn p port rport isn now (token, s2) = Some (r, t)"
      and r: "case r of Inl e \<Rightarrow> t = (token, s2) \<and> e \<in> {ZeroPort, ConnectionLimit, ConnectionExists}
        | Inr cid \<Rightarrow> opens SynSent (token, s2)
         \<lparr>key_peer = p, key_local_port = port, key_remote_port = rport\<rparr> cid t"
      using connect_from_effect [OF inv2 token, of p port rport isn now] by auto
    have d: "connect p rport now (token, s) = Some (r, t)"
      using a n c Inr by (simp add: connect_def)
    show ?thesis
    proof (cases r)
      case (Inl e)
      then show ?thesis using d r inv2 same ev by auto
    next
      case (Inr cid)
      with r have o: "opens SynSent (token, s2)
         \<lparr>key_peer = p, key_local_port = port, key_remote_port = rport\<rparr> cid t" by simp
      have "stack_inv H t" "evolves s (snd t)"
        using opens_inv [OF inv2 _ o] token evolves_trans [OF ev] by simp_all
      moreover have "get_conn (next_connection_id s2) s2 = None"
        using stack_inv_conn(2) [OF inv2] by (metis less_irrefl not_None_eq)
      then have "get_conn cid s = None" using o same by (simp add: opens_def get_conn_def)
      moreover have "49152 \<le> port" using al(4) \<open>q = Inr port\<close> by simp
      ultimately show ?thesis
        using d o Inr by (auto simp: opens_def inserted_def conn_key_def)
    qed
  qed
qed

section \<open>Input\<close>

lemma reset_for_good: "good_segment seg \<Longrightarrow> good_segment (reset_for seg)"
  by (auto simp: reset_for_def good_segment_def Let_def segment_new_def flags_union_def split: option.split)

lemma emit_reset_good:
  "good_segment seg \<Longrightarrow> emit_reset p seg s = (Inr (), s\<lparr>outbound := outbound s @ [packet p (reset_for seg)]\<rparr>)"
  using emit_all_good [of "[reset_for seg]" p s] reset_for_good by (simp add: emit_reset_def)

lemma inv_emit_reset:
  "stack_inv H (token, s) \<Longrightarrow> good_segment seg \<Longrightarrow> stack_inv H (token, snd (emit_reset p seg s))"
  using inv_emit [of H token s "[reset_for seg]" p] by (simp add: emit_reset_good reset_for_good)

lemma evolves_emit_reset:
  "stack_inv H (token, s) \<Longrightarrow> good_segment seg \<Longrightarrow> evolves s (snd (emit_reset p seg s))"
  by (rule evolves_same) (simp_all add: emit_reset_good)

lemma input_syn_opens:
  assumes "supports_fips_version seg FIPS_VERSION" "ensure_connection_capacity p s = Inr ()"
    and key: "conn_key c = \<lparr>key_peer = p, key_local_port = seg_dst_port seg, key_remote_port = seg_src_port seg\<rparr>"
    and c: "conn_server p seg (fst (next_isn s)) now (config s) token = Some ((c, [x]), token')" "sends c x"
  shows "input_syn p seg now (token, s) =
    Some (Inr (), (token', sent c [x] (inserted c (snd (next_isn s)))))"
proof -
  have eq: "inserted c (snd (next_isn s)) = put_conn (next_connection_id s) c (s\<lparr>next_connection_id :=
      max (wrap64 (next_connection_id s + 1)) 1, isn_state := max (xorshift (isn_state s)) 1,
      lookup := (lookup s)(conn_key c \<mapsto> next_connection_id s)\<rparr>)"
    by (simp add: inserted_def next_isn_def Let_def put_conn_def)
  have "input_syn p seg now (token, s) = (case emit (next_connection_id s) [x]
      (inserted c (snd (next_isn s))) of (r, s4) \<Rightarrow> Some (r, (token', s4)))"
    unfolding eq key using assms(1,2) c(1)
    by (simp add: input_syn_def allocate_connection_id_def next_isn_def Let_def)
  then show ?thesis
    using emit_inserted [OF c(2), of "snd (next_isn s)"] by simp
qed

lemma input_syn_effect:
  assumes inv: "stack_inv H (token, s)" and token: "token < u64_max" and good: "good_segment seg"
    and new: "lookup s \<lparr>key_peer = p, key_local_port = seg_dst_port seg, key_remote_port = seg_src_port seg\<rparr> = None"
  shows "\<exists>r t. input_syn p seg now (token, s) = Some (r, t) \<and> stack_inv H t \<and> evolves s (snd t) \<and>
    (r = Inr () \<or> r = Inl ConnectionLimit \<and> t = (token, s))"
proof (cases "supports_fips_version seg FIPS_VERSION")
  case False
  then show ?thesis
    using inv_emit_reset [OF inv good, of p] emit_reset_good [OF good, of p s]
      evolves_emit_reset [OF inv good, of p]
    by (simp add: input_syn_def)
next
  case True
  let ?key = "\<lparr>key_peer = p, key_local_port = seg_dst_port seg, key_remote_port = seg_src_port seg\<rparr>"
  show ?thesis
  proof (cases "ensure_connection_capacity p s = Inr ()")
    case False
    then show ?thesis
      using True inv capacity_total [of p s] evolves_refl [OF inv] by (auto simp: input_syn_def)
  next
    case room: True
    define s2 where "s2 = snd (next_isn s)"
    obtain c x where c: "conn_server p seg (fst (next_isn s)) now (config s) token = Some ((c, [x]), token + 1)"
      "conn_inv (config s) c" "conn_key c = ?key" "state c = SynReceived" "sends c x" "conn_start (config s) c"
      using conn_accepted [OF stack_invD(1) [OF inv] good token, of p "fst (next_isn s)" now] by auto
    have "input_syn p seg now (token, s) = Some (Inr (), (token + 1, sent c [x] (inserted c s2)))"
      using input_syn_opens [OF True room c(3,1,5)] by (simp add: s2_def)
    moreover have "stack_inv H (token, s2)" using next_isn_inv [OF inv] by (simp add: s2_def)
    moreover have "opens SynReceived (token, s2) ?key (next_connection_id s) (token + 1, sent c [x] (inserted c s2))"
      using room new c by (auto simp: opens_def s2_def)
    moreover have "evolves s s2"
      by (rule evolves_same [OF inv]) (simp_all add: s2_def)
    ultimately show ?thesis
      using opens_inv [of H "(token, s2)"] token evolves_trans by fastforce
  qed
qed

text \<open>A segment for an existing connection.\<close>

lemma accepted_opens:
  assumes inv: "conn_inv cfg c" and st: "state c = SynReceived"
    and o: "on_syn_received s now cfg c = Some (u, c')" and a: "upd_accepted u"
  shows "phase (state c') \<noteq> Opening"
proof -
  have ack: "seg_ack s = Some (send_nxt c)" and nodup: "\<not> (contains (seg_flags s) SYN \<and>
      \<not> contains (seg_flags s) ACK \<and> seg_seq s + 1 = recv_nxt c)"
    using o a by (auto simp: on_syn_received_def Let_def update_open_def split: if_splits)
  have p: "phase_inv Opening cfg c" using inv st by (simp add: conn_inv_def)
  obtain o1 c1 n where a1: "apply_ack (send_nxt c) now False c = Some (o1, c1)" "phase_inv Open cfg c1"
    using apply_ack_effect [OF p, of "send_nxt c" now False] by auto
  let ?c2 = "(update_remote_window (seg_window s) now c1)\<lparr>state := Established\<rparr>"
  let ?r = "snd (receive_if_data s now cfg [] ?c2)"
  have i2: "conn_inv cfg ?c2"
    using update_remote_window_inv [OF a1(2)] by (simp add: conn_inv_def state_inv_def phase_inv_state)
  have fr: "recv_frame ?c2 ?r" by (rule receive_if_data_frame)
  obtain flushed c3 where f: "flush_data now ?r = Some (flushed, c3)" "fin_sent (state ?r) (state c3)"
    using flush_data_inv [OF recv_frame_inv(1) [OF i2 fr receive_if_data_inv [OF i2]], of now] by blast
  have "c' = c3" using o ack nodup a1(1) f(1) by (auto simp: on_syn_received_def Let_def)
  then show ?thesis
    using f(2) recv_frameD(20) [OF fr] by (auto simp: remote_fin_def fin_sent_def)
qed

lemma accepted_live:
  "stack_inv H (token, s) \<Longrightarrow> accepts s port = Some q \<Longrightarrow> cid \<in> set q \<Longrightarrow> get_conn cid s = Some c \<Longrightarrow>
     local_port c = port \<and> phase (state c) \<noteq> Opening"
  by (simp add: stack_inv_def accepts_ok_def)

lemma input_existing_effect:
  assumes inv: "stack_inv H (token, s)" and get: "get_conn cid s = Some c" and good: "good_segment seg"
  shows "\<exists>t. input_existing p cid seg now s = Some (Inr (), t) \<and> stack_inv H (token, t) \<and> evolves s t"
proof -
  note c = stack_inv_conn [OF inv get]
  consider (stale) "stale_handshake_ack seg c" | (syn) "\<not> stale_handshake_ack seg c" "unexpected_syn seg c"
    | (deliver) "\<not> stale_handshake_ack seg c" "\<not> unexpected_syn seg c" by blast
  then show ?thesis
  proof cases
    case stale
    then show ?thesis
      using get inv_emit_reset [OF inv good, of p] emit_reset_good [OF good, of p s]
        evolves_emit_reset [OF inv good, of p]
      by (simp add: input_existing_def)
  next
    case syn
    then show ?thesis
      using get emit_sends [OF get, of "[ack_segment c]" c] inv_sent [OF inv, of "[ack_segment c]" c] c(4)
        evolves_sent [OF inv]
      by (simp add: input_existing_def)
  next
    case deliver
    obtain u c' where o: "on_segment seg now (config s) c = Some (u, c')"
      and eff: "if upd_closed u
         then contains (seg_flags seg) RST \<and> c' = c \<and> upd_segments u = [] \<or> finished c (upd_segments u) c'
         else effect (config s) c (upd_segments u) c'"
      and acc: "upd_accepted u \<longrightarrow> state c = SynReceived \<and> \<not> upd_closed u"
      using on_segment_effect [OF c(1), of seg now] by blast
    have segs: "\<forall>x \<in> set (upd_segments u). sends c x"
      using talks_on_segment [OF c(4) o] by (simp add: talks_def)
    have id: "identity c' = identity c"
      using eff by (auto simp: finished_def effect_def split: if_splits)
    show ?thesis
    proof (cases "upd_closed u")
      case True
      then have "input_existing p cid seg now s
          = Some (Inr (), remove_connection cid (sent c (upd_segments u) s))"
        using get deliver o acc apply_update_closed [OF get id segs] by (simp add: input_existing_def)
      then show ?thesis using inv_removed [OF inv segs] by simp
    next
      case False
      then have e: "conn_inv (config s) c'" "tcp_path (state c) (state c')"
        using eff by (simp_all add: effect_def)
      have step: "conn_step (config s) c c'" using step_segment [OF o False] .
      then have step': "(conn_step (config s))\<^sup>*\<^sup>* c c'" by blast
      note st = stored [OF inv get step segs]
      let ?t = "sent c (upd_segments u) (put_conn cid c' s)"
      show ?thesis
      proof (cases "upd_accepted u")
        case no: False
        then have "input_existing p cid seg now s = Some (Inr (), ?t)"
          using get deliver o False st(1) by (simp add: input_existing_def apply_update_def)
        then show ?thesis using st(2,3) by blast
      next
        case yes: True
        have st_c: "state c = SynReceived" using acc yes by simp
        have "\<not> contains (seg_flags seg) RST"
          using o yes on_reset_shape(1) [of seg c] by (auto simp: on_segment_def split: if_splits)
        then have "on_syn_received seg now (config s) c = Some (u, c')"
          using o st_c by (simp add: on_segment_def)
        then have open_: "phase (state c') \<noteq> Opening"
          using accepted_opens [OF c(1) st_c] yes by blast
        have inv1: "stack_inv H (token, put_conn cid c' s)"
          using inv_put [OF inv get e(1)] conn_key_identity [OF id] open_ by blast
        have fresh: "cid \<notin> set q" if "accepts (put_conn cid c' s) (local_port c') = Some q" for q
          using that accepted_live [OF inv _ _ get, of "local_port c'" q] st_c by auto
        have handed: "cid \<notin> H"
          using stack_invD(8) [OF inv] get st_c unfolding accepts_ok_def by fastforce
        have inv2: "stack_inv H (token, push_accept (local_port c') cid (put_conn cid c' s))"
          using inv_push_accept [OF inv1 _ open_ handed fresh] by simp
        let ?p = "push_accept (local_port c') cid (put_conn cid c' s)"
        have "emit cid (upd_segments u) ?p = (Inr (), sent c' (upd_segments u) ?p)"
          using segs by (intro emit_sends) (simp_all add: push_accept_def)
        then have "input_existing p cid seg now s = Some (Inr (), sent c' (upd_segments u) ?p)"
          using get deliver o False yes by (simp add: input_existing_def apply_update_def)
        moreover have "evolves s (sent c' (upd_segments u) ?p)"
          using evolves_trans [OF evolves_put [OF inv get step'] evolves_same [OF inv1]]
          by (simp add: push_accept_def)
        ultimately show ?thesis using inv_sent [OF inv2 segs, of c'] by blast
      qed
    qed
  qed
qed

lemma input_effect:
  assumes inv: "stack_inv H (token, s)" and token: "token < u64_max"
  shows "\<exists>r t. input p bs now (token, s) = Some (r, t) \<and> stack_inv H t \<and> evolves s (snd t) \<and>
    (case r of Inr u \<Rightarrow> \<exists>seg. decode bs = Inr seg
     | Inl e \<Rightarrow> t = (token, s) \<and> (e = ConnectionLimit \<or> (\<exists>w. e = Wire w \<and> decode bs = Inl w)))"
proof (cases "decode bs")
  case (Inl e)
  then show ?thesis using inv evolves_refl [OF inv] by (simp add: input_def)
next
  case (Inr seg)
  then have good: "good_segment seg" by (rule decode_good)
  let ?key = "\<lparr>key_peer = p, key_local_port = seg_dst_port seg, key_remote_port = seg_src_port seg\<rparr>"
  show ?thesis
  proof (cases "lookup s ?key")
    case (Some cid)
    obtain c where "get_conn cid s = Some c" using stack_inv_lookup [OF inv Some] by blast
    from input_existing_effect [OF inv this good, of p now]
    show ?thesis using Inr Some by (auto simp: input_def)
  next
    case None
    consider (syn) "contains (seg_flags seg) SYN" "\<not> contains (seg_flags seg) ACK" "seg_dst_port seg \<in> listeners s"
      | (reset) "\<not> (contains (seg_flags seg) SYN \<and> \<not> contains (seg_flags seg) ACK \<and> seg_dst_port seg \<in> listeners s)"
        "\<not> contains (seg_flags seg) RST"
      | (ignore) "\<not> (contains (seg_flags seg) SYN \<and> \<not> contains (seg_flags seg) ACK \<and> seg_dst_port seg \<in> listeners s)"
        "contains (seg_flags seg) RST" by blast
    then show ?thesis
    proof cases
      case syn
      with input_syn_effect [OF inv token good None, of now] Inr None show ?thesis
        by (auto simp: input_def)
    next
      case reset
      with inv_emit_reset [OF inv good, of p] emit_reset_good [OF good, of p s] Inr None
        evolves_emit_reset [OF inv good, of p] show ?thesis
        by (auto simp: input_def)
    next
      case ignore
      with inv Inr None evolves_refl [OF inv] show ?thesis by (auto simp: input_def)
    qed
  qed
qed

section \<open>Timers\<close>

lemma poll_one_effect:
  assumes inv: "stack_inv H (token, s)"
  shows "\<exists>t. poll_one now cid s = Some t \<and> stack_inv H (token, t) \<and> evolves s t"
proof (cases "get_conn cid s")
  case None
  then show ?thesis using inv evolves_refl [OF inv] by (simp add: poll_one_def)
next
  case (Some c)
  note c = stack_inv_conn [OF inv Some]
  obtain u c' where o: "conn_poll now (config s) c = Some (u, c')" "effect (config s) c (upd_segments u) c'"
    using conn_poll_effect [OF c(1), of now] by blast
  have segs: "\<forall>x \<in> set (upd_segments u). sends c x"
    using talks_conn_poll [OF c(4) o(1)] by (simp add: talks_def)
  obtain r t where e: "emit cid (upd_segments u) (put_conn cid c' s) = (r, t)" by force
  show ?thesis
  proof (cases "upd_closed u")
    case True
    have "remove_connection cid t = remove_connection cid (sent c (upd_segments u) s)"
      using emitted_removed [OF Some _ segs e] o(2) by (simp add: effect_def)
    then show ?thesis using Some o(1) e True inv_removed [OF inv segs] by (simp add: poll_one_def)
  next
    case False
    note st = stored [OF inv Some step_poll [OF o(1) False] segs]
    show ?thesis using Some o(1) False st by (simp add: poll_one_def)
  qed
qed

lemma poll_ids_effect:
  "stack_inv H (token, s) \<Longrightarrow> \<exists>t. poll_ids now ids s = Some t \<and> stack_inv H (token, t) \<and> evolves s t"
proof (induction ids arbitrary: s)
  case Nil
  then show ?case using evolves_refl by auto
next
  case (Cons cid ids)
  obtain t where t: "poll_one now cid s = Some t" "stack_inv H (token, t)" "evolves s t"
    using poll_one_effect [OF Cons.prems] by blast
  with Cons.IH [of t] evolves_trans [OF t(3)] show ?case by auto
qed

lemma poll_effect: "stack_inv H (token, s) \<Longrightarrow> \<exists>t. poll now s = Some t \<and> stack_inv H (token, t) \<and> evolves s t"
  unfolding poll_def by (rule poll_ids_effect)

section \<open>Stream operations\<close>

definition wrote :: "connection_id \<Rightarrow> bytes \<Rightarrow> 'p stack \<Rightarrow> stack_error + nat \<times> send_marker \<Rightarrow> 'p stack \<Rightarrow> bool" where
  "wrote cid bs s r t \<longleftrightarrow> (case r of
      Inl e \<Rightarrow> t = s \<and> (get_conn cid s = None \<and> e = UnknownConnection \<or>
        (\<exists>c. get_conn cid s = Some c \<and> \<not> writable c \<and> e = InvalidState (state c)))
    | Inr (n, m) \<Rightarrow> \<exists>c c'. get_conn cid s = Some c \<and> get_conn cid t = Some c' \<and> writable c \<and>
        n = write_room bs (config s) c \<and> pending c' = pending c @ take n bs \<and>
        m = progress_marker cid (send_progress c'))"

lemma write_effect:
  assumes inv: "stack_inv H (token, s)" and w: "write_with_marker cid bs now s = Some (r, t)"
  shows "stack_inv H (token, t) \<and> evolves s t \<and> wrote cid bs s r t"
proof (cases "get_conn cid s")
  case None
  then show ?thesis using inv w evolves_refl [OF inv] by (auto simp: write_with_marker_def wrote_def)
next
  case (Some c)
  note c = stack_inv_conn [OF inv Some]
  obtain q c' where o: "conn_write bs now (config s) c = Some (q, c')"
    using w Some by (cases "conn_write bs now (config s) c") (auto simp: write_with_marker_def)
  from c(1) o show ?thesis
  proof (cases rule: conn_write_cases)
    case refused
    have "put_conn cid c s = s"
      using Some by (simp add: put_conn_def get_conn_def update_triv)
    with refused o Some inv w evolves_refl [OF inv] show ?thesis by (auto simp: write_with_marker_def wrote_def)
  next
    case (accepted segs)
    have "\<forall>x \<in> set segs. sends c x"
      using talks_conn_write [OF c(4)] o accepted(2) by (auto simp: talks_def)
    note st = stored [OF inv Some step_write [OF o] this]
    show ?thesis using w Some o accepted(1,2,5) st by (auto simp: write_with_marker_def wrote_def)
  qed
qed

lemma stack_write_effect:
  assumes "stack_inv H (token, s)" "stack_write cid bs now s = Some (r, t)"
  shows "stack_inv H (token, t) \<and> evolves s t"
  using assms write_effect [OF assms(1), of cid bs now]
  by (auto simp: stack_write_def call_bind_Some)

lemma stack_read_effect:
  assumes inv: "stack_inv H (token, s)"
  shows "stack_inv H (token, snd (stack_read cid m now s)) \<and> evolves s (snd (stack_read cid m now s))"
    and "get_conn cid s = None \<Longrightarrow> stack_read cid m now s = (Inl UnknownConnection, s)"
    and "get_conn cid s = Some c \<Longrightarrow> \<exists>bs t c'. stack_read cid m now s = (Inr bs, t) \<and>
      get_conn cid t = Some c' \<and> bs @ recv_queue c' = recv_queue c \<and>
      length bs = min m (length (recv_queue c))"
proof -
  show unknown: "get_conn cid s = None \<Longrightarrow> stack_read cid m now s = (Inl UnknownConnection, s)"
    by (simp add: stack_read_def)
  have known: "stack_inv H (token, snd (stack_read cid m now s)) \<and> evolves s (snd (stack_read cid m now s)) \<and>
      (\<exists>bs t c'. stack_read cid m now s = (Inr bs, t) \<and> get_conn cid t = Some c' \<and>
        bs @ recv_queue c' = recv_queue c \<and> length bs = min m (length (recv_queue c)))"
    if get: "get_conn cid s = Some c" for c
  proof -
    note c = stack_inv_conn [OF inv get]
    obtain bs segs c' where o: "conn_read m c = ((bs, segs), c')" by (metis surj_pair)
    note e = conn_read_effect [OF c(1), of m, unfolded o, simplified]
    have "\<forall>x \<in> set segs. sends c x"
      using talks_conn_read [OF c(4), of m] o by (simp add: talks_def)
    note st = stored [OF inv get step_read [OF o] this]
    show ?thesis using get o st e by (auto simp: stack_read_def effect_def)
  qed
  show "stack_inv H (token, snd (stack_read cid m now s)) \<and> evolves s (snd (stack_read cid m now s))"
    using unknown known inv evolves_refl [OF inv] by (cases "get_conn cid s") auto
  show "get_conn cid s = Some c \<Longrightarrow> \<exists>bs t c'. stack_read cid m now s = (Inr bs, t) \<and>
      get_conn cid t = Some c' \<and> bs @ recv_queue c' = recv_queue c \<and>
      length bs = min m (length (recv_queue c))"
    using known by blast
qed

lemma stack_close_effect:
  assumes inv: "stack_inv H (token, s)"
  shows "\<exists>r t. stack_close cid now s = Some (r, t) \<and> stack_inv H (token, t) \<and> evolves s t \<and>
    (case get_conn cid s of None \<Rightarrow> r = Inl UnknownConnection \<and> t = s
     | Some c \<Rightarrow> r = Inr () \<and> (phase (state c) = Opening \<longrightarrow> get_conn cid t = None))"
proof (cases "get_conn cid s")
  case None
  then show ?thesis using inv evolves_refl [OF inv] by (simp add: stack_close_def)
next
  case (Some c)
  note c = stack_inv_conn [OF inv Some]
  obtain u c' where o: "conn_close now c = Some (u, c')"
    "upd_closed u \<longleftrightarrow> phase (state c) = Opening" "effect (config s) c (upd_segments u) c'"
    using conn_close_effect [OF c(1), of now] by blast
  have segs: "\<forall>x \<in> set (upd_segments u). sends c x"
    using talks_conn_close [OF c(4) o(1)] by (simp add: talks_def)
  have id: "identity c' = identity c" using o(3) by (simp add: effect_def)
  show ?thesis
  proof (cases "upd_closed u")
    case True
    then show ?thesis
      using Some o(1,2) apply_update_closed [OF Some id segs True] inv_removed [OF inv segs]
      by (simp add: stack_close_def remove_connection_table(3))
  next
    case False
    note st = stored [OF inv Some step_close [OF o(1) False] segs]
    show ?thesis using Some o(1,2) False st by (simp add: stack_close_def apply_update_def)
  qed
qed

section \<open>Aborting\<close>

lemma abort_effect:
  assumes inv: "stack_inv H (token, s)"
  shows "stack_inv H (token, snd (abort cid s)) \<and> evolves s (snd (abort cid s))"
    and "get_conn cid s = None \<Longrightarrow> abort cid s = (Inl UnknownConnection, s)"
    and "get_conn cid s = Some c \<Longrightarrow> fst (abort cid s) = Inr () \<and>
      (\<forall>cid'. get_conn cid' (snd (abort cid s)) = (if cid' = cid then None else get_conn cid' s)) \<and>
      outbound (snd (abort cid s)) = filter (\<lambda>x. out_peer x \<noteq> peer c \<or>
         (\<forall>seg. decode (out_bytes x) = Inr seg \<longrightarrow>
            seg_src_port seg \<noteq> local_port c \<or> seg_dst_port seg \<noteq> remote_port c)) (outbound s)
        @ [packet (peer c) (reset_segment c)]"
proof -
  show unknown: "get_conn cid s = None \<Longrightarrow> abort cid s = (Inl UnknownConnection, s)"
    by (simp add: abort_def)
  have known: "\<exists>xs. abort cid s = (Inr (), remove_connection cid (s\<lparr>outbound := xs @ [packet (peer c) (reset_segment c)]\<rparr>)) \<and>
      xs = filter (\<lambda>x. out_peer x \<noteq> peer c \<or> (\<forall>seg. decode (out_bytes x) = Inr seg \<longrightarrow>
            seg_src_port seg \<noteq> local_port c \<or> seg_dst_port seg \<noteq> remote_port c)) (outbound s) \<and>
      good_segment (reset_segment c)"
    if get: "get_conn cid s = Some c" for c
  proof -
    have good: "good_segment (reset_segment c)"
      using sends_reset [OF stack_inv_conn(4) [OF inv get]] by (simp add: sends_def)
    then have "encode (reset_segment c) = Inr (wire_bytes (reset_segment c))" by (rule encode_good)
    moreover have "(case x of Inr seg \<Rightarrow> P seg | Inl (e :: wire_error) \<Rightarrow> True) \<longleftrightarrow>
        (\<forall>seg. x = Inr seg \<longrightarrow> P seg)" for x and P :: "segment \<Rightarrow> bool"
      by (cases x) simp_all
    ultimately show ?thesis using get good by (simp add: abort_def Let_def packet_def)
  qed
  show "stack_inv H (token, snd (abort cid s)) \<and> evolves s (snd (abort cid s))"
  proof (cases "get_conn cid s")
    case (Some c)
    obtain xs where xs: "abort cid s = (Inr (), remove_connection cid (s\<lparr>outbound := xs @ [packet (peer c) (reset_segment c)]\<rparr>))"
      "set xs \<subseteq> set (outbound s)" "good_segment (reset_segment c)"
      using known [OF Some] by auto
    have "stack_inv H (token, s\<lparr>outbound := xs @ [packet (peer c) (reset_segment c)]\<rparr>)"
      using stack_invD(9) [OF inv] xs(2,3)
      by (intro inv_outbound [OF inv]) (auto simp: packets_ok_def dest: packet_decodes)
    moreover have "evolves s (s\<lparr>outbound := xs @ [packet (peer c) (reset_segment c)]\<rparr>)"
      by (rule evolves_same [OF inv]) simp_all
    ultimately show ?thesis using xs(1) inv_remove evolves_trans evolves_remove by fastforce
  qed (use unknown inv evolves_refl [OF inv] in simp)
  show "get_conn cid s = Some c \<Longrightarrow> fst (abort cid s) = Inr () \<and>
      (\<forall>cid'. get_conn cid' (snd (abort cid s)) = (if cid' = cid then None else get_conn cid' s)) \<and>
      outbound (snd (abort cid s)) = filter (\<lambda>x. out_peer x \<noteq> peer c \<or>
         (\<forall>seg. decode (out_bytes x) = Inr seg \<longrightarrow>
            seg_src_port seg \<noteq> local_port c \<or> seg_dst_port seg \<noteq> remote_port c)) (outbound s)
        @ [packet (peer c) (reset_segment c)]"
    using known [of c] by (auto simp: remove_connection_table(3))
qed

lemma abort_ids_effect:
  assumes "stack_inv H (token, s)" "distinct ids" "\<forall>cid \<in> set ids. get_conn cid s \<noteq> None"
  shows "\<exists>t. abort_ids ids s = (Inr (), t) \<and> stack_inv H (token, t) \<and> evolves s t \<and>
    (\<forall>cid. get_conn cid t = (if cid \<in> set ids then None else get_conn cid s))"
  using assms
proof (induction ids arbitrary: s)
  case (Cons cid ids)
  then obtain c where c: "get_conn cid s = Some c" by auto
  note a = abort_effect(1,3) [OF Cons.prems(1)]
  obtain t where t: "abort cid s = (Inr (), t)"
    "\<forall>cid'. get_conn cid' t = (if cid' = cid then None else get_conn cid' s)"
    using a(2) [OF c] by (metis prod.collapse)
  have "stack_inv H (token, t)" "evolves s t" using a(1) [of cid] t by simp_all
  moreover have "\<forall>cid \<in> set ids. get_conn cid t \<noteq> None"
    using Cons.prems t(2) by (auto split: if_splits)
  ultimately obtain t' where "abort_ids ids t = (Inr (), t')" "stack_inv H (token, t')" "evolves s t'"
    "\<forall>cid. get_conn cid t' = (if cid \<in> set ids then None else get_conn cid t)"
    using Cons.IH [of t] Cons.prems(2) evolves_trans by fastforce
  with t show ?case by auto
qed (use evolves_refl in auto)

lemma abort_peer_effect:
  assumes inv: "stack_inv H (token, s)"
  shows "\<exists>t. abort_peer p s = (Inr (peer_connections p s), t) \<and> stack_inv H (token, t) \<and> evolves s t \<and>
    (\<forall>cid. get_conn cid t = (case get_conn cid s of None \<Rightarrow> None
       | Some c \<Rightarrow> if peer c = p then None else Some c))"
proof -
  let ?ids = "map fst (filter (\<lambda>(cid, c). peer c = p) (connections s))"
  have dist: "distinct (map fst (connections s))"
    using stack_invD(5) [OF inv] by (simp add: table_ok_def)
  then have mem: "cid \<in> set ?ids \<longleftrightarrow> (\<exists>c. get_conn cid s = Some c \<and> peer c = p)" for cid
    by (force simp: get_conn_def)
  have "distinct ?ids" using dist by (rule distinct_map_filter)
  moreover have "\<forall>cid \<in> set ?ids. get_conn cid s \<noteq> None" using mem by (metis option.discI)
  ultimately obtain t where t: "abort_ids ?ids s = (Inr (), t)" "stack_inv H (token, t)" "evolves s t"
    "\<forall>cid. get_conn cid t = (if cid \<in> set ?ids then None else get_conn cid s)"
    using abort_ids_effect [OF inv] by blast
  have "get_conn cid t = (case get_conn cid s of None \<Rightarrow> None
       | Some c \<Rightarrow> if peer c = p then None else Some c)" for cid
    using t(4) mem [of cid] by (auto split: option.split)
  then show ?thesis
    using t(1,2,3) by (simp add: abort_peer_def peer_connections_def Let_def)
qed

section \<open>Listeners and accept queues\<close>

lemma listen_effect:
  assumes "stack_inv H (token, s)"
  shows "stack_inv H (token, snd (listen port s))"
proof -
  have "accepts_ok H (s\<lparr>listeners := l, accepts := (accepts s)(port \<mapsto> [])\<rparr>)" for l
    using stack_invD(8) [OF assms] by (auto simp: accepts_ok_def get_conn_def)
  moreover have "accepts_ok H (s\<lparr>listeners := l, accepts := accepts s\<rparr>)" for l
    using stack_invD(8) [OF assms] by (auto simp: accepts_ok_def get_conn_def)
  ultimately show ?thesis
    using assms by (auto simp: listen_def stack_inv_def split: option.split)
qed

lemma close_listener_effect:
  assumes "stack_inv H (token, s)"
  shows "stack_inv H (token, close_listener port s)"
proof -
  have "accepts_ok H (s\<lparr>listeners := l, accepts := (accepts s)(port := None)\<rparr>)" for l
    using stack_invD(8) [OF assms] by (auto simp: accepts_ok_def get_conn_def)
  then show ?thesis
    using assms by (simp add: close_listener_def stack_inv_def)
qed

lemma accept_loop_split:
  "accept_loop live q = (found, q') \<Longrightarrow> case found of
     None \<Rightarrow> q' = [] \<and> (\<forall>cid \<in> set q. \<not> live cid)
   | Some cid \<Rightarrow> live cid \<and> (\<exists>dead. q = dead @ cid # q' \<and> (\<forall>d \<in> set dead. \<not> live d))"
proof (induction live q rule: accept_loop.induct)
  case (2 live cid q)
  show ?case
  proof (cases "live cid")
    case True
    then show ?thesis using "2.prems" by (auto intro: exI [of _ "[]"])
  next
    case False
    then have *: "case found of None \<Rightarrow> q' = [] \<and> (\<forall>cid \<in> set q. \<not> live cid)
     | Some cid \<Rightarrow> live cid \<and> (\<exists>dead. q = dead @ cid # q' \<and> (\<forall>d \<in> set dead. \<not> live d))"
      using 2 by simp
    show ?thesis
    proof (cases found)
      case (Some x)
      with * obtain dead where "live x" "q = dead @ x # q'" "\<forall>d \<in> set dead. \<not> live d" by auto
      then show ?thesis using Some False by (auto intro: exI [of _ "cid # dead"])
    qed (use * False in simp)
  qed
qed simp

lemma accept_effect:
  assumes inv: "stack_inv H (token, s)" and a: "accept port s = (found, t)"
  shows "connections t = connections s \<and>
    (case found of
       Some cid \<Rightarrow> stack_inv (insert cid H) (token, t) \<and> cid \<notin> H \<and>
         (\<exists>c. get_conn cid s = Some c \<and> local_port c = port \<and> phase (state c) \<noteq> Opening)
     | None \<Rightarrow> stack_inv H (token, t) \<and>
         (\<forall>q. accepts s port = Some q \<longrightarrow> (\<forall>cid \<in> set q. get_conn cid s = None)))"
proof (cases "accepts s port")
  case None
  then show ?thesis using inv a by (auto simp: accept_def)
next
  case (Some q)
  obtain q' where l: "accept_loop (\<lambda>cid. get_conn cid s \<noteq> None) q = (found, q')"
    and t: "t = s\<lparr>accepts := (accepts s)(port \<mapsto> q')\<rparr>"
    using a Some by (auto simp: accept_def split: prod.splits)
  note sp = accept_loop_split [OF l]
  have q: "distinct q" "set q \<inter> H = {}"
    "\<forall>cid \<in> set q. cid < next_connection_id s \<and>
       (\<forall>c. get_conn cid s = Some c \<longrightarrow> local_port c = port \<and> phase (state c) \<noteq> Opening)"
    using stack_invD(8) [OF inv] Some by (simp_all add: accepts_ok_def)
  have q': "distinct q'" "set q' \<subseteq> set q"
    using sp q(1) by (auto split: option.splits)
  have ok: "accepts_ok H' t" if "H' = H \<or> (\<exists>cid. found = Some cid \<and> H' = insert cid H)" for H'
  proof -
    have new: "cid \<notin> set q' \<and> cid \<in> set q \<and> (\<forall>p' r. accepts s p' = Some r \<longrightarrow> p' \<noteq> port \<longrightarrow> cid \<notin> set r)"
      if "found = Some cid" for cid
    proof -
      have "cid \<notin> set q'" "cid \<in> set q" "get_conn cid s \<noteq> None" using sp q(1) that by auto
      then show ?thesis
        using accepted_live [OF inv] accepted_live [OF inv Some] by (metis not_None_eq)
    qed
    have "set q' \<inter> H' = {}" using that q(2) q'(2) new by auto
    moreover have "set r \<inter> H' = {}" if "accepts s p' = Some r" "p' \<noteq> port" for p' r
      using stack_invD(8) [OF inv] that \<open>H' = H \<or> _\<close> new unfolding accepts_ok_def by blast
    moreover have "\<forall>cid \<in> H'. cid < next_connection_id s \<and>
        (\<forall>c. get_conn cid s = Some c \<longrightarrow> phase (state c) \<noteq> Opening)"
      using that stack_invD(8) [OF inv] q(3) new unfolding accepts_ok_def by blast
    moreover have "\<forall>cid \<in> set q'. cid < next_connection_id s \<and>
        (\<forall>c. get_conn cid s = Some c \<longrightarrow> local_port c = port \<and> phase (state c) \<noteq> Opening)"
      using q(3) q'(2) by blast
    ultimately show ?thesis
      using stack_invD(8) [OF inv] q'(1) unfolding accepts_ok_def t by simp
  qed
  have rest: "stack_inv H' (token, t)" if "H' = H \<or> (\<exists>cid. found = Some cid \<and> H' = insert cid H)" for H'
    using stack_invD [OF inv] ok [OF that] by (simp add: stack_inv_def t)
  show ?thesis
  proof (cases found)
    case None
    then show ?thesis using rest [of H] sp Some by (simp add: t)
  next
    case found: (Some cid)
    then have "cid \<in> set q" "get_conn cid s \<noteq> None" using sp by auto
    then show ?thesis
      using rest [of "insert cid H"] q(2,3) found by (auto simp: t)
  qed
qed

lemma inv_handed_mono: "stack_inv H ts \<Longrightarrow> H' \<subseteq> H \<Longrightarrow> stack_inv H' ts"
  unfolding stack_inv_def accepts_ok_def by (auto split: prod.splits)

lemma reservation_effect:
  "stack_inv H (token, s) \<Longrightarrow> stack_inv H (token, snd (set_connection_reservation slots eligible s))"
  by (auto simp: set_connection_reservation_def stack_inv_def room_ok_def peer_connections_def)

lemma drain_effect: "stack_inv H (token, s) \<Longrightarrow> stack_inv H (token, snd (drain_outbound s))"
  using inv_outbound [of H token s "[]"] by (simp add: drain_outbound_def)

end
