(* ===== verification/Stack_System.thy ===== *)
theory Stack_System
  imports Stack_Ops
begin

text \<open>
  The stack as a transition system over pairs of the process-wide token counter and a stack: one step
  is one public call, or another stack of the process drawing tokens. The contract
  \<open>invariant_system\<close> is interpreted on it, and the properties of every reachable stack follow.
\<close>

section \<open>Starting and stepping\<close>

inductive stack_start :: "nat \<times> 'p stack \<Rightarrow> bool" where
  start_new: "stack_new cfg isn_seed = Some s \<Longrightarrow> config_typed cfg \<Longrightarrow> 1 \<le> token \<Longrightarrow>
     token \<le> u64_max \<Longrightarrow> stack_start (token, s)"

inductive stack_step :: "nat \<times> 'p stack \<Rightarrow> nat \<times> 'p stack \<Rightarrow> bool" where
  do_input: "input p bs now ts = Some (r1, ts') \<Longrightarrow> stack_step ts ts'"
| do_connect_from: "connect_from_with_isn p lport rport isn now ts = Some (r2, ts') \<Longrightarrow> stack_step ts ts'"
| do_connect: "connect p rport now ts = Some (r2, ts') \<Longrightarrow> stack_step ts ts'"
| do_listen: "listen port s = (r1, s') \<Longrightarrow> stack_step (token, s) (token, s')"
| do_close_listener: "stack_step (token, s) (token, close_listener port s)"
| do_accept: "accept port s = (found, s') \<Longrightarrow> stack_step (token, s) (token, s')"
| do_poll: "poll now s = Some s' \<Longrightarrow> stack_step (token, s) (token, s')"
| do_write: "write_with_marker cid bs now s = Some (r3, s') \<Longrightarrow> stack_step (token, s) (token, s')"
| do_plain_write: "stack_write cid bs now s = Some (r4, s') \<Longrightarrow> stack_step (token, s) (token, s')"
| do_read: "stack_read cid m now s = (r5, s') \<Longrightarrow> stack_step (token, s) (token, s')"
| do_close: "stack_close cid now s = Some (r1, s') \<Longrightarrow> stack_step (token, s) (token, s')"
| do_abort: "abort cid s = (r1, s') \<Longrightarrow> stack_step (token, s) (token, s')"
| do_abort_peer: "abort_peer p s = (r4, s') \<Longrightarrow> stack_step (token, s) (token, s')"
| do_reservation: "set_connection_reservation slots eligible s = (r1, s') \<Longrightarrow>
     stack_step (token, s) (token, s')"
| do_drain: "drain_outbound s = (out, s') \<Longrightarrow> stack_step (token, s) (token, s')"
| other_stacks: "token \<le> token' \<Longrightarrow> token' \<le> u64_max \<Longrightarrow> stack_step (token, s) (token', s)"

inductive_cases stack_startE: "stack_start ts"
inductive_cases stack_stepE: "stack_step ts ts'"

lemma stack_new_inv:
  assumes "stack_start ts"
  shows "stack_inv {} ts"
  using assms
proof cases
  case (start_new cfg isn_seed s token)
  then show ?thesis
    using max_1_nonzero validate_ok [of cfg]
    by (auto simp: stack_new_def stack_inv_def valid_setup_def table_ok_def conns_ok_def room_ok_def
        accepts_ok_def packets_ok_def generators_ok_def get_conn_def peer_connections_def split: sum.splits)
qed

text \<open>Creating a connection needs a token; the code panics when the counter is exhausted.\<close>

lemma create_needs_token:
  "conn_client p lport rport isn now cfg token = Some r \<Longrightarrow> token < u64_max"
  "conn_server p syn isn now cfg token = Some r' \<Longrightarrow> token < u64_max"
  by (auto simp: conn_client_def conn_server_def dest: new_needs_token split: option.splits)

lemma input_full:
  assumes inv: "stack_inv H (token, s)" and full: "\<not> token < u64_max" and i: "input p bs now (token, s) = Some (r, t)"
  shows "stack_inv H t \<and> evolves s (snd t)"
proof (cases "decode bs")
  case (Inl e)
  then show ?thesis using i inv evolves_refl [OF inv] by (auto simp: input_def)
next
  case (Inr seg)
  then have good: "good_segment seg" by (rule decode_good)
  note reset = inv_emit_reset [OF inv good, of p] evolves_emit_reset [OF inv good, of p]
  show ?thesis
  proof (cases "lookup s \<lparr>key_peer = p, key_local_port = seg_dst_port seg, key_remote_port = seg_src_port seg\<rparr>")
    case (Some cid)
    obtain c where "get_conn cid s = Some c" using stack_inv_lookup [OF inv Some] by blast
    from input_existing_effect [OF inv this good, of p now]
    show ?thesis using Inr Some i by (auto simp: input_def)
  next
    case None
    have "stack_inv H t \<and> evolves s (snd t)" if "input_syn p seg now (token, s) = Some (r, t)"
      using that reset inv evolves_refl [OF inv] full
      by (auto simp: input_syn_def dest: create_needs_token(2)
          split: if_splits prod.splits option.splits sum.splits)
    then show ?thesis
      using Inr None i reset inv evolves_refl [OF inv]
      by (auto simp: input_def split: if_splits prod.splits)
  qed
qed

lemma connect_from_full:
  assumes inv: "stack_inv H (token, s)" and full: "\<not> token < u64_max"
    and c: "connect_from_with_isn p lport rport isn now (token, s) = Some (r, t)"
  shows "stack_inv H t \<and> evolves s (snd t)"
  using c inv evolves_refl [OF inv] full
  by (auto simp: connect_from_with_isn_def Let_def dest: create_needs_token(1)
      split: if_splits prod.splits option.splits sum.splits)

lemma connect_full:
  assumes inv: "stack_inv H (token, s)" and full: "\<not> token < u64_max"
    and c: "connect p rport now (token, s) = Some (r, t)"
  shows "stack_inv H t \<and> evolves s (snd t)"
proof -
  obtain q s1 where a: "allocate_ephemeral_port p rport s = (q, s1)" by force
  note al = allocate_ephemeral_effect [OF inv a]
  have ev: "evolves s s1" using inv al(2,5,6) by (rule evolves_same)
  show ?thesis
  proof (cases q)
    case (Inl e)
    then show ?thesis using a c al(1) ev by (auto simp: connect_def)
  next
    case (Inr port)
    have inv2: "stack_inv H (token, snd (next_isn s1))" using al(1) by (rule next_isn_inv)
    have "evolves s1 (snd (next_isn s1))" by (rule evolves_same [OF al(1)]) simp_all
    then have ev2: "evolves s (snd (next_isn s1))" using ev evolves_trans by blast
    have "connect_from_with_isn p port rport (fst (next_isn s1)) now (token, snd (next_isn s1)) = Some (r, t)"
      using a c Inr by (simp add: connect_def split_beta)
    from connect_from_full [OF inv2 full this] show ?thesis using evolves_trans [OF ev2] by blast
  qed
qed

text \<open>Every step keeps the invariant and lets the connections move only by connection steps.\<close>

lemma stack_step_effect:
  assumes "stack_inv H ts" "stack_step ts ts'"
  shows "stack_inv H ts' \<and> evolves (snd ts) (snd ts')"
proof -
  obtain token s where ts: "ts = (token, s)" by force
  have inv: "stack_inv H (token, s)" using assms(1) ts by simp
  have step: "stack_step (token, s) ts'" using assms(2) ts by simp
  have same: "evolves s t" if "connections t = connections s" "config t = config s"
    "next_connection_id t = next_connection_id s" for t
    using inv that by (rule evolves_same)
  have "stack_inv H ts' \<and> evolves s (snd ts')"
    using step
  proof cases
    case (do_input p bs now r)
    then show ?thesis
      using input_effect [OF inv, of p bs now] input_full [OF inv] by (cases "token < u64_max") auto
  next
    case (do_connect_from p lport rport isn now r)
    show ?thesis
    proof (cases "token < u64_max")
      case True
      then show ?thesis
        using connect_from_effect [OF inv True, of p lport rport isn now] do_connect_from
          opens_inv [of H "(token, s)" SynSent _ _ ts'] inv evolves_refl [OF inv]
        by (auto split: sum.splits)
    qed (use connect_from_full [OF inv] do_connect_from in blast)
  next
    case (do_connect p rport now r)
    then show ?thesis
      using connect_effect [OF inv, of p rport now] connect_full [OF inv] by (cases "token < u64_max") auto
  next
    case (do_listen port r s')
    then have "snd (listen port s) = s'" by simp
    then show ?thesis
      using do_listen(1) listen_effect [OF inv, of port] same [of s']
      by (auto simp: listen_def split: if_splits option.splits)
  next
    case (do_close_listener port)
    then show ?thesis
      using close_listener_effect [OF inv, of port] same [of "close_listener port s"]
      by (simp add: close_listener_def)
  next
    case (do_accept port found s')
    have "stack_inv H (token, s')"
      using accept_effect [OF inv do_accept(2)] inv_handed_mono [of "insert _ H" "(token, s')" H]
      by (auto split: option.splits)
    moreover have "connections s' = connections s" "config s' = config s"
      "next_connection_id s' = next_connection_id s"
      using do_accept(2) by (auto simp: accept_def split: option.splits prod.splits)
    ultimately show ?thesis using do_accept(1) same by simp
  next
    case (do_poll now s')
    then show ?thesis using poll_effect [OF inv, of now] by auto
  next
    case (do_write cid bs now r s')
    then show ?thesis using write_effect [OF inv] by auto
  next
    case (do_plain_write cid bs now r s')
    then show ?thesis using stack_write_effect [OF inv] by auto
  next
    case (do_read cid m now r s')
    then show ?thesis using stack_read_effect(1) [OF inv, of cid m now] by simp
  next
    case (do_close cid now r s')
    then show ?thesis using stack_close_effect [OF inv, of cid now] by auto
  next
    case (do_abort cid r s')
    then show ?thesis using abort_effect(1) [OF inv, of cid] by simp
  next
    case (do_abort_peer p r s')
    then show ?thesis using abort_peer_effect [OF inv, of p] by auto
  next
    case (do_reservation slots eligible r s')
    then show ?thesis
      using reservation_effect [OF inv, of slots eligible] same [of s']
      by (auto simp: set_connection_reservation_def split: if_splits)
  next
    case (do_drain out s')
    then show ?thesis using drain_effect [OF inv] same [of s'] by (auto simp: drain_outbound_def)
  next
    case (other_stacks token')
    then show ?thesis using inv_token [OF inv] evolves_refl [OF inv] by auto
  qed
  then show ?thesis by (simp add: ts)
qed

interpretation stack: invariant_system stack_start stack_step "stack_inv {}"
  by unfold_locales (auto intro: stack_new_inv dest: stack_step_effect)

abbreviation stack_reach :: "nat \<times> 'p stack \<Rightarrow> bool" where
  "stack_reach \<equiv> reach stack_start stack_step"

end
