(* ===== verification/Stack_Run.thy ===== *)
theory Stack_Run
  imports Stack_System
begin

text \<open>
  Concrete runs of a stack in the default configuration: a fresh one, one with a client connection
  before and after its handshake, and one that has accepted a connection. They are the inputs at
  which the properties of the stack are evaluated.
\<close>

section \<open>A fresh stack\<close>

definition fresh_stack :: "'p stack" where
  "fresh_stack = the (stack_new config_default 42)"

definition example_syn :: segment where
  "example_syn = build_segment \<lparr>hdr_local_port = 50000, hdr_remote_port = 80, hdr_seq = 7000,
     hdr_ack = 0, hdr_window = 65535, hdr_mss = 1024, hdr_flags = SYN\<rparr> []"

lemma example_stack_new: "stack_new config_default 42 = Some fresh_stack"
  using valid_config_default validate_ok [of config_default] by (simp add: fresh_stack_def stack_new_def)

lemma example_stack_reach: "stack_reach (1, fresh_stack)"
  by (rule reach_start, rule start_new [OF example_stack_new config_typed_default])
    (simp_all add: u64_max_def)

lemma example_stack_fields [simp]:
  "connections fresh_stack = []" "lookup fresh_stack = Map.empty" "listeners fresh_stack = {}"
  "accepts fresh_stack = Map.empty" "outbound fresh_stack = []" "config fresh_stack = config_default"
  "next_connection_id fresh_stack = 1" "reservation fresh_stack = None" "isn_state fresh_stack = 42"
  using valid_config_default validate_ok [of config_default]
  by (simp_all add: fresh_stack_def stack_new_def)

abbreviation example_stack :: "nat stack" where
  "example_stack \<equiv> fresh_stack"

section \<open>A client connection\<close>

definition client_stack :: "nat stack" where
  "client_stack = snd (snd (the (connect_from_with_isn 7 49152 80 1000 0 (1, example_stack))))"

lemma example_room: "ensure_connection_capacity p fresh_stack = Inr ()"
  by (simp add: ensure_connection_capacity_def peer_connections_def config_default_def u64_max_def)

lemma client_stack_cases:
  obtains x where "sends example_client x" "client_stack = sent example_client [x] (inserted example_client example_stack)"
    "connect_from_with_isn 7 49152 80 1000 0 (1, example_stack) = Some (Inr 1, (2, client_stack))"
proof -
  obtain c x where c: "conn_client (7 :: nat) 49152 80 1000 0 config_default 1 = Some ((c, [x]), 2)"
    "conn_key c = \<lparr>key_peer = 7, key_local_port = 49152, key_remote_port = 80\<rparr>" "sends c x"
    using conn_created [OF valid_setup_default, of 49152 80 1 "7 :: nat" 1000 0] by (auto simp: u64_max_def)
  have e: "example_client = c" using c(1) by (simp add: example_client_def)
  have "connect_from_with_isn 7 49152 80 1000 0 (1, example_stack) =
      Some (Inr 1, (2, sent c [x] (inserted c example_stack)))"
    using connect_from_opens [of 49152 80 7 example_stack c 1000 0 1 x 2] c example_room [of "7 :: nat"] by simp
  then show thesis using that c(3) by (simp add: e client_stack_def)
qed

lemma client_stack_simps [simp]:
  "get_conn cid client_stack = (if cid = 1 then Some example_client else None)"
  "config client_stack = config_default" "accepts client_stack = Map.empty"
  "next_connection_id client_stack = 2" "listeners client_stack = {}"
proof -
  obtain x where x: "client_stack = sent example_client [x] (inserted example_client example_stack)"
    by (rule client_stack_cases)
  show "get_conn cid client_stack = (if cid = 1 then Some example_client else None)"
    by (simp add: x inserted_def) (simp add: get_conn_def)
  show "config client_stack = config_default" "accepts client_stack = Map.empty"
    "next_connection_id client_stack = 2" "listeners client_stack = {}"
    by (simp_all add: x inserted_def sent_def u64_max_def)
qed

section \<open>Delivering a segment\<close>

lemma input_delivers:
  assumes inv: "stack_inv H (token, s)" and get: "get_conn cid s = Some c" and good: "good_segment seg"
    and key: "conn_key c = \<lparr>key_peer = p, key_local_port = seg_dst_port seg, key_remote_port = seg_src_port seg\<rparr>"
    and pass: "\<not> stale_handshake_ack seg c" "\<not> unexpected_syn seg c"
    and seg: "on_segment seg now (config s) c = Some (u, c')" "\<not> upd_closed u" "\<not> upd_accepted u"
  shows "input p (wire_bytes seg) now (token, s) =
    Some (Inr (), (token, sent c (upd_segments u) (put_conn cid c' s)))"
proof -
  have segs: "\<forall>x \<in> set (upd_segments u). sends c x"
    using talks_on_segment [OF stack_inv_conn(4) [OF inv get] seg(1)] by (simp add: talks_def)
  have "lookup s (conn_key c) = Some cid" using stack_inv_conn(3) [OF inv get] .
  moreover have "input_existing p cid seg now s = Some (Inr (), sent c (upd_segments u) (put_conn cid c' s))"
    using get pass seg stored(1) [OF inv get step_segment [OF seg(1,2)] segs]
    by (simp add: input_existing_def apply_update_def)
  ultimately show ?thesis
    using decode_wire_bytes [OF good] by (simp add: input_def key)
qed

lemma client_stack_reach: "stack_reach (2, client_stack)"
proof -
  have "stack_step (1, example_stack) (2, client_stack)"
    by (rule client_stack_cases) (rule do_connect_from)
  then show ?thesis using example_stack_reach by (blast intro: reach_step)
qed

definition open_stack :: "nat stack" where
  "open_stack = snd (snd (the (input 7 (wire_bytes example_syn_ack) 20 (2, client_stack))))"

lemma open_stack_input:
  "\<exists>u :: update. input 7 (wire_bytes example_syn_ack) 20 (2, client_stack) = Some (Inr (), (2, open_stack)) \<and>
     open_stack = sent example_client (upd_segments u) (put_conn 1 example_open client_stack)"
proof -
  obtain u where u: "on_segment example_syn_ack 20 config_default example_client = Some (u, example_open)"
    "\<not> upd_closed u" "\<not> upd_accepted u"
    by (simp add: example_open_def example_syn_ack_def example_client_eq eval_defs)
  have "good_segment example_syn_ack"
    by (simp add: good_segment_def example_syn_ack_def segment_new_def)
  moreover have "\<not> stale_handshake_ack example_syn_ack example_client" "\<not> unexpected_syn example_syn_ack example_client"
    by (simp_all add: stale_handshake_ack_def unexpected_syn_def example_syn_ack_def example_client_eq
        after_def before_def)
  moreover have "conn_key example_client = \<lparr>key_peer = 7, key_local_port = seg_dst_port example_syn_ack,
      key_remote_port = seg_src_port example_syn_ack\<rparr>"
    by (simp add: conn_key_def example_client_eq example_syn_ack_def segment_new_def)
  ultimately have "input 7 (wire_bytes example_syn_ack) 20 (2, client_stack) =
      Some (Inr (), (2, sent example_client (upd_segments u) (put_conn 1 example_open client_stack)))"
    using u stack.inv_reach [OF client_stack_reach] by (intro input_delivers) simp_all
  then show ?thesis by (intro exI [of _ u]) (simp add: open_stack_def)
qed

lemma open_stack_simps [simp]:
  "get_conn cid open_stack = (if cid = 1 then Some example_open else None)"
  "config open_stack = config_default" "next_connection_id open_stack = 2"
proof -
  obtain u :: update where u: "open_stack = sent example_client (upd_segments u) (put_conn 1 example_open client_stack)"
    using open_stack_input by blast
  show "get_conn cid open_stack = (if cid = 1 then Some example_open else None)"
    "config open_stack = config_default" "next_connection_id open_stack = 2"
    by (simp_all add: u)
qed

lemma open_stack_step: "stack_step (2, client_stack) (2, open_stack)"
  using open_stack_input by (auto intro: do_input)

lemma open_stack_reach: "stack_reach (2, open_stack)"
  using client_stack_reach open_stack_step by (rule reach_step)

section \<open>An accepted connection\<close>

definition port_80_stack :: "'p stack" where
  "port_80_stack = snd (listen 80 fresh_stack)"

abbreviation listen_stack :: "nat stack" where
  "listen_stack \<equiv> port_80_stack"

lemma listen_stack_simps [simp]:
  "connections port_80_stack = []" "lookup port_80_stack = Map.empty" "listeners port_80_stack = {80}"
  "accepts port_80_stack = [80 \<mapsto> []]" "outbound port_80_stack = []" "config port_80_stack = config_default"
  "next_connection_id port_80_stack = 1" "reservation port_80_stack = None"
  "listen 80 fresh_stack = (Inr (), port_80_stack)"
  by (simp_all add: port_80_stack_def listen_def)

text \<open>The sequence number it gives to its first connection.\<close>

definition isn_80 :: u32 where
  "isn_80 = ucast (xorshift 42 XOR drop_bit 32 (xorshift 42))"

lemma next_isn_80 [simp]: "fst (next_isn port_80_stack) = isn_80"
  by (simp add: next_isn_def Let_def isn_80_def port_80_stack_def listen_def)

lemma listen_stack_reach: "stack_reach (1, port_80_stack)"
  by (rule reach_step [OF example_stack_reach do_listen [of 80 _ "Inr ()"]]) simp

definition server_conn :: "'p \<Rightarrow> 'p connection" where
  "server_conn p = fst (fst (the (conn_server p example_syn isn_80 0 config_default 1)))"

definition server_stack :: "'p \<Rightarrow> 'p stack" where
  "server_stack p = snd (snd (the (input p (wire_bytes example_syn) 0 (1, port_80_stack))))"

lemma server_stack_input:
  fixes p :: 'a
  obtains x where "input p (wire_bytes example_syn) 0 (1, port_80_stack) = Some (Inr (), (2, server_stack p))"
    "server_stack p = sent (server_conn p) [x] (inserted (server_conn p) (snd (next_isn port_80_stack)))"
    "conn_server p example_syn isn_80 0 config_default 1 = Some ((server_conn p, [x]), 2)"
proof -
  have good: "good_segment example_syn" by (simp add: good_segment_def example_syn_def segment_new_def)
  obtain c x where c: "conn_server p example_syn isn_80 0 config_default 1 = Some ((c, [x]), 2)" "sends c x"
    "conn_key c = \<lparr>key_peer = p, key_local_port = seg_dst_port example_syn, key_remote_port = seg_src_port example_syn\<rparr>"
    using conn_accepted [OF valid_setup_default good, of 1 p isn_80 0] by (auto simp: u64_max_def)
  have e: "server_conn p = c" using c(1) by (simp add: server_conn_def)
  have room: "ensure_connection_capacity p port_80_stack = Inr ()"
    by (simp add: ensure_connection_capacity_def peer_connections_def config_default_def u64_max_def)
  have "supports_fips_version example_syn FIPS_VERSION"
    by (simp add: supports_fips_version_def example_syn_def FIPS_VERSION_def)
  from input_syn_opens [OF this room c(3) _ c(2), of 0 1 2] c(1)
  have "input_syn p example_syn 0 (1, port_80_stack) =
      Some (Inr (), (2, sent c [x] (inserted c (snd (next_isn port_80_stack)))))" by simp
  then have "input p (wire_bytes example_syn) 0 (1, port_80_stack) =
      Some (Inr (), (2, sent c [x] (inserted c (snd (next_isn port_80_stack)))))"
    using decode_wire_bytes [OF good] by (simp add: input_def example_syn_def segment_new_def)
  then show thesis using c(1) by (intro that [of x]) (simp_all add: server_stack_def e)
qed

definition server_record :: "'p \<Rightarrow> u32 \<Rightarrow> 'p connection" where
  "server_record p isn =
  \<lparr>peer = p, local_port = 80, remote_port = 50000, state = SynReceived,
   send_una = isn, send_nxt = isn + 1, recv_nxt = 7001, remote_window = 65535, mss = 1024,
   receive_capacity = 65535, max_transmissions = 8, send_queue = [], recv_queue = [],
   reassembly = [],
   unacked = [\<lparr>trk_seq = isn, trk_flags = SYN OR ACK, trk_payload = [], sent_at_ms = 0,
     transmissions = 1\<rparr>],
   rtt = \<lparr>have_measurement = False, srtt_ms = 0, rttvar_ms = 0, rto_ms = 1000,
     rtt_min_rto_ms = 200, rtt_max_rto_ms = 60000, consecutive_rtos = 0, sample_after = None\<rparr>,
   reno = \<lparr>cwnd = 2048, reno_mss = 1024, ssthresh = u64_max, in_fast_recovery = False,
     in_rto_recovery = False\<rparr>,
   duplicate_acks = 0, rto_recovery_until = None, close_requested = False,
   next_zero_window_probe_ms = None, zero_window_probes = 0, read_closed = False,
   send_progress = \<lparr>connection_token = 1, accepted_payload_bytes = 0, acked_payload_bytes = 0\<rparr>,
   fin_wait_2_until_ms = None, time_wait_until_ms = None\<rparr>"

lemma server_conn_eq: "server_conn p = server_record p isn_80"
  by (simp add: server_conn_def server_record_def example_syn_def eval_defs)

lemma server_stack_reach: "stack_reach (2, server_stack p)"
  by (rule server_stack_input [of p]) (blast intro: reach_step [OF listen_stack_reach] do_input)

lemma server_stack_simps [simp]:
  "get_conn cid (server_stack p) = (if cid = 1 then Some (server_conn p) else None)"
  "config (server_stack p) = config_default" "accepts (server_stack p) = [80 \<mapsto> []]"
proof -
  obtain x where x: "server_stack p = sent (server_conn p) [x] (inserted (server_conn p) (snd (next_isn port_80_stack)))"
    by (rule server_stack_input)
  have "connections (snd (next_isn port_80_stack)) = []" by simp
  then show "get_conn cid (server_stack p) = (if cid = 1 then Some (server_conn p) else None)"
    by (simp add: x inserted_def) (simp add: get_conn_def)
  show "config (server_stack p) = config_default" "accepts (server_stack p) = [80 \<mapsto> []]"
    by (simp_all add: x inserted_def next_isn_def Let_def)
qed

section \<open>Received data\<close>

lemma receive_in_order:
  assumes "reassembly c = []" "seg_seq s = recv_nxt c" "seg_payload s \<noteq> []" "\<not> contains (seg_flags s) FIN"
    and "length (seg_payload s) \<le> available_window c" "length (seg_payload s) + length (recv_queue c) \<le> receive_buffer cfg"
    and "length (seg_payload s) < 2 ^ 31" "0 < max_reassembly_segments cfg"
  defines "c' \<equiv> c\<lparr>reassembly := [], recv_queue := recv_queue c @ seg_payload s,
      recv_nxt := recv_nxt c + of_nat (length (seg_payload s))\<rparr>"
  shows "receive_stream_data s now cfg c = ([ack_segment c'], c')"
proof -
  have ins: "insert_received (seg_seq s) (seg_payload s) False cfg c = c\<lparr>reassembly :=
      [\<lparr>rsm_seq = recv_nxt c, rsm_payload = seg_payload s, rsm_fin = False\<rparr>]\<rparr>" (is "_ = ?c")
    using assms(1-8) by (simp add: insert_received_def Let_def after_def before_def distance_def)
  have fwd: "\<not> before_or_equal (recv_nxt c + of_nat (length (seg_payload s))) (recv_nxt c)"
  proof -
    have u: "unat (of_nat (length (seg_payload s)) :: u32) = length (seg_payload s)"
      using assms(7) by (simp add: unat_of_nat take_bit_nat_eq_self_iff)
    then have "of_nat (length (seg_payload s)) \<noteq> (0 :: u32)" using assms(3) by (metis length_0_conv unat_0)
    with u show ?thesis using assms(7) by (simp add: before_or_equal_def before_unat)
  qed
  have ret: "drain_retain ?c = ?c"
    using fwd by (simp add: drain_retain_def rsm_end_seq_def)
  have "drain_reassembly now cfg ?c = drain_reassembly now cfg c'"
    using assms(6)
    by (subst drain_reassembly_unfold)
      (simp add: ret List.extract_def Let_def drain_trim_def before_def drain_take_def c'_def rsm_end_seq_def)
  also have "drain_reassembly now cfg c' = c'"
    by (subst drain_reassembly_unfold) (simp add: c'_def drain_retain_def List.extract_def)
  finally show ?thesis using assms(4) ins by (simp add: receive_stream_data_def Let_def)
qed

text \<open>
  The acknowledgment of the handshake arrives with three bytes of data: the connection after the
  acknowledgment, and after the data.
\<close>

definition server_open :: "'p \<Rightarrow> u32 \<Rightarrow> 'p connection" where
  "server_open p isn =
     (update_remote_window 65535 10 (snd (the (apply_ack (isn + 1) 10 False (server_record p isn)))))\<lparr>state := Established\<rparr>"

lemma server_open_apply:
  obtains o1 c1 where "apply_ack (isn + 1) 10 False (server_record p isn) = Some (o1, c1)"
    "server_open p isn = (update_remote_window 65535 10 c1)\<lparr>state := Established\<rparr>"
proof -
  have "apply_ack (isn + 1) 10 False (server_record p isn) \<noteq> None"
    by (simp add: server_record_def eval_defs)
  then show thesis using that by (auto simp: server_open_def)
qed

lemma server_open_fields:
  "reassembly (server_open p isn) = []" "recv_nxt (server_open p isn) = 7001" "recv_queue (server_open p isn) = []"
  "receive_capacity (server_open p isn) = 65535" "send_queue (server_open p isn) = []"
  "close_requested (server_open p isn) = False" "state (server_open p isn) = Established"
  "local_port (server_open p isn) = 80"
  by (simp_all add: server_open_def server_record_def eval_defs)

definition server_data :: "u32 \<Rightarrow> segment" where
  "server_data isn = build_segment \<lparr>hdr_local_port = 50000, hdr_remote_port = 80, hdr_seq = 7001,
     hdr_ack = isn + 1, hdr_window = 65535, hdr_mss = 1024, hdr_flags = ACK OR PSH\<rparr> [1, 2, 3]"

definition server_reads :: "'p \<Rightarrow> u32 \<Rightarrow> 'p connection" where
  "server_reads p isn = (server_open p isn)\<lparr>reassembly := [], recv_queue := [1, 2, 3], recv_nxt := 7004\<rparr>"

lemma server_receives:
  "receive_stream_data (server_data isn) 10 config_default (server_open p isn) =
     ([ack_segment (server_reads p isn)], server_reads p isn)"
proof -
  have "seg_payload (server_data isn) = [1, 2, 3]" "seg_seq (server_data isn) = 7001"
    "\<not> contains (seg_flags (server_data isn)) FIN"
    by (simp_all add: server_data_def segment_new_def)
  moreover have "available_window (server_open p isn) = 65535"
    by (simp add: available_window_def server_open_fields sat_add64_def u64_max_def)
  moreover have "receive_buffer config_default = 65535" "max_reassembly_segments config_default = 128"
    by (simp_all add: config_default_def u16_max_def)
  ultimately show ?thesis
    using receive_in_order [of "server_open p isn" "server_data isn" config_default 10]
    by (simp add: server_open_fields server_reads_def)
qed

lemma flush_nothing: "send_queue c = [] \<Longrightarrow> \<not> close_requested c \<Longrightarrow> flush_data now c = Some ([], c)"
  by (simp add: flush_data_def flush_loop_unfold flush_fin_def)

lemma server_record_fields: "state (server_record p isn) = SynReceived" "send_nxt (server_record p isn) = isn + 1"
  "recv_nxt (server_record p isn) = 7001"
  by (simp_all add: server_record_def)

lemma server_data_fields: "seg_flags (server_data isn) = ACK OR PSH" "seg_ack (server_data isn) = Some (isn + 1)"
    "seg_window (server_data isn) = 65535" "has_stream_data (server_data isn)" "seg_seq (server_data isn) = 7001"
    "seg_src_port (server_data isn) = 50000" "seg_dst_port (server_data isn) = 80"
    by (simp_all add: server_data_def segment_new_def has_stream_data_def)

lemma server_accepts:
  "on_segment (server_data isn) 10 config_default (server_record p isn) =
     Some (\<lparr>upd_segments = [ack_segment (server_reads p isn)], upd_accepted = True, upd_closed = False\<rparr>,
       server_reads p isn)"
proof -
  obtain o1 c1 where ack: "apply_ack (isn + 1) 10 False (server_record p isn) = Some (o1, c1)"
    and c1: "server_open p isn = (update_remote_window 65535 10 c1)\<lparr>state := Established\<rparr>"
    by (rule server_open_apply)
  note rec = server_record_fields and seg = server_data_fields [of isn]
  have fl: "flush_data 10 (server_reads p isn) = Some ([], server_reads p isn)"
    by (rule flush_nothing) (simp_all add: server_reads_def server_open_fields)
  have "receive_if_data (server_data isn) 10 config_default []
      ((update_remote_window 65535 10 c1)\<lparr>state := Established\<rparr>)
      = ([ack_segment (server_reads p isn)], server_reads p isn)"
    using server_receives [of isn p] seg(4) by (simp add: receive_if_data_def c1)
  then have "on_syn_received (server_data isn) 10 config_default (server_record p isn) =
      Some (\<lparr>upd_segments = [ack_segment (server_reads p isn)], upd_accepted = True, upd_closed = False\<rparr>, server_reads p isn)"
    using fl by (simp add: on_syn_received_def rec seg ack Let_def)
  then show ?thesis by (simp add: on_segment_def rec seg)
qed

definition accepted_by :: "'p \<Rightarrow> 'p stack" where
  "accepted_by p = snd (snd (the (input p (wire_bytes (server_data isn_80)) 10 (2, server_stack p))))"

abbreviation reading :: "'p \<Rightarrow> 'p connection" where
  "reading p \<equiv> server_reads p isn_80"

lemma accepted_stack_input:
  "input p (wire_bytes (server_data isn_80)) 10 (2, server_stack p) = Some (Inr (), (2, accepted_by p))"
  "accepted_by p = sent (reading p) [ack_segment (reading p)] (push_accept 80 1 (put_conn 1 (reading p) (server_stack p)))"
proof -
  let ?c = "server_conn p" and ?d = "server_data isn_80"
  let ?t = "sent (reading p) [ack_segment (reading p)] (push_accept 80 1 (put_conn 1 (reading p) (server_stack p)))"
  note on = server_accepts [of isn_80 p, folded server_conn_eq]
  have port: "local_port ?c = 80" "remote_port ?c = 50000" "peer ?c = p" "state ?c = SynReceived"
    "local_port (reading p) = 80"
    by (simp_all add: server_conn_eq server_record_def server_reads_def server_open_fields)
  have good: "good_segment ?d" by (simp add: good_segment_def server_data_def segment_new_def)
  note inv = stack.inv_reach [OF server_stack_reach [of p]]
  have "lookup (server_stack p) (conn_key ?c) = Some 1"
    using stack_inv_conn(3) [OF inv, of 1 ?c] by simp
  then have look: "lookup (server_stack p) \<lparr>key_peer = p, key_local_port = 80, key_remote_port = 50000\<rparr> = Some 1"
    by (simp add: conn_key_def port)
  have pass: "\<not> stale_handshake_ack ?d ?c" "\<not> unexpected_syn ?d ?c"
    by (simp_all add: stale_handshake_ack_def unexpected_syn_def port server_data_fields)
  have "conn_inv config_default ?c" using stack_inv_conn(1) [OF inv, of 1 ?c] by simp
  then have "conn_inv config_default (reading p)"
    using conn_step_effect [OF _ step_segment [OF on]] by simp
  then have "sends (reading p) (ack_segment (reading p))" by (rule sends_ack [OF conn_inv_ready])
  then have "emit 1 [ack_segment (reading p)] (push_accept 80 1 (put_conn 1 (reading p) (server_stack p))) = (Inr (), ?t)"
    by (intro emit_sends [where d = "reading p"]) (simp_all add: push_accept_def)
  then have "input_existing p 1 ?d 10 (server_stack p) = Some (Inr (), ?t)"
    using pass on port(5) by (simp add: input_existing_def apply_update_def)
  then have i: "input p (wire_bytes ?d) 10 (2, server_stack p) = Some (Inr (), (2, ?t))"
    using decode_wire_bytes [OF good] look by (simp add: input_def server_data_fields)
  show "input p (wire_bytes ?d) 10 (2, server_stack p) = Some (Inr (), (2, accepted_by p))" "accepted_by p = ?t"
    using i by (simp_all add: accepted_by_def)
qed

lemma accepted_stack_reach: "stack_reach (2, accepted_by p)"
  by (rule reach_step [OF server_stack_reach do_input [OF accepted_stack_input(1)]])

lemma accepted_stack_simps [simp]:
  "get_conn cid (accepted_by p) = (if cid = 1 then Some (reading p) else None)"
  by (simp add: accepted_stack_input(2) push_accept_def)

lemma reading_queue [simp]: "recv_queue (server_reads p isn) = [1, 2, 3]"
  by (simp add: server_reads_def)

lemma accepted_stack_accept: "\<exists>s1. accept 80 (accepted_by p) = (Some 1, s1)"
  unfolding accepted_stack_input(2) by (simp add: accept_def push_accept_def)

abbreviation accepted_stack :: "nat stack" where
  "accepted_stack \<equiv> accepted_by 7"

end
