(* ===== verification/Conn_Props.thy ===== *)
theory Conn_Props
  imports Stack_Ops
begin

text \<open>
  What the entry points of a connection promise: transmission fills the window and respects it, the
  handshake, cumulative acknowledgments and fast retransmit, and the form of every segment sent.
\<close>

section \<open>A connection with data\<close>

definition example_queued :: "nat connection" where
  "example_queued = example_open\<lparr>send_queue := [7, 8, 9],
     send_progress := (send_progress example_open)\<lparr>accepted_payload_bytes := 3\<rparr>\<rparr>"

definition example_busy :: "nat connection" where
  "example_busy = example_open\<lparr>send_nxt := 1003, duplicate_acks := 2,
     unacked := [\<lparr>trk_seq = 1001, trk_flags = ACK OR PSH, trk_payload = [7, 8], sent_at_ms = 30,
       transmissions = 1\<rparr>],
     send_progress := (send_progress example_open)\<lparr>accepted_payload_bytes := 2\<rparr>\<rparr>"

lemmas example_inv_defs = conn_inv_def state_inv_def inv_defs send_ok_def reno_ok_def rtt_ok_def
  config_default_def data_seg_def trk_len_def trk_end_seq_def

lemma example_queued_inv: "conn_inv config_default example_queued"
  by (simp add: example_queued_def example_open_eq example_inv_defs)
    (simp add: u16_max_def u64_max_def u128_max_def)

lemma example_busy_inv: "conn_inv config_default example_busy"
  by (simp add: example_busy_def example_open_eq example_inv_defs)
    (simp add: u16_max_def u64_max_def u128_max_def)

section \<open>Transmission\<close>

lemma flush_loop_bounds:
  assumes "flush_loop now out c = Some r" "phase_inv Open cfg c"
  shows "\<exists>segs. fst r = out @ segs \<and> list_all (\<lambda>x. length (seg_payload x) \<le> mss c) segs \<and>
    flight (unacked (snd r)) \<le> max (flight (unacked c)) (min (remote_window c) (reno_window (reno c)))"
proof -
  let ?P = "\<lambda>out (c :: 'a connection) r. \<exists>segs. fst r = out @ segs \<and> list_all (\<lambda>x. length (seg_payload x) \<le> mss c) segs \<and>
    flight (unacked (snd r)) \<le> max (flight (unacked c)) (min (remote_window c) (reno_window (reno c)))"
  have "phase_inv Open cfg c \<longrightarrow> ?P out c r"
  proof (rule flush_loop.raw_induct [of "\<lambda>now out c r. phase_inv Open cfg c \<longrightarrow> ?P out c r", OF _ assms(1)], rule impI)
    fix f now out and c :: "'a connection" and r
    assume ih: "\<And>now out c r. f now out c = Some r \<Longrightarrow> phase_inv Open cfg c \<longrightarrow> ?P out c r"
      and r: "(let available = send_window c
        in if available = 0 \<or> send_queue c = [] then Some (out, c)
        else let count = min (min available (mss c)) (length (send_queue c));
          payload = take count (send_queue c);
          sent = send_tracked (ACK OR PSH) payload now (c\<lparr>send_queue := drop count (send_queue c)\<rparr>)
        in f now (out @ [fst sent]) (snd sent)) = Some r"
      and inv: "phase_inv Open cfg c"
    show "?P out c r"
    proof (cases "send_window c = 0 \<or> send_queue c = []")
      case True
      then show ?thesis using r by (auto simp: Let_def)
    next
      case False
      let ?n = "min (min (send_window c) (mss c)) (length (send_queue c))"
      let ?sent = "send_tracked (ACK OR PSH) (take ?n (send_queue c)) now
         (c\<lparr>send_queue := drop ?n (send_queue c)\<rparr>)"
      have "0 < ?n" using False inv by (auto simp: phase_inv_def param_inv_def)
      then have inv': "phase_inv Open cfg (snd ?sent)" using inv by (intro flush_step_inv) auto
      have "flight (unacked (snd ?sent)) = flight (unacked c) + ?n" by (simp add: trk_len_def)
      moreover have "?n \<le> send_window c" "send_window c \<noteq> 0" using False by simp_all
      ultimately have fl: "flight (unacked (snd ?sent)) \<le> min (remote_window c) (reno_window (reno c))"
        unfolding send_window_flight [OF inv] by linarith
      have "f now (out @ [fst ?sent]) (snd ?sent) = Some r" using r False by (simp add: Let_def)
      have rw: "mss (snd ?sent) = mss c" "remote_window (snd ?sent) = remote_window c"
        "reno (snd ?sent) = reno c" by simp_all
      from \<open>f now _ _ = _\<close> ih inv' have "?P (out @ [fst ?sent]) (snd ?sent) r" by blast
      then obtain segs where "fst r = (out @ [fst ?sent]) @ segs"
        "list_all (\<lambda>x. length (seg_payload x) \<le> mss c) segs"
        "flight (unacked (snd r)) \<le> max (flight (unacked (snd ?sent))) (min (remote_window c) (reno_window (reno c)))"
        unfolding rw by blast
      moreover have "length (seg_payload (fst ?sent)) \<le> mss c"
        by (simp add: send_tracked_def Let_def segment_for_def)
      moreover have "max (flight (unacked (snd ?sent))) (min (remote_window c) (reno_window (reno c))) =
          min (remote_window c) (reno_window (reno c))"
        using fl by (rule max_absorb2)
      ultimately show ?thesis by (intro exI [of _ "fst ?sent # segs"]) (simp add: max.coboundedI2)
    qed
  qed
  then show ?thesis using assms(2) by blast
qed

text \<open>Data segments in a row from one sequence number to another, each continuing where the last ends.\<close>

fun in_row :: "u32 \<Rightarrow> segment list \<Rightarrow> u32 \<Rightarrow> bool" where
  "in_row a [] b \<longleftrightarrow> a = b"
| "in_row a (s # ss) b \<longleftrightarrow> seg_seq s = a \<and> seg_flags s = ACK OR PSH \<and> seg_payload s \<noteq> [] \<and>
     in_row (a + of_nat (length (seg_payload s))) ss b"

abbreviation payloads :: "segment list \<Rightarrow> bytes" where
  "payloads segs \<equiv> concat (map seg_payload segs)"

text \<open>How the flight remembers a segment that was sent.\<close>

definition sent_as :: "u32 \<Rightarrow> tracked_segment \<Rightarrow> segment \<Rightarrow> bool" where
  "sent_as ack t s \<longleftrightarrow> trk_seq t = seg_seq s \<and> trk_payload t = seg_payload s \<and> trk_flags t = ACK OR PSH \<and>
     seg_ack s = Some ack"

lemma flush_loop_row:
  assumes "phase_inv Open cfg c"
  shows "\<exists>segs c'. flush_loop now out c = Some (out @ segs, c') \<and> in_row (send_nxt c) segs (send_nxt c') \<and>
    payloads segs @ send_queue c' = send_queue c \<and> length (payloads segs) \<le> send_window c \<and>
    (send_queue c' = [] \<or> length (payloads segs) = send_window c) \<and>
    (\<exists>ts. unacked c' = unacked c @ ts \<and> list_all2 (sent_as (recv_nxt c)) ts segs) \<and> recv_nxt c' = recv_nxt c"
  using assms
proof (induction "length (send_queue c)" arbitrary: c out rule: less_induct)
  case less
  show ?case
  proof (cases "send_window c = 0 \<or> send_queue c = []")
    case True
    then show ?thesis by (intro exI [of _ "[]"] exI [of _ c]) (auto simp: flush_loop_unfold [of now out c])
  next
    case False
    define n where "n = min (min (send_window c) (mss c)) (length (send_queue c))"
    let ?sent = "send_tracked (ACK OR PSH) (take n (send_queue c)) now (c\<lparr>send_queue := drop n (send_queue c)\<rparr>)"
    have n: "0 < n" "n \<le> send_window c" "n \<le> length (send_queue c)"
      using False less.prems by (auto simp: n_def phase_inv_def param_inv_def)
    have inv: "phase_inv Open cfg (snd ?sent)" using less.prems n by (rule flush_step_inv)
    have dec: "length (send_queue (snd ?sent)) < length (send_queue c)" using n by simp
    from less.hyps [OF dec inv, of "out @ [fst ?sent]"]
    obtain segs c' ts where ih: "flush_loop now (out @ [fst ?sent]) (snd ?sent) = Some ((out @ [fst ?sent]) @ segs, c')"
      "in_row (send_nxt (snd ?sent)) segs (send_nxt c')" "payloads segs @ send_queue c' = send_queue (snd ?sent)"
      "length (payloads segs) \<le> send_window (snd ?sent)" "unacked c' = unacked (snd ?sent) @ ts"
      "list_all2 (sent_as (recv_nxt (snd ?sent))) ts segs" "recv_nxt c' = recv_nxt (snd ?sent)"
      "send_queue c' = [] \<or> length (payloads segs) = send_window (snd ?sent)" by blast
    have len: "length (take n (send_queue c)) = n" using n(3) by simp
    have s: "seg_payload (fst ?sent) = take n (send_queue c)" "seg_seq (fst ?sent) = send_nxt c"
      "seg_flags (fst ?sent) = ACK OR PSH" "send_queue (snd ?sent) = drop n (send_queue c)"
      "send_nxt (snd ?sent) = send_nxt c + of_nat n"
      using n(3) by (simp_all add: send_tracked_def Let_def segment_for_def trk_len_def trk_end_seq_def)
    obtain t where t: "unacked (snd ?sent) = unacked c @ [t]" "sent_as (recv_nxt c) t (fst ?sent)"
      by (simp add: sent_as_def send_tracked_def Let_def segment_for_def)
    have track: "\<exists>ts. unacked c' = unacked c @ ts \<and> list_all2 (sent_as (recv_nxt c)) ts (fst ?sent # segs)"
      using ih(5,6) t by (intro exI [of _ "t # ts"]) simp
    have "flight (unacked (snd ?sent)) = flight (unacked c) + n" "remote_window (snd ?sent) = remote_window c"
      "reno (snd ?sent) = reno c" using n(3) by (simp_all add: trk_len_def)
    then have w: "send_window (snd ?sent) = send_window c - n"
      using send_window_flight [OF inv] send_window_flight [OF less.prems] by simp
    have "take n (send_queue c) \<noteq> []" using n by auto
    moreover have "in_row (send_nxt c + of_nat n) segs (send_nxt c')" using ih(2) unfolding s(5) .
    ultimately have "in_row (send_nxt c) (fst ?sent # segs) (send_nxt c')"
      by (simp only: in_row.simps s(1-3) len simp_thms)
    moreover have "payloads (fst ?sent # segs) @ send_queue c' = send_queue c"
      using ih(3) s by simp
    moreover have "length (payloads (fst ?sent # segs)) \<le> send_window c"
      using ih(4) n(2,3) unfolding w by (simp add: s(1))
    moreover have "send_queue c' = [] \<or> length (payloads (fst ?sent # segs)) = send_window c"
      using ih(8) n(2,3) unfolding w by (auto simp: s(1))
    moreover have "recv_nxt c' = recv_nxt c" using ih(7) by simp
    ultimately show ?thesis
      using ih(1) False track by (intro exI [of _ "fst ?sent # segs"] exI [of _ c'])
        (simp add: flush_loop_unfold [of now out c] Let_def n_def [symmetric])
  qed
qed

lemma row_flight: "list_all2 (sent_as r) ts segs \<Longrightarrow> flight ts = length (payloads segs)"
  by (induction rule: list_all2_induct) (simp_all add: sent_as_def trk_len_def flight_def)

text \<open>
  C25: Transmission terminates, fills the window and respects it: in a sending state \<open>flush_data\<close>
  returns data segments that follow each other from the next sequence number without a gap, carry
  exactly the front of the queue, each at most the negotiated size, and leave the queue empty or no
  window; never is more in flight than the smaller of the peer's window and the congestion window
  (unless there was already). Exactly when a close was requested, everything queued went out and the
  window has room for one more, a last segment is the FIN, numbered after the data, and the state
  moves on.
\<close>

theorem flush_fills_window:
  assumes inv: "conn_inv cfg c" and st: "state c = Established \<or> state c = CloseWait"
  shows "\<exists>segs fin e c'. flush_data now c = Some (segs @ fin, c') \<and>
    in_row (send_nxt c) segs e \<and> payloads segs @ send_queue c' = send_queue c \<and>
    list_all (\<lambda>x. length (seg_payload x) \<le> mss c) segs \<and>
    (send_queue c' = [] \<or> send_window c' = 0) \<and> pending c' = pending c \<and>
    flight (unacked c') \<le> max (flight (unacked c)) (min (remote_window c) (reno_window (reno c))) \<and>
    (if close_requested c \<and> flight (unacked c) + length (send_queue c) < min (remote_window c) (reno_window (reno c))
     then \<exists>x. fin = [x] \<and> seg_flags x = FIN OR ACK \<and> seg_seq x = e \<and> seg_payload x = [] \<and> send_nxt c' = e + 1 \<and>
       send_queue c' = [] \<and> state c' = (if state c = Established then FinWait1 else LastAck)
     else fin = [] \<and> send_nxt c' = e \<and> state c' = state c)"
proof -
  have ph: "phase_inv Open cfg c" using inv st by (auto simp: conn_inv_def)
  obtain out c1 where l: "flush_loop now [] c = Some (out, c1)" "phase_inv Open cfg c1" "flush_frame c c1"
    "pending c1 = pending c" "close_requested c1 = close_requested c" "state c1 = state c"
    "send_window c1 = 0 \<or> send_queue c1 = []"
    using flush_loop_effect [OF ph, of now "[]"] by auto
  have b: "list_all (\<lambda>x. length (seg_payload x) \<le> mss c) out"
    "flight (unacked c1) \<le> max (flight (unacked c)) (min (remote_window c) (reno_window (reno c)))"
    using flush_loop_bounds [OF l(1) ph] by auto
  obtain ts where row: "in_row (send_nxt c) out (send_nxt c1)" "payloads out @ send_queue c1 = send_queue c"
    "unacked c1 = unacked c @ ts" "list_all2 (sent_as (recv_nxt c)) ts out"
    "send_queue c1 = [] \<or> length (payloads out) = send_window c"
    using flush_loop_row [OF ph, of now "[]"] l(1) by auto
  let ?w = "min (remote_window c) (reno_window (reno c))"
  have len: "length (payloads out) + length (send_queue c1) = length (send_queue c)"
    using arg_cong [OF row(2), of length] by simp
  have fl: "flight (unacked c1) = flight (unacked c) + length (payloads out)"
    using row_flight [OF row(4)] row(3) by (simp add: flight_def)
  have win: "send_window c1 = ?w - flight (unacked c1)" "send_window c = ?w - flight (unacked c)"
    using send_window_flight [OF l(2)] send_window_flight [OF ph] l(3) by (simp_all add: flush_frame_def)
  have room: "send_queue c1 = [] \<and> 0 < send_window c1 \<longleftrightarrow> flight (unacked c) + length (send_queue c) < ?w"
    using len fl win row(5) by (cases "send_queue c1 = []") auto
  have f: "flush_data now c = Some (flush_fin now out c1)"
    using st l(1) by (auto simp: flush_data_def)
  show ?thesis
  proof (cases "close_requested c \<and> flight (unacked c) + length (send_queue c) < ?w")
    case False
    then have "flush_fin now out c1 = (out @ [], c1)" using room l(5) by (auto simp: flush_fin_def)
    then show ?thesis unfolding if_not_P [OF False] using f l(4,6,7) b row(1,2) by auto
  next
    case True
    then have now_: "close_requested c1" "send_queue c1 = []" "0 < send_window c1" using room l(5) by simp_all
    have "flight (unacked c1) + 1 \<le> ?w" using now_(3) win(1) by simp
    then have "flight (unacked c1) + 1 \<le> max (flight (unacked c)) ?w" by (rule max.coboundedI2)
    moreover obtain x c2 where fin: "flush_fin now out c1 = (out @ [x], c2)" "seg_payload x = []" "seg_flags x = FIN OR ACK"
      "seg_seq x = send_nxt c1" "send_nxt c2 = send_nxt c1 + 1" "state c2 = (if state c1 = Established then FinWait1 else LastAck)"
      "pending c2 = pending c1" "send_queue c2 = []" "flight (unacked c2) = flight (unacked c1) + 1"
      using now_ by (simp add: flush_fin_def Let_def send_tracked_def segment_for_def pending_def trk_len_def trk_end_seq_def)
    ultimately show ?thesis unfolding if_P [OF True]
      using f l(4,6) b(1) row(1,2) now_(2)
      by (rule_tac exI [of _ out], rule_tac exI [of _ "[x]"], rule_tac exI [of _ "send_nxt c1"], rule_tac exI [of _ c2]) simp
  qed
qed

theorem flush_fills_window_witness:
  "\<exists>segs fin e c'. flush_data 40 example_queued = Some (segs @ fin, c') \<and>
    in_row (send_nxt example_queued) segs e \<and> payloads segs @ send_queue c' = send_queue example_queued \<and>
    (send_queue c' = [] \<or> send_window c' = 0) \<and>
    flight (unacked c') \<le> max (flight (unacked example_queued))
      (min (remote_window example_queued) (reno_window (reno example_queued)))"
proof -
  have "state example_queued = Established \<or> state example_queued = CloseWait"
    by (simp add: example_queued_def example_open_eq)
  from flush_fills_window [OF example_queued_inv this, of 40] show ?thesis by blast
qed

section \<open>Acknowledgments\<close>

lemma open_flight: "phase_inv Open cfg c \<Longrightarrow> flight (unacked c) = length (queued_bytes (unacked c))"
  by (rule queued_units(1)) (simp add: phase_inv_def send_ok_def)

text \<open>How much of the flight an acknowledgment number covers.\<close>

definition covered :: "u32 \<Rightarrow> 'p connection \<Rightarrow> nat" where
  "covered ack c =
     (if distance (send_una c) ack \<le> flight (unacked c) then distance (send_una c) ack else 0)"

text \<open>
  C26: Acknowledgments are cumulative and exact: on an open connection an acknowledgment number
  inside the flight releases exactly the bytes before it, counts exactly those, and moves the left
  edge there, also when it falls into the middle of a segment; any other number, old, duplicate or
  beyond what was sent, releases and counts nothing.
\<close>

theorem ack_releases_exactly:
  assumes inv: "conn_inv cfg c" and st: "phase (state c) = Open"
  shows "\<exists>o1 c'. apply_ack ack now d c = Some (o1, c') \<and> pending c' = drop (covered ack c) (pending c) \<and>
    acked_payload_bytes (send_progress c') = acked_payload_bytes (send_progress c) + covered ack c \<and>
    send_una c' = seq_at (send_una c) (covered ack c) \<and> flight (unacked c') + covered ack c = flight (unacked c)"
proof -
  have ph: "phase_inv Open cfg c" using inv st by (simp add: conn_inv_def)
  show ?thesis
  proof (cases rule: apply_ack_cases [OF ph, of ack now d])
    case 1
    then show ?thesis by (simp add: covered_def)
  next
    case 2
    then show ?thesis by (simp add: covered_def pending_def)
  next
    case 3
    note e = apply_duplicate_ack_effect [OF ph, of now]
    have "covered ack c = 0" using 3(1) by (simp add: covered_def)
    then show ?thesis
      using 3(4) e(3,5) same_segments_flight [OF e(6)]
      by (cases "apply_duplicate_ack now c") (simp add: acks_bytes_def)
  next
    case (4 k)
    obtain o1 c' m where a: "apply_new_ack ack now c = Some (o1, c')" "phase_inv Open cfg c'"
      "send_una c' = ack" "flight (unacked c') + k = flight (unacked c)" "acks_bytes m c c'" "ack_frame c c'"
      using apply_new_ack_effect [OF ph 4(2,3), of now] 4(4) by auto
    have "queued_bytes (unacked c') @ send_queue c = drop m (queued_bytes (unacked c)) @ send_queue c"
      using a(5,6) by (auto simp: acks_bytes_def ack_frame_def pending_def)
    then have "length (queued_bytes (unacked c')) = length (queued_bytes (unacked c)) - m" by simp
    moreover have "m \<le> length (queued_bytes (unacked c))" using a(5) by (simp add: acks_bytes_def)
    ultimately have "m = k" using a(4) open_flight [OF ph] open_flight [OF a(2)] by linarith
    moreover have "covered ack c = k" using 4 by (simp add: covered_def)
    ultimately show ?thesis using a 4(4,5) by (simp add: acks_bytes_def)
  qed
qed

text \<open>An acknowledgment of the first of the two bytes in flight.\<close>

theorem ack_releases_exactly_witness:
  "\<exists>o1 c'. apply_ack 1002 50 False example_busy = Some (o1, c') \<and> pending c' = drop 1 (pending example_busy) \<and>
    acked_payload_bytes (send_progress c') = acked_payload_bytes (send_progress example_busy) + 1 \<and>
    send_una c' = seq_at (send_una example_busy) 1 \<and> flight (unacked c') + 1 = flight (unacked example_busy)"
proof -
  have st: "phase (state example_busy) = Open" by (simp add: example_busy_def example_open_eq)
  have "covered 1002 example_busy = 1"
    by (simp add: covered_def example_busy_def example_open_eq distance_def trk_len_def)
  with ack_releases_exactly [OF example_busy_inv st, of 1002 50 False] show ?thesis by simp
qed

section \<open>Fast retransmit\<close>

lemma duplicate_not_data: "is_duplicate_ack_candidate s una w \<Longrightarrow> \<not> has_stream_data s"
  by (simp add: is_duplicate_ack_candidate_def has_stream_data_def)

text \<open>
  C27: The third duplicate acknowledgment repairs a loss at once: the oldest segment is sent again
  with the same sequence number and payload before anything else, the threshold is set to half of
  the flight, and the connection is in fast recovery, without waiting for the timer.
\<close>

theorem third_duplicate_retransmits:
  assumes inv: "conn_inv cfg c" and st: "phase (state c) \<noteq> Opening" and rst: "\<not> contains (seg_flags s) RST"
    and dup: "is_duplicate_ack_candidate s (send_una c) (remote_window c)" "duplicate_acks c = 2"
    and un: "unacked c = t # ts" "transmissions t < max_retransmissions cfg"
    and rec: "\<not> in_fast_recovery (reno c)"
  shows "\<exists>u c' x rest. on_segment s now cfg c = Some (u, c') \<and> upd_segments u = x # rest \<and>
    seg_seq x = send_una c \<and> seg_payload x = trk_payload t \<and> seg_flags x = trk_flags t \<and>
    ssthresh (reno c') = max (flight (unacked c) div 2) (2 * mss c) \<and> in_fast_recovery (reno c')"
proof -
  have pinv: "phase_inv (phase (state c)) cfg c" using inv by (simp add: conn_inv_def)
  have ack: "seg_ack s = Some (send_una c)" using dup(1) by (simp add: is_duplicate_ack_candidate_def)
  have par: "max_transmissions c = max_retransmissions cfg" "reno_mss (reno c) = mss c" "reno_ok (reno c)"
    using pinv by (simp_all add: phase_inv_def param_inv_def)
  have dist: "distance (send_una c) (send_nxt c) = flight (unacked c)"
    using pinv distance_flight unfolding phase_inv_def by blast
  have seq: "trk_seq t = send_una c" using pinv un(1) by (simp add: phase_inv_def send_ok_def)
  have "reno_on_duplicate_ack (reno c) = reno c" using rec by (simp add: reno_on_duplicate_ack_def)
  define r where "r = reno_on_fast_loss (flight (unacked c)) (reno c)"
  have r: "ssthresh r = max (flight (unacked c) div 2) (2 * mss c)" "in_fast_recovery r"
  proof -
    have "sat_mul64 (mss c) 2 = 2 * mss c"
      using par(2,3) by (simp add: sat_mul64_def reno_ok_def u16_max_def u64_max_def)
    then show "ssthresh r = max (flight (unacked c) div 2) (2 * mss c)"
      using reno_ssthresh_loss(1) [OF rec] par(2) by (simp add: r_def)
    show "in_fast_recovery r" using rec by (simp add: r_def reno_on_fast_loss_def Let_def)
  qed
  let ?c2 = "c\<lparr>duplicate_acks := 3, reno := r\<rparr>"
  obtain x where x: "fst (retransmit_oldest now False ?c2) = Some x" "seg_seq x = send_una c"
    "seg_payload x = trk_payload t" "seg_flags x = trk_flags t"
    using un par(1) seq by (auto simp: retransmit_oldest_def Let_def)
  define c3 where "c3 = snd (retransmit_oldest now False ?c2)"
  have "apply_duplicate_ack now c = (\<lparr>ack_fin_acked = False, ack_retransmit = Some x\<rparr>, c3)"
    using dup(2) dist x(1) \<open>reno_on_duplicate_ack (reno c) = reno c\<close>
    by (simp add: apply_duplicate_ack_def Let_def sat_add8_def u8_max_def r_def c3_def)
  moreover have "apply_ack (send_una c) now True c = Some (apply_duplicate_ack now c)"
    by (cases rule: apply_ack_cases [OF pinv, of "send_una c" now True]) (use un(1) in simp_all)
  ultimately have a: "apply_ack (send_una c) now True c =
      Some (\<lparr>ack_fin_acked = False, ack_retransmit = Some x\<rparr>, c3)" by simp
  obtain c4 where p: "process_ack s (send_una c) now cfg c = Some ((False, [x]), c4)" "reno c4 = r"
  proof -
    let ?w = "if in_closed_interval (send_una c) (send_una c3) (send_nxt c3)
      then update_remote_window (seg_window s) now c3 else c3"
    have "process_ack s (send_una c) now cfg c = Some ((False, [x]), ?w)"
      using dup(1) a by (simp add: process_ack_def Let_def c3_def)
    moreover have "reno ?w = r" by (simp add: c3_def)
    ultimately show thesis by (rule that)
  qed
  have rd: "receive_if_data s now cfg [x] c4 = ([x], c4)"
    using duplicate_not_data [OF dup(1)] by (simp add: receive_if_data_def)
  have "on_segment s now cfg c = on_synchronized s now cfg c"
    using st rst by (auto simp: on_segment_def)
  moreover have "conn_inv cfg c4"
    using process_ack_effect [OF inv st, of s "send_una c" now] p(1) by auto
  then obtain out c5 where f: "flush_data now c4 = Some (out, c5)" "flush_frame c4 c5"
    using flush_data_inv [of cfg c4 now] by blast
  ultimately have "on_segment s now cfg c = Some (update_open ([x] @ out), c5)"
    using ack p(1) rd by (simp add: on_synchronized_def)
  moreover have "reno c5 = r" using f(2) p(2) by (simp add: flush_frame_def)
  ultimately show ?thesis using x(2-4) r by (auto simp: update_open_def)
qed

definition example_duplicate :: segment where
  "example_duplicate = (segment_new 80 49152 5001)\<lparr>seg_flags := ACK, seg_ack := Some 1001, seg_window := 4096\<rparr>"

theorem third_duplicate_retransmits_witness:
  "\<exists>u c' x rest. on_segment example_duplicate 60 config_default example_busy = Some (u, c') \<and>
    upd_segments u = x # rest \<and> seg_seq x = send_una example_busy \<and> seg_payload x = [7, 8] \<and>
    seg_flags x = ACK OR PSH \<and>
    ssthresh (reno c') = max (flight (unacked example_busy) div 2) (2 * mss example_busy) \<and>
    in_fast_recovery (reno c')"
proof -
  let ?t = "\<lparr>trk_seq = 1001, trk_flags = ACK OR PSH, trk_payload = [7, 8], sent_at_ms = 30, transmissions = 1\<rparr>"
  have "unacked example_busy = [?t]" by (simp add: example_busy_def)
  moreover have "phase (state example_busy) \<noteq> Opening" "duplicate_acks example_busy = 2"
    "\<not> in_fast_recovery (reno example_busy)" "transmissions ?t < max_retransmissions config_default"
    by (simp_all add: example_busy_def example_open_eq config_default_def)
  moreover have "\<not> contains (seg_flags example_duplicate) RST"
    "is_duplicate_ack_candidate example_duplicate (send_una example_busy) (remote_window example_busy)"
    by (simp_all add: example_duplicate_def is_duplicate_ack_candidate_def segment_new_def
        example_busy_def example_open_eq)
  ultimately show ?thesis
    using third_duplicate_retransmits [OF example_busy_inv, of example_duplicate ?t "[]" 60] by simp
qed

section \<open>The handshake\<close>

lemma flight_nothing: "queue_ok Open ts \<Longrightarrow> flight ts = 0 \<Longrightarrow> ts = []"
  by (cases ts) (auto simp: trk_len_kinds data_seg_def)

lemma opening_ack:
  assumes ph: "phase_inv Opening cfg c"
  shows "\<exists>o1 c'. apply_ack (send_nxt c) now False c = Some (o1, c') \<and> send_una c' = send_nxt c \<and>
    unacked c' = [] \<and> ack_frame c c' \<and> ack_retransmit o1 = None"
proof -
  obtain t where t: "unacked c = [t]" "syn_seg t" using ph by (auto simp: phase_inv_def send_ok_def)
  have dist: "distance (send_una c) (send_nxt c) = 1"
    using ph t distance_flight [of Opening "send_una c" "send_nxt c"]
    by (auto simp: phase_inv_def trk_len_kinds)
  show ?thesis
  proof (cases rule: apply_ack_cases [OF ph, of "send_nxt c" now False])
    case (4 k)
    obtain o1 c' where a: "apply_new_ack (send_nxt c) now c = Some (o1, c')"
      "phase_inv (ack_phase Opening (ack_fin_acked o1)) cfg c'" "ack_frame c c'" "send_una c' = send_nxt c"
      "ack_retransmit o1 = None" "flight (unacked c') + k = flight (unacked c)"
      using apply_new_ack_effect [OF ph 4(2,3), of now] 4(4) by metis
    have "flight (unacked c') = 0" using a(6) 4(1) dist t by (simp add: trk_len_kinds)
    then have "unacked c' = []"
      using a(2) by (intro flight_nothing) (simp_all add: phase_inv_def send_ok_def)
    then show ?thesis using a 4(5) by simp
  qed (use dist t in \<open>auto simp: trk_len_kinds\<close>)
qed



text \<open>
  C29: The passive open: in SYN-RECEIVED a repeated SYN is answered with the SYN-ACK again as long as
  the retry budget lasts, the acknowledgment of exactly the SYN-ACK opens the connection and reports
  it for \<open>accept\<close>, with the data of the same segment received, and every other segment without RST
  changes nothing and sends nothing.
\<close>

theorem server_handshake:
  assumes inv: "conn_inv cfg c" and st: "state c = SynReceived" and rst: "\<not> contains (seg_flags s) RST"
  shows "\<exists>u c'. on_segment s now cfg c = Some (u, c') \<and> \<not> upd_closed u \<and>
    (if contains (seg_flags s) SYN \<and> \<not> contains (seg_flags s) ACK \<and> seg_seq s + 1 = recv_nxt c
     then \<not> upd_accepted u \<and> state c' = SynReceived \<and>
       (if transmissions (hd (unacked c)) < max_retransmissions cfg
        then \<exists>x. upd_segments u = [x] \<and> seg_seq x = send_una c \<and> seg_flags x = trk_flags (hd (unacked c))
        else upd_segments u = [])
     else if seg_ack s = Some (send_nxt c) then upd_accepted u \<and> Established \<le> state c' \<and> send_una c' = send_nxt c
     else c' = c \<and> u = update_open [])"
proof -
  have ph: "phase_inv Opening cfg c" using inv st by (simp add: conn_inv_def)
  obtain t where t: "unacked c = [t]" using ph by (auto simp: phase_inv_def send_ok_def)
  have seg: "on_segment s now cfg c = on_syn_received s now cfg c" using st rst by (simp add: on_segment_def)
  have par: "max_transmissions c = max_retransmissions cfg" "trk_seq t = send_una c"
    using ph t by (simp_all add: phase_inv_def param_inv_def send_ok_def)
  consider (again) "contains (seg_flags s) SYN \<and> \<not> contains (seg_flags s) ACK \<and> seg_seq s + 1 = recv_nxt c"
    | (opened) "\<not> (contains (seg_flags s) SYN \<and> \<not> contains (seg_flags s) ACK \<and> seg_seq s + 1 = recv_nxt c)"
      "seg_ack s = Some (send_nxt c)"
    | (other) "\<not> (contains (seg_flags s) SYN \<and> \<not> contains (seg_flags s) ACK \<and> seg_seq s + 1 = recv_nxt c)"
      "seg_ack s \<noteq> Some (send_nxt c)" by blast
  then show ?thesis
  proof cases
    case again
    then show ?thesis
      using t par st seg
      by (auto simp: on_syn_received_def Let_def update_open_def retransmit_oldest_def)
  next
    case other
    then have "on_segment s now cfg c = Some (update_open [], c)"
      unfolding seg on_syn_received_def if_not_P [OF other(1)] by simp
    moreover have "\<not> upd_closed (update_open [])" by (simp add: update_open_def)
    ultimately show ?thesis unfolding if_not_P [OF other(1)] if_not_P [OF other(2)] by blast
  next
    case opened
    obtain o1 c1 where a: "apply_ack (send_nxt c) now False c = Some (o1, c1)" "send_una c1 = send_nxt c"
      using opening_ack [OF ph] by blast
    obtain o1' c1' n where b: "apply_ack (send_nxt c) now False c = Some (o1', c1')" "phase_inv Open cfg c1'"
      using apply_ack_effect [OF ph, of "send_nxt c" now False] by auto
    let ?c2 = "(update_remote_window (seg_window s) now c1)\<lparr>state := Established\<rparr>"
    let ?r = "receive_if_data s now cfg [] ?c2"
    have i2: "conn_inv cfg ?c2"
      using update_remote_window_inv [OF b(2)] a(1) b(1)
      by (simp add: conn_inv_def state_inv_def phase_inv_state)
    have fr: "recv_frame ?c2 (snd ?r)" by (rule receive_if_data_frame)
    obtain out c3 where f: "flush_data now (snd ?r) = Some (out, c3)" "fin_sent (state (snd ?r)) (state c3)"
      "flush_frame (snd ?r) c3"
      using flush_data_inv [OF recv_frame_inv(1) [OF i2 fr receive_if_data_inv [OF i2]], of now] by blast
    have "tcp_path Established (state c3)"
      using recv_frameD(20) [OF fr] remote_fin_path fin_sent_path [OF f(2)] by fastforce
    then have "Established \<le> state c3" by (rule tcp_path_rank)
    moreover have "send_una c3 = send_nxt c"
      using f(3) recv_frameD [OF fr] a(2) by (simp add: flush_frame_def)
    moreover have "on_segment s now cfg c =
        Some (\<lparr>upd_segments = fst ?r @ out, upd_accepted = True, upd_closed = False\<rparr>, c3)"
      unfolding seg on_syn_received_def if_not_P [OF opened(1)] using opened(2) a(1) f(1) by (simp add: Let_def)
    ultimately show ?thesis
      unfolding if_not_P [OF opened(1)] using opened(2) by (intro exI conjI) auto
  qed
qed

definition example_server :: "nat connection" where
  "example_server = fst (fst (the (conn_server 7 ((segment_new 50000 80 7000)\<lparr>seg_flags := SYN\<rparr>) 100 0 config_default 1)))"

lemma example_server_start: "conn_start config_default example_server"
  "state example_server = SynReceived" "send_nxt example_server = 101"
proof -
  let ?syn = "(segment_new 50000 80 7000)\<lparr>seg_flags := SYN\<rparr>"
  obtain c x where c: "conn_server (7 :: nat) ?syn 100 0 config_default 1 = Some ((c, [x]), 2)"
    "state c = SynReceived" "send_nxt c = 101"
    by (simp add: eval_defs)
  have "seg_dst_port ?syn \<noteq> 0" "seg_src_port ?syn \<noteq> 0" by (simp_all add: segment_new_def)
  with c show "conn_start config_default example_server" "state example_server = SynReceived"
    "send_nxt example_server = 101"
    using start_server [OF valid_setup_default _ _ c(1)] by (simp_all add: example_server_def)
qed

theorem server_handshake_witness:
  "\<exists>u c'. on_segment ((segment_new 50000 80 7001)\<lparr>seg_flags := ACK, seg_ack := Some 101\<rparr>) 10 config_default
      example_server = Some (u, c') \<and> upd_accepted u \<and> Established \<le> state c'"
proof -
  let ?s = "(segment_new 50000 80 7001)\<lparr>seg_flags := ACK, seg_ack := Some 101\<rparr>"
  have "\<not> contains (seg_flags ?s) RST" by simp
  from server_handshake [OF conn_start_inv [OF example_server_start(1)] example_server_start(2) this, of 10]
  show ?thesis by (auto simp: example_server_start)
qed

section \<open>The form of what is sent\<close>

definition transmittable :: "'p connection \<Rightarrow> segment list \<Rightarrow> bool" where
  "transmittable c segs \<longleftrightarrow> list_all (\<lambda>x. decode (wire_bytes x) = Inr x \<and> encode x = Inr (wire_bytes x) \<and>
     seg_src_port x = local_port c \<and> seg_dst_port x = remote_port c) segs"

lemma talks_transmittable: "talks c segs c' \<Longrightarrow> transmittable c segs"
  by (simp add: transmittable_def list_all_iff talks_def sends_def encode_good decode_wire_bytes)

text \<open>
  C37: Every segment a connection hands to the network is well formed: whatever a connection sends in
  response to a segment, a poll, a write, a close or a read, its reset and its acknowledgment, and the
  SYN or SYN-ACK a new connection starts with, can be encoded, decodes to itself on the other side,
  and carries the ports of the connection, so that encoding never fails in the stack.
\<close>

theorem segments_well_formed:
  assumes inv: "conn_inv cfg c" and conf: "valid_setup cfg" "token < u64_max"
    and ports: "lport \<noteq> 0" "rport \<noteq> 0" "good_segment syn"
  shows "(\<exists>u c'. on_segment s now cfg c = Some (u, c') \<and> transmittable c (upd_segments u)) \<and>
    (\<exists>u c'. conn_poll now cfg c = Some (u, c') \<and> transmittable c (upd_segments u)) \<and>
    (\<exists>u c'. conn_close now c = Some (u, c') \<and> transmittable c (upd_segments u)) \<and>
    (\<forall>k segs c'. conn_write bs now cfg c = Some (Inr (k, segs), c') \<longrightarrow> transmittable c segs) \<and>
    transmittable c (snd (fst (conn_read m c))) \<and> transmittable c [reset_segment c, ack_segment c] \<and>
    (\<exists>d x. conn_client p lport rport isn now cfg token = Some ((d, [x]), token + 1) \<and> transmittable d [x] \<and>
      local_port d = lport \<and> remote_port d = rport) \<and>
    (\<exists>d x. conn_server p syn isn now cfg token = Some ((d, [x]), token + 1) \<and> transmittable d [x] \<and>
      local_port d = seg_dst_port syn \<and> remote_port d = seg_src_port syn)"
proof -
  note ready = conn_inv_ready [OF inv]
  have one: "sends d x \<Longrightarrow> transmittable d [x]" for d :: "'c connection" and x
    by (simp add: transmittable_def sends_def encode_good decode_wire_bytes)
  have new: "\<exists>d x. conn_client p lport rport isn now cfg token = Some ((d, [x]), token + 1) \<and> transmittable d [x] \<and>
      local_port d = lport \<and> remote_port d = rport"
    "\<exists>d x. conn_server p syn isn now cfg token = Some ((d, [x]), token + 1) \<and> transmittable d [x] \<and>
      local_port d = seg_dst_port syn \<and> remote_port d = seg_src_port syn"
    using conn_created [OF conf(1) ports(1,2) conf(2), of p isn now] conn_accepted [OF conf(1) ports(3) conf(2), of p isn now]
      one by (fastforce simp: conn_key_def)+
  have "transmittable c [reset_segment c, ack_segment c]"
    using ready by (simp add: transmittable_def reset_segment_def ack_segment_def ready_def
        build_segment_good encode_good decode_wire_bytes)
  moreover have "\<forall>k segs c'. conn_write bs now cfg c = Some (Inr (k, segs), c') \<longrightarrow> transmittable c segs"
    using talks_transmittable [OF talks_conn_write [OF ready]] by blast
  ultimately show ?thesis
    using on_segment_effect [OF inv, of s now] conn_poll_effect [OF inv, of now] conn_close_effect [OF inv, of now]
      talks_transmittable [OF talks_on_segment [OF ready]] talks_transmittable [OF talks_conn_poll [OF ready]]
      talks_transmittable [OF talks_conn_close [OF ready]] talks_transmittable [OF talks_conn_read [OF ready]] new
    by (intro conjI) blast+
qed

theorem segments_well_formed_witness:
  "(\<exists>u c'. on_segment example_duplicate 60 config_default example_busy = Some (u, c') \<and>
      transmittable example_busy (upd_segments u)) \<and>
    (\<exists>u c'. conn_poll 60 config_default example_busy = Some (u, c') \<and> transmittable example_busy (upd_segments u)) \<and>
    (\<exists>u c'. conn_close 60 example_busy = Some (u, c') \<and> transmittable example_busy (upd_segments u)) \<and>
    transmittable example_busy (snd (fst (conn_read 10 example_busy))) \<and>
    transmittable example_busy [reset_segment example_busy, ack_segment example_busy] \<and>
    (\<exists>(d :: nat connection) x. conn_client 7 50000 80 7000 60 config_default 1 = Some ((d, [x]), 2) \<and> transmittable d [x])"
proof -
  have syn: "good_segment ((segment_new 50000 80 7000)\<lparr>seg_flags := SYN\<rparr>)"
    by (simp add: good_segment_def segment_new_def)
  have "(1 :: nat) < u64_max" by (simp add: u64_max_def)
  note w = segments_well_formed [OF example_busy_inv valid_setup_default this, of 50000 80, OF _ _ syn,
      of example_duplicate 60 "[1]" 10 "7 :: nat" 7000]
  show ?thesis using w unfolding one_add_one by auto
qed

end
