(* ===== verification/Transfer_Props.thy ===== *)
theory Transfer_Props
  imports Conversation_Run Stack_Run Conn_Props
begin

text \<open>
  Progress over a network that delivers: what a write sends is a row of segments without a gap, and
  a receiver in step takes the whole row, segment by segment, and acknowledges all of it.
\<close>

section \<open>The row a write sends\<close>

text \<open>A connection that does not close sends nothing but the row.\<close>

lemma write_row:
  assumes inv: "conn_inv cfg c" and w: "conn_write bs now cfg c = Some (Inr (k, segs), c')"
  shows "in_row (send_nxt c) segs (send_nxt c')" "payloads segs @ send_queue c' = send_queue c @ take k bs"
    "length (payloads segs) \<le> send_window c" "send_queue c' = [] \<or> send_window c' = 0"
    "\<exists>ts. unacked c' = unacked c @ ts \<and> list_all2 (sent_as (recv_nxt c)) ts segs" "recv_nxt c' = recv_nxt c"
    "send_queue c' = [] \<or> length (payloads segs) = send_window c" "state c' = state c"
    "close_requested c' = close_requested c" "rto_recovery_until c' = rto_recovery_until c"
proof -
  have open_: "writable c" using inv w by (cases rule: conn_write_cases) simp_all
  have room: "accepted_payload_bytes (send_progress c) + write_room bs cfg c \<le> u128_max"
    using inv w by (cases rule: conn_write_cases) simp_all
  have acc: "k = write_room bs cfg c"
    using inv w by (cases rule: conn_write_cases) simp_all
  let ?c = "c\<lparr>send_queue := send_queue c @ take k bs, send_progress := (send_progress c)
      \<lparr>accepted_payload_bytes := accepted_payload_bytes (send_progress c) + k\<rparr>\<rparr>"
  have f: "flush_data now ?c = Some (segs, c')"
    using w open_ room unfolding acc by (auto simp: conn_write_def writable_def write_room_def Let_def
        progress_accept_def checked_add_def split: option.splits)
  have len: "length (take k bs) = k" by (simp add: acc write_room_def)
  have ph: "phase_inv Open cfg ?c"
    using enqueue_phase_inv [of cfg c "take k bs", unfolded len] inv room writable_phase [OF open_]
    by (simp add: conn_inv_def acc)
  obtain out d where l: "flush_loop now [] ?c = Some (out, d)" "in_row (send_nxt c) out (send_nxt d)"
      "payloads out @ send_queue d = send_queue c @ take k bs" "length (payloads out) \<le> send_window ?c"
      "\<exists>ts. unacked d = unacked c @ ts \<and> list_all2 (sent_as (recv_nxt c)) ts out" "recv_nxt d = recv_nxt c"
      "send_queue d = [] \<or> length (payloads out) = send_window ?c"
    using flush_loop_row [OF ph, of now "[]"] by auto
  have d: "close_requested d = close_requested c" "send_window d = 0 \<or> send_queue d = []" "state d = state c"
      "rto_recovery_until d = rto_recovery_until c"
    using flush_loop_effect [OF ph, of now "[]"] l(1) by (auto simp: flush_frame_def)
  have "flush_data now ?c = Some (out, d)"
    using l(1) d(1) open_ by (auto simp: flush_data_def flush_fin_def writable_def)
  then have "out = segs" "d = c'" using f by simp_all
  moreover have "send_window ?c = send_window c" by (simp add: send_window_def)
  ultimately show "in_row (send_nxt c) segs (send_nxt c')" "payloads segs @ send_queue c' = send_queue c @ take k bs"
    "length (payloads segs) \<le> send_window c" "send_queue c' = [] \<or> send_window c' = 0"
    "\<exists>ts. unacked c' = unacked c @ ts \<and> list_all2 (sent_as (recv_nxt c)) ts segs" "recv_nxt c' = recv_nxt c"
    "send_queue c' = [] \<or> length (payloads segs) = send_window c" "state c' = state c"
    "close_requested c' = close_requested c" "rto_recovery_until c' = rto_recovery_until c"
    using l d(2-4) d(1) by auto
qed

section \<open>The receiver of a row\<close>

text \<open>A connection that has seen no FIN of the peer and is past its handshake.\<close>

definition receives_data :: "'p connection \<Rightarrow> bool" where
  "receives_data c \<longleftrightarrow> state c = Established \<or> state c = FinWait1 \<or> state c = FinWait2"

lemma apply_ack_state:
  assumes "conn_inv cfg c" "apply_ack ack now d c = Some (o1, c')" "phase (state c) \<noteq> Opening"
  shows "state c' = state c"
  using apply_ack_effect [of "phase (state c)" cfg c ack now d] assms by (auto simp: conn_inv_def ack_frame_def)

lemma process_ack_receives:
  assumes inv: "conn_inv cfg c" and rec: "receives_data c"
    and p: "process_ack s ack now cfg c = Some ((fin, out), c')"
  shows "\<not> fin" "receives_data c'"
proof -
  have ph: "phase (state c) \<noteq> Opening" using rec by (auto simp: receives_data_def)
  obtain o1 c1 where a: "apply_ack ack now (is_duplicate_ack_candidate s (send_una c) (remote_window c)) c = Some (o1, c1)"
    using p by (auto simp: process_ack_def Let_def split: option.splits)
  have c1: "receives_data c1" using apply_ack_state [OF inv a ph] rec by (simp add: receives_data_def)
  have t: "receives_data (fin_acked_transition now cfg c1)"
    using c1 by (auto simp: receives_data_def fin_acked_transition_def)
  have rep: "state (snd (repair_timed_out_flight now cfg d)) = state d" for d :: "'a connection"
    using repair_frame [of now cfg d] by auto
  have st: "\<not> (ack_fin_acked o1 \<and> state c1 = LastAck)" using c1 by (auto simp: receives_data_def)
  have "state c' = state c1 \<or> state c' = state (fin_acked_transition now cfg c1)" and fin: "\<not> fin"
    using p a st by (auto simp: process_ack_def Let_def rep split: if_splits)
  then show "receives_data c'" using c1 t by (auto simp: receives_data_def)
  show "\<not> fin" by (rule fin)
qed

text \<open>A connection with nothing to send, nothing in flight and nothing out of order.\<close>

definition idle :: "'p connection \<Rightarrow> bool" where
  "idle c \<longleftrightarrow> send_queue c = [] \<and> unacked c = [] \<and> reassembly c = [] \<and> \<not> close_requested c"

lemma idle_una: "conn_inv cfg c \<Longrightarrow> idle c \<Longrightarrow> send_una c = send_nxt c"
  by (simp add: conn_inv_def phase_inv_def send_ok_def idle_def)

text \<open>
  The two ends of a connection in step: nothing in flight or buffered out of order, each expects the
  byte the other sends next, and neither believes in more window than the other has.
\<close>

definition in_step :: "'p connection \<Rightarrow> 'q connection \<Rightarrow> bool" where
  "in_step c d \<longleftrightarrow> state c = Established \<and> state d = Established \<and> idle c \<and> idle d \<and>
     recv_nxt d = send_nxt c \<and> recv_nxt c = send_nxt d \<and>
     remote_window c \<le> available_window d \<and> remote_window d \<le> available_window c \<and>
     rto_recovery_until c = None \<and> rto_recovery_until d = None"

lemma deliver_next:
  assumes inv: "conn_inv cfg d" and rec: "receives_data d" and re: "reassembly d = []"
    and valid: "valid_config cfg" and s: "seg_seq s = recv_nxt d" "seg_flags s = ACK OR PSH" "seg_payload s \<noteq> []"
      "length (seg_payload s) \<le> available_window d"
  shows "\<exists>u d'. on_segment s now cfg d = Some (u, d') \<and> \<not> upd_closed u \<and> conn_inv cfg d' \<and> receives_data d' \<and>
    reassembly d' = [] \<and> recv_queue d' = recv_queue d @ seg_payload s \<and>
    recv_nxt d' = recv_nxt d + of_nat (length (seg_payload s)) \<and>
    available_window d' = available_window d - length (seg_payload s) \<and>
    (\<exists>a \<in> set (upd_segments u). seg_ack a = Some (recv_nxt d'))"
proof -
  have st: "state d \<noteq> SynSent" "state d \<noteq> SynReceived" "phase (state d) \<noteq> Opening"
    using rec by (auto simp: receives_data_def)
  obtain u d' where o: "on_segment s now cfg d = Some (u, d')"
    and eff: "if upd_closed u
         then contains (seg_flags s) RST \<and> d' = d \<and> upd_segments u = [] \<or> finished d (upd_segments u) d'
         else effect cfg d (upd_segments u) d'"
    using on_segment_effect [OF inv, of s now] by blast
  have on: "on_synchronized s now cfg d = Some (u, d')" using o s(2) st by (simp add: on_segment_def)
  obtain fin out c1 where a: "(case seg_ack s of None \<Rightarrow> Some ((False, []), d)
      | Some ack \<Rightarrow> process_ack s ack now cfg d) = Some ((fin, out), c1)"
    using on by (auto simp: on_synchronized_def split: option.splits)
  have c1: "\<not> fin \<and> receives_data c1 \<and> recv_fields c1 = recv_fields d \<and> conn_inv cfg c1"
  proof (cases "seg_ack s")
    case None
    then show ?thesis using a rec inv by simp
  next
    case (Some ack)
    then have p: "process_ack s ack now cfg d = Some ((fin, out), c1)" using a by simp
    note f = process_ack_receives [OF inv rec p]
    have "conn_inv cfg c1" using process_ack_effect [OF inv st(3), of s ack now] p f(1) by auto
    then show ?thesis using f recv_fields_process_ack [OF p] by simp
  qed
  then have c1: "\<not> fin" "receives_data c1" "recv_fields c1 = recv_fields d" "conn_inv cfg c1" by simp_all
  have f: "recv_nxt c1 = recv_nxt d" "recv_queue c1 = recv_queue d" "reassembly c1 = []"
    using c1(3) re by (simp_all add: recv_fields_def)
  have cap: "receive_capacity c1 = receive_buffer cfg" "receive_capacity d = receive_buffer cfg"
      "receive_buffer cfg \<le> u16_max" "recv_inv d" "recv_inv c1"
    using inv c1(4) by (auto simp: conn_inv_def phase_inv_def param_inv_def recv_inv_def)
  have win: "available_window c1 = available_window d"
    "available_window d = receive_buffer cfg - length (recv_queue d)" "length (recv_queue d) \<le> receive_buffer cfg"
    using f re cap(1,2,4) by (simp_all add: available_window_eq cap(4,5) recv_inv_def)
  let ?n = "length (seg_payload s)"
  define c2 where "c2 = c1\<lparr>reassembly := [], recv_queue := recv_queue c1 @ seg_payload s,
      recv_nxt := recv_nxt c1 + of_nat ?n\<rparr>"
  have "receive_stream_data s now cfg c1 = ([ack_segment c2], c2)"
    unfolding c2_def using f s win cap(3) valid
    by (intro receive_in_order) (simp_all add: u16_max_def valid_config_def)
  moreover have "has_stream_data s" using s(3) by (simp add: has_stream_data_def)
  ultimately have rcv: "receive_if_data s now cfg out c1 = (out @ [ack_segment c2], c2)"
    by (simp add: receive_if_data_def)
  obtain flushed where fl: "flush_data now c2 = Some (flushed, d')" "upd_segments u = (out @ [ack_segment c2]) @ flushed"
    "\<not> upd_closed u"
    using on a c1(1) rcv by (auto simp: on_synchronized_def Let_def update_open_def split: option.splits)
  have i2: "conn_inv cfg c2"
    using recv_frame_inv(1) [OF c1(4) receive_if_data_frame receive_if_data_inv [OF c1(4)], of s now out] rcv by simp
  obtain fr: "flush_frame c2 d'" "fin_sent (state c2) (state d')"
    using flush_data_inv [OF i2, of now] fl(1) by auto
  have q: "recv_nxt d' = recv_nxt d + of_nat ?n" "recv_queue d' = recv_queue d @ seg_payload s" "reassembly d' = []"
      "receive_capacity d' = receive_buffer cfg"
    using fr(1) f cap(1) by (simp_all add: flush_frame_def c2_def)
  have "receives_data d'" using c1(2) fr(2) by (auto simp: receives_data_def fin_sent_def c2_def)
  moreover have inv': "conn_inv cfg d'" using eff fl(3) by (simp add: effect_def)
  moreover have "recv_inv d'" using inv' by (simp add: conn_inv_def phase_inv_def)
  then have "available_window d' = available_window d - ?n"
    using q win(2) by (simp add: available_window_eq)
  moreover have "seg_ack (ack_segment c2) = Some (recv_nxt d')"
    using fr(1) by (simp add: ack_segment_def flush_frame_def)
  ultimately show ?thesis using o fl(2,3) q by (intro exI [of _ u] exI [of _ d']) auto
qed

text \<open>Segments delivered one after the other; the answers in the order they were sent.\<close>

fun deliver_all :: "nat \<Rightarrow> config \<Rightarrow> segment list \<Rightarrow> 'p connection \<Rightarrow> (segment list \<times> 'p connection) option" where
  "deliver_all now cfg [] c = Some ([], c)"
| "deliver_all now cfg (s # ss) c =
     (case on_segment s now cfg c of
        None \<Rightarrow> None
      | Some (u, c1) \<Rightarrow>
          if upd_closed u then None
          else (case deliver_all now cfg ss c1 of
                  None \<Rightarrow> None
                | Some (answers, c2) \<Rightarrow> Some (upd_segments u @ answers, c2)))"

lemma deliver_row:
  assumes "conn_inv cfg d" "receives_data d" "reassembly d = []" "valid_config cfg"
    "in_row (recv_nxt d) segs b" "length (payloads segs) \<le> available_window d"
  shows "\<exists>answers d'. deliver_all now cfg segs d = Some (answers, d') \<and> conn_inv cfg d' \<and>
    recv_queue d' = recv_queue d @ payloads segs \<and> recv_nxt d' = b \<and>
    (segs \<noteq> [] \<longrightarrow> (\<exists>a \<in> set answers. seg_ack a = Some b))"
  using assms
proof (induction segs arbitrary: d)
  case Nil
  then show ?case by simp
next
  case (Cons s ss)
  have s: "seg_seq s = recv_nxt d" "seg_flags s = ACK OR PSH" "seg_payload s \<noteq> []"
      "length (seg_payload s) \<le> available_window d"
    using Cons.prems(5,6) by simp_all
  obtain u d1 where o: "on_segment s now cfg d = Some (u, d1)" "\<not> upd_closed u"
    and d1: "conn_inv cfg d1" "receives_data d1" "reassembly d1 = []" "recv_queue d1 = recv_queue d @ seg_payload s"
      "recv_nxt d1 = recv_nxt d + of_nat (length (seg_payload s))"
      "available_window d1 = available_window d - length (seg_payload s)"
      "\<exists>a \<in> set (upd_segments u). seg_ack a = Some (recv_nxt d1)"
    using deliver_next [OF Cons.prems(1-4) s, of now] by blast
  have row: "in_row (recv_nxt d1) ss b" "length (payloads ss) \<le> available_window d1"
    using Cons.prems(5,6) d1(5,6) by simp_all
  obtain answers d2 where ih: "deliver_all now cfg ss d1 = Some (answers, d2)" "conn_inv cfg d2"
    "recv_queue d2 = recv_queue d1 @ payloads ss" "recv_nxt d2 = b"
    "ss \<noteq> [] \<longrightarrow> (\<exists>a \<in> set answers. seg_ack a = Some b)"
    using Cons.IH [OF d1(1-3) Cons.prems(4) row] by blast
  have "\<exists>a \<in> set (upd_segments u @ answers). seg_ack a = Some b"
    using ih(5) d1(7) row(1) by (cases ss) auto
  then show ?case using o ih d1(4) by auto
qed

section \<open>A write arrives\<close>

text \<open>
  Progress over a network that delivers. A write on a connection in step with its peer (the peer
  has received everything sent so far, and the sender believes in no more window than there is)
  sends segments that, delivered in order, leave every byte either in the receiver's queue or, when
  the window is used up, still in the sender's: nothing is dropped, nothing is closed, the receiver
  ends in step again, and one of its answers acknowledges everything that was sent.
\<close>

theorem write_is_delivered:
  assumes "conn_inv cx c" "conn_write bs now cx c = Some (Inr (k, segs), c')"
    and "conn_inv cy d" "valid_config cy" "receives_data d" "reassembly d = []"
    and "recv_nxt d = send_nxt c" "remote_window c \<le> available_window d"
  shows "\<exists>answers d'. deliver_all t cy segs d = Some (answers, d') \<and> conn_inv cy d' \<and>
    recv_queue d' @ send_queue c' = recv_queue d @ send_queue c @ take k bs \<and>
    (send_queue c' = [] \<or> send_window c' = 0) \<and> recv_nxt d' = send_nxt c' \<and>
    (segs = [] \<or> (\<exists>a \<in> set answers. seg_ack a = Some (send_nxt c')))"
proof -
  note w = write_row [OF assms(1,2)]
  have "send_window c \<le> remote_window c" by (auto simp: send_window_def)
  then have "length (payloads segs) \<le> available_window d" using w(3) assms(8) by simp
  from deliver_row [OF assms(3,5,6,4) _ this, of "send_nxt c'" t] w(1) assms(7)
  obtain answers d' where d: "deliver_all t cy segs d = Some (answers, d')" "conn_inv cy d'"
    "recv_queue d' = recv_queue d @ payloads segs" "recv_nxt d' = send_nxt c'"
    "segs \<noteq> [] \<longrightarrow> (\<exists>a \<in> set answers. seg_ack a = Some (send_nxt c'))" by auto
  then show ?thesis using w(2,4) by (intro exI [of _ answers] exI [of _ d']) auto
qed

text \<open>The peer of \<open>example_open\<close>, after the acknowledgment of its SYN-ACK.\<close>

definition example_peer :: "nat connection" where
  "example_peer = snd (the (on_segment (example_bytes\<lparr>seg_payload := []\<rparr>) 30 config_default (fst example_pair_server)))"

lemma example_peer_step: "\<exists>u. on_segment (example_bytes\<lparr>seg_payload := []\<rparr>) 30 config_default (fst example_pair_server)
    = Some (u, example_peer) \<and> \<not> upd_closed u"
  by (simp add: example_peer_def run_defs on_syn_received_def receive_if_data_def has_stream_data_def)

lemma example_peer_fields: "receives_data example_peer" "reassembly example_peer = []" "recv_nxt example_peer = 1001"
    "available_window example_peer = 65535" "recv_queue example_peer = []"
  by (simp_all add: example_peer_def run_defs on_syn_received_def receive_if_data_def has_stream_data_def receives_data_def sat_add64_def)

lemma example_peer_inv: "conn_inv config_default example_peer"
proof -
  have "conn_inv config_default (fst example_pair_server)"
    using example_y0_inv(2) by (simp add: example_y0_def endpoint_new_def)
  then show ?thesis
    using conn_step_effect example_peer_step step_segment by blast
qed

lemma example_open_write: "\<exists>segs c'. conn_write [7, 8] 40 config_default example_open = Some (Inr (2, segs), c')"
  by (simp add: example_open_eq run_defs)

theorem write_is_delivered_witness:
  "\<exists>segs c' answers d'. conn_write [7, 8] 40 config_default example_open = Some (Inr (2, segs), c') \<and>
    deliver_all 50 config_default segs example_peer = Some (answers, d') \<and> conn_inv config_default d' \<and>
    recv_queue d' @ send_queue c' = recv_queue example_peer @ send_queue example_open @ take 2 [7, 8] \<and>
    (send_queue c' = [] \<or> send_window c' = 0) \<and> recv_nxt d' = send_nxt c' \<and>
    (segs = [] \<or> (\<exists>a \<in> set answers. seg_ack a = Some (send_nxt c')))"
proof -
  obtain segs c' where w: "conn_write [7, 8] 40 config_default example_open = Some (Inr (2, segs), c')"
    using example_open_write by blast
  have "recv_nxt example_peer = send_nxt example_open" "remote_window example_open \<le> available_window example_peer"
    using example_peer_fields by (simp_all add: example_open_eq)
  from write_is_delivered [OF example_open_inv w example_peer_inv valid_config_default
      example_peer_fields(1,2) this, of 50] w
  show ?thesis by blast
qed

end
