(* ===== verification/Close_Props.thy ===== *)
theory Close_Props
  imports Transfer_Props Conn_Props
begin

text \<open>
  The orderly close of two connections in step over a network that delivers: the FIN of each side is
  sent when nothing is left to send, delivered, acknowledged, and both connections end.
\<close>

section \<open>One side\<close>

abbreviation fin_tracked :: "u32 \<Rightarrow> nat \<Rightarrow> tracked_segment" where
  "fin_tracked seq now \<equiv> \<lparr>trk_seq = seq, trk_flags = FIN OR ACK, trk_payload = [], sent_at_ms = now, transmissions = 1\<rparr>"

lemma close_sends_fin:
  fixes now :: nat
  assumes inv: "conn_inv cfg c" and c: "state c = Established \<or> state c = CloseWait" "idle c" "0 < remote_window c"
  defines "c' \<equiv> c\<lparr>state := (if state c = Established then FinWait1 else LastAck), send_nxt := send_nxt c + 1,
      unacked := [fin_tracked (send_nxt c) now]\<rparr>"
  obtains f where "conn_close now c = Some (update_open [f], c')" "seg_flags f = FIN OR ACK" "seg_seq f = send_nxt c"
    "seg_ack f = Some (recv_nxt c)" "seg_payload f = []" "seg_window f = available_window_u16 c"
proof -
  have w: "0 < send_window c'" if "send_nxt c' = send_una c'" "remote_window c' = remote_window c" "reno c' = reno c" for c' :: "'a connection"
    using that inv c(3) by (auto simp: send_window_def distance_def reno_window_def conn_inv_def phase_inv_def param_inv_def)
  let ?c1 = "c\<lparr>close_requested := False, state := (if state c = Established then FinWait1 else LastAck)\<rparr>"
  let ?f = "fst (send_tracked (FIN OR ACK) [] now ?c1)"
  have "send_window (c\<lparr>close_requested := True\<rparr>) > 0" using w idle_una [OF inv c(2)] by simp
  then have "flush_data now (c\<lparr>close_requested := True\<rparr>) = Some ([?f], snd (send_tracked (FIN OR ACK) [] now ?c1))"
    using c(1,2) by (simp add: flush_data_def flush_loop_unfold flush_fin_def idle_def Let_def del: send_tracked_simps)
  moreover have "snd (send_tracked (FIN OR ACK) [] now ?c1) = c'" using c(2) by (simp add: c'_def idle_def)
  ultimately have "conn_close now c = Some (update_open [?f], c')"
    using c(1) by (simp add: conn_close_def del: send_tracked_simps)
  moreover have "seg_window ?f = available_window_u16 c"
    by (simp add: send_tracked_def segment_for_def Let_def) (simp add: available_window_u16_def available_window_def)
  ultimately show thesis
    by (intro that [of ?f]) (simp_all add: send_tracked_def segment_for_def Let_def)
qed

lemma fin_is_acked:
  assumes c: "unacked c = [fin_tracked (send_una c) t]" "send_nxt c = send_una c + 1" and inv: "progress_inv c"
  shows "\<exists>c'. apply_ack (send_nxt c) now d c = Some (\<lparr>ack_fin_acked = True, ack_retransmit = None\<rparr>, c') \<and>
    ack_frame c c' \<and> unacked c' = [] \<and> send_una c' = send_nxt c"
proof -
  have new: "apply_ack (send_nxt c) now d c = apply_new_ack (send_nxt c) now c"
    unfolding c(2) by (simp add: apply_ack_def after_def before_def c(2))
  have "acked_payload_bytes (send_progress c) \<le> u128_max" using inv by (simp add: progress_inv_def)
  then show ?thesis
    unfolding new by (simp add: apply_new_ack_def c trk_end_seq_def before_or_equal_def progress_acknowledge_def checked_add_def ack_frame_def)
qed

text \<open>The FIN in sequence, with nothing out of order.\<close>

definition took_fin :: "nat \<Rightarrow> config \<Rightarrow> 'p connection \<Rightarrow> 'p connection" where
  "took_fin now cfg c = drain_retain (on_remote_fin now cfg (c\<lparr>reassembly := [], recv_nxt := recv_nxt c + 1\<rparr>))"

lemma took_fin_simps [simp]:
  "reassembly (took_fin now cfg c) = []" "recv_nxt (took_fin now cfg c) = recv_nxt c + 1" "recv_queue (took_fin now cfg c) = recv_queue c"
  "send_nxt (took_fin now cfg c) = send_nxt c" "send_una (took_fin now cfg c) = send_una c"
  "send_queue (took_fin now cfg c) = send_queue c" "unacked (took_fin now cfg c) = unacked c"
  "remote_window (took_fin now cfg c) = remote_window c" "close_requested (took_fin now cfg c) = close_requested c"
  "read_closed (took_fin now cfg c)"
  "state c = Established \<Longrightarrow> state (took_fin now cfg c) = CloseWait"
  "state c = FinWait2 \<Longrightarrow> state (took_fin now cfg c) = TimeWait"
  "state c = FinWait2 \<Longrightarrow> time_wait_until_ms (took_fin now cfg c) = Some (sat_add64 now (time_wait_ms cfg))"
  by (simp_all add: took_fin_def drain_retain_def on_remote_fin_def enter_time_wait_def Let_def split: tcp_state.split)

lemma receive_fin:
  assumes c: "reassembly c = []" and s: "seg_seq s = recv_nxt c" "seg_payload s = []" "contains (seg_flags s) FIN"
    and room: "0 < max_reassembly_segments cfg"
  shows "receive_stream_data s now cfg c = ([ack_segment (took_fin now cfg c)], took_fin now cfg c)"
proof -
  let ?r = "\<lparr>rsm_seq = recv_nxt c, rsm_payload = [], rsm_fin = True\<rparr>"
  have ins: "insert_received (recv_nxt c) [] True cfg c = c\<lparr>reassembly := [?r]\<rparr>"
    using c room by (simp add: insert_received_def Let_def after_def before_def distance_def)
  have ret: "drain_retain (c\<lparr>reassembly := [?r]\<rparr>) = c\<lparr>reassembly := [?r]\<rparr>"
    by (simp add: drain_retain_def rsm_end_seq_def)
  have "drain_reassembly now cfg (c\<lparr>reassembly := [?r]\<rparr>) =
      drain_reassembly now cfg (on_remote_fin now cfg (c\<lparr>reassembly := [], recv_nxt := recv_nxt c + 1\<rparr>))"
    by (subst drain_reassembly_unfold) (simp add: ret List.extract_def Let_def drain_trim_def before_def drain_take_def)
  also have "\<dots> = took_fin now cfg c"
    by (subst drain_reassembly_unfold) (simp add: took_fin_def drain_retain_def List.extract_def)
  finally show ?thesis using s ins by (simp add: receive_stream_data_def Let_def)
qed

lemma fin_arrives:
  fixes now :: nat
  assumes inv: "conn_inv cfg c" and valid: "valid_config cfg" and c: "state c = Established \<or> state c = FinWait2" "idle c"
    and s: "seg_flags s = FIN OR ACK" "seg_seq s = recv_nxt c" "seg_payload s = []" "seg_ack s = Some (send_nxt c)"
  defines "c1 \<equiv> update_remote_window (seg_window s) now (c\<lparr>duplicate_acks := 0\<rparr>)"
  shows "on_segment s now cfg c = Some (update_open [ack_segment (took_fin now cfg c1)], took_fin now cfg c1)"
proof -
  have p: "process_ack s (send_nxt c) now cfg c = Some ((False, []), c1)"
    using idle_una [OF inv c(2)] s(1)
    by (simp add: process_ack_def Let_def apply_ack_def after_def before_def is_duplicate_ack_candidate_def no_outcome_def
        in_closed_interval_def c1_def)
  have "reassembly c1 = []" "seg_seq s = recv_nxt c1" "0 < max_reassembly_segments cfg"
    using c(2) s(2) valid by (simp_all add: c1_def idle_def valid_config_def)
  note r = receive_fin [OF this(1,2) s(3) _ this(3), of now]
  have f: "flush_data now (took_fin now cfg c1) = Some ([], took_fin now cfg c1)"
    using c(2) by (intro flush_nothing) (simp_all add: c1_def idle_def)
  show ?thesis
    using c(1) s(1) p r f by (auto simp: on_segment_def on_synchronized_def s(4) receive_if_data_def has_stream_data_def Let_def)
qed

text \<open>The acknowledgment of the FIN, in FIN-WAIT-1 and in LAST-ACK.\<close>

lemma ack_of_fin:
  assumes inv: "progress_inv c" and c: "unacked c = [fin_tracked (send_una c) t]" "send_nxt c = send_una c + 1"
    and s: "seg_flags s = ACK" "seg_payload s = []" "seg_ack s = Some (send_nxt c)"
  shows "state c = LastAck \<Longrightarrow> \<exists>c'. on_segment s now cfg c = Some (update_close [], c')"
    and "state c = FinWait1 \<Longrightarrow> \<exists>c'. on_segment s now cfg c = Some (update_open [], c') \<and> state c' = FinWait2 \<and> unacked c' = [] \<and>
      send_queue c' = send_queue c \<and> send_nxt c' = send_nxt c \<and> recv_fields c' = recv_fields c \<and> close_requested c' = close_requested c"
proof -
  define d where "d = is_duplicate_ack_candidate s (send_una c) (remote_window c)"
  obtain c1 where a: "apply_ack (send_nxt c) now d c = Some (\<lparr>ack_fin_acked = True, ack_retransmit = None\<rparr>, c1)"
    "ack_frame c c1" "unacked c1 = []" "send_una c1 = send_nxt c"
    using fin_is_acked [OF c inv] by blast
  note f = a(2) [unfolded ack_frame_def]
  show "state c = LastAck \<Longrightarrow> \<exists>c'. on_segment s now cfg c = Some (update_close [], c')"
    using f s a(1) by (simp add: on_segment_def on_synchronized_def process_ack_def Let_def d_def [symmetric])
  assume st: "state c = FinWait1"
  let ?c = "update_remote_window (seg_window s) now (c1\<lparr>state := FinWait2, fin_wait_2_until_ms := Some (sat_add64 now (fin_wait_2_ms cfg))\<rparr>)"
  have "repair_timed_out_flight now cfg ?c = (None, ?c)"
    using a(3) by (simp add: repair_timed_out_flight_def)
  then have p: "process_ack s (send_nxt c) now cfg c = Some ((False, []), ?c)"
    using f a st by (simp add: process_ack_def Let_def d_def [symmetric] fin_acked_transition_def in_closed_interval_def
        after_def before_def)
  have "flush_data now ?c = Some ([], ?c)" by (simp add: flush_data_def)
  then have "on_segment s now cfg c = Some (update_open [], ?c)"
    using p s st by (simp add: on_segment_def on_synchronized_def receive_if_data_def has_stream_data_def)
  then show "\<exists>c'. on_segment s now cfg c = Some (update_open [], c') \<and> state c' = FinWait2 \<and> unacked c' = [] \<and>
      send_queue c' = send_queue c \<and> send_nxt c' = send_nxt c \<and> recv_fields c' = recv_fields c \<and> close_requested c' = close_requested c"
    using f a(3) by (intro exI [of _ ?c]) (simp add: recv_fields_def)
qed

section \<open>Both sides\<close>

text \<open>
  The orderly close over a network that delivers, at any times. Of two established connections
  in step with nothing left to send, the one that closes first sends exactly its FIN; the other takes
  it after all data (end of stream, CLOSE-WAIT) and acknowledges it, which moves the first to
  FIN-WAIT-2; when the other closes too, its FIN takes the first to TIME-WAIT with the configured
  deadline, and the acknowledgment removes the other. Unread data stays readable throughout, and a
  poll at the deadline removes the first.
\<close>

theorem orderly_close:
  assumes "conn_inv cx c" "valid_config cx" "conn_inv cy d" "valid_config cy"
    and "in_step c d" "0 < remote_window c" "0 < available_window c"
  shows "\<exists>f1 a1 f2 a2 c1 c2 c3 d1 d2 d3.
    seg_flags f1 = FIN OR ACK \<and> seg_flags a1 = ACK \<and> seg_flags f2 = FIN OR ACK \<and> seg_flags a2 = ACK \<and>
    conn_close t0 c = Some (update_open [f1], c1) \<and> state c1 = FinWait1 \<and>
    on_segment f1 t1 cy d = Some (update_open [a1], d1) \<and> state d1 = CloseWait \<and> read_closed d1 \<and> recv_queue d1 = recv_queue d \<and>
    on_segment a1 t2 cx c1 = Some (update_open [], c2) \<and> state c2 = FinWait2 \<and>
    conn_close t3 d1 = Some (update_open [f2], d2) \<and> state d2 = LastAck \<and>
    on_segment f2 t4 cx c2 = Some (update_open [a2], c3) \<and> state c3 = TimeWait \<and> recv_queue c3 = recv_queue c \<and>
    time_wait_until_ms c3 = Some (sat_add64 t4 (time_wait_ms cx)) \<and>
    on_segment a2 t5 cy d2 = Some (update_close [], d3) \<and>
    conn_poll (sat_add64 t4 (time_wait_ms cx)) cx c3 = Some (update_close [], c3)"
proof -
  have ec: "state c = Established" and ed: "state d = Established" and ic: "idle c" and idd: "idle d"
    and sd: "recv_nxt d = send_nxt c" and sc: "recv_nxt c = send_nxt d"
    using assms(5) by (simp_all add: in_step_def)
  note una_c = idle_una [OF assms(1) ic] and una_d = idle_una [OF assms(3) idd]
  define c1 where "c1 = c\<lparr>state := FinWait1, send_nxt := send_nxt c + 1, unacked := [fin_tracked (send_nxt c) t0]\<rparr>"
  obtain f1 where f1: "conn_close t0 c = Some (update_open [f1], c1)" "seg_flags f1 = FIN OR ACK" "seg_seq f1 = send_nxt c"
    "seg_ack f1 = Some (recv_nxt c)" "seg_payload f1 = []" "seg_window f1 = available_window_u16 c"
    using close_sends_fin [OF assms(1) disjI1 [OF ec] ic assms(6), of t0] unfolding c1_def if_P [OF ec] by blast
  have inv_c1: "conn_inv cx c1" using conn_step_effect [OF assms(1) step_close [OF f1(1)]] by (simp add: update_open_def)
  define d1 where "d1 = took_fin t1 cy (update_remote_window (seg_window f1) t1 (d\<lparr>duplicate_acks := 0\<rparr>))"
  have d1: "on_segment f1 t1 cy d = Some (update_open [ack_segment d1], d1)"
    unfolding d1_def using fin_arrives [OF assms(3) assms(4) disjI1 [OF ed] idd f1(2), of t1] f1(3-5) sd sc by simp
  have inv_d1: "conn_inv cy d1" using conn_step_effect [OF assms(3) step_segment [OF d1]] by (simp add: update_open_def)
  have fd1: "state d1 = CloseWait" "read_closed d1" "recv_queue d1 = recv_queue d" "idle d1" "recv_nxt d1 = send_nxt c + 1"
    "send_nxt d1 = send_nxt d" "remote_window d1 = unat (available_window_u16 c)"
    using ed idd sd f1(6) by (simp_all add: d1_def idle_def)
  have win: "0 < remote_window d1"
    using available_window_u16_exact [of c] assms(1) assms(7) fd1(7) by (simp add: conn_inv_def phase_inv_def)
  have "seg_flags (ack_segment d1) = ACK" "seg_payload (ack_segment d1) = []" "seg_ack (ack_segment d1) = Some (send_nxt c1)"
    using fd1(5) by (simp_all add: ack_segment_def c1_def)
  moreover have "unacked c1 = [fin_tracked (send_una c1) t0]" "send_nxt c1 = send_una c1 + 1" "state c1 = FinWait1"
    using una_c by (simp_all add: c1_def)
  ultimately obtain c2 where c2: "on_segment (ack_segment d1) t2 cx c1 = Some (update_open [], c2)" "state c2 = FinWait2"
    "unacked c2 = []" "send_queue c2 = []" "send_nxt c2 = send_nxt c + 1" "recv_fields c2 = recv_fields c" "\<not> close_requested c2"
    using ack_of_fin(2) [OF conn_inv_progress [OF inv_c1], of t0 "ack_segment d1" t2 cx] ic
    by (auto simp: c1_def idle_def recv_fields_def)
  have inv_c2: "conn_inv cx c2" using conn_step_effect [OF inv_c1 step_segment [OF c2(1)]] by (simp add: update_open_def)
  define d2 where "d2 = d1\<lparr>state := LastAck, send_nxt := send_nxt d1 + 1, unacked := [fin_tracked (send_nxt d1) t3]\<rparr>"
  obtain f2 where f2: "conn_close t3 d1 = Some (update_open [f2], d2)" "seg_flags f2 = FIN OR ACK" "seg_seq f2 = send_nxt d1"
    "seg_ack f2 = Some (recv_nxt d1)" "seg_payload f2 = []"
    using close_sends_fin [OF inv_d1 disjI2 [OF fd1(1)] fd1(4) win, of t3] fd1(1) by (auto simp: d2_def)
  have inv_d2: "conn_inv cy d2" using conn_step_effect [OF inv_d1 step_close [OF f2(1)]] by (simp add: update_open_def)
  define c3 where "c3 = took_fin t4 cx (update_remote_window (seg_window f2) t4 (c2\<lparr>duplicate_acks := 0\<rparr>))"
  have idle_c2: "idle c2" "recv_nxt c2 = send_nxt d" "recv_queue c2 = recv_queue c"
    using c2(3,4,6,7) ic sc by (simp_all add: idle_def recv_fields_def)
  have c3: "on_segment f2 t4 cx c2 = Some (update_open [ack_segment c3], c3)"
    unfolding c3_def using fin_arrives [OF inv_c2 assms(2) disjI2 [OF c2(2)] idle_c2(1) f2(2), of t4] f2(3-5) c2(5) fd1(5,6) idle_c2(2) by simp
  have fc3: "state c3 = TimeWait" "recv_queue c3 = recv_queue c" "time_wait_until_ms c3 = Some (sat_add64 t4 (time_wait_ms cx))"
    "recv_nxt c3 = send_nxt d2"
    using c2(2) idle_c2(2,3) fd1(6) by (simp_all add: c3_def d2_def)
  have una_d1: "send_una d1 = send_nxt d1" by (rule idle_una [OF inv_d1 fd1(4)])
  have "\<exists>d3. on_segment (ack_segment c3) t5 cy d2 = Some (update_close [], d3)"
    using una_d1 fc3(4) by (intro ack_of_fin(1) [OF conn_inv_progress [OF inv_d2], where t = t3])
      (simp_all add: d2_def ack_segment_def)
  then obtain d3 where d3: "on_segment (ack_segment c3) t5 cy d2 = Some (update_close [], d3)" by blast
  have poll: "conn_poll (sat_add64 t4 (time_wait_ms cx)) cx c3 = Some (update_close [], c3)"
    using fc3(1,3) by (simp add: conn_poll_def close_deadline_def)
  have "state c1 = FinWait1" "state d2 = LastAck" by (simp_all add: c1_def d2_def)
  moreover have "seg_flags (ack_segment x) = ACK" for x :: "'a connection" by (simp add: ack_segment_def)
  moreover have "seg_flags (ack_segment x) = ACK" for x :: "'b connection" by (simp add: ack_segment_def)
  ultimately show ?thesis using f1(1,2) d1 fd1(1-3) c2(1,2) f2(1,2) c3 fc3(1-3) d3 poll by (intro exI conjI)
qed

text \<open>The mirror image of \<open>example_open\<close>: the same connection with the two streams exchanged.\<close>

definition example_mirror :: "nat connection" where
  "example_mirror = example_open\<lparr>send_una := 5001, send_nxt := 5001, recv_nxt := 1001\<rparr>"

lemma example_mirror_inv: "conn_inv config_default example_mirror"
  by (simp add: example_mirror_def example_open_eq example_inv_defs)
    (simp add: u16_max_def u64_max_def u128_max_def)

theorem orderly_close_witness:
  "\<exists>f1 a1 f2 a2 c1 c2 c3 d1 d2 d3.
    conn_close 100 example_open = Some (update_open [f1], c1) \<and> on_segment f1 110 config_default example_mirror = Some (update_open [a1], d1) \<and>
    on_segment a1 120 config_default c1 = Some (update_open [], c2) \<and> conn_close 130 d1 = Some (update_open [f2], d2) \<and>
    on_segment f2 140 config_default c2 = Some (update_open [a2], c3) \<and> state c3 = TimeWait \<and>
    on_segment a2 150 config_default d2 = Some (update_close [], d3)"
proof -
  have "in_step example_open example_mirror" "0 < remote_window example_open" "0 < available_window example_open"
    by (simp_all add: in_step_def example_mirror_def example_open_eq idle_def available_window_def sat_add64_def u64_max_def)
  from orderly_close [OF example_open_inv valid_config_default example_mirror_inv valid_config_default this, of 100 110 120 130 140 150]
  show ?thesis by (elim exE conjE) (intro exI conjI)
qed

section \<open>A close behind a closed window\<close>

text \<open>Polls at the given times, with everything they send.\<close>

fun polls :: "nat list \<Rightarrow> config \<Rightarrow> 'p connection \<Rightarrow> (segment list \<times> 'p connection) option" where
  "polls [] cfg c = Some ([], c)"
| "polls (t # ts) cfg c =
     (case conn_poll t cfg c of
        None \<Rightarrow> None
      | Some (u, c1) \<Rightarrow>
          if upd_closed u then None
          else (case polls ts cfg c1 of None \<Rightarrow> None | Some (segs, c2) \<Rightarrow> Some (upd_segments u @ segs, c2)))"

text \<open>A close was requested, all data is acknowledged, and the peer's last window was zero.\<close>

definition close_pending :: "config \<Rightarrow> 'p connection \<Rightarrow> bool" where
  "close_pending cfg c \<longleftrightarrow> (state c = Established \<or> state c = CloseWait) \<and> close_requested c \<and> send_queue c = [] \<and>
     unacked c = [] \<and> remote_window c = 0 \<and> zero_window_probes c < max_retransmissions cfg"

lemma close_pending_poll:
  assumes "close_pending cfg c"
  shows "\<exists>c'. conn_poll now cfg c = Some (update_open [], c') \<and> close_pending cfg c' \<and> state c' = state c"
proof -
  have d: "close_deadline c = None" using assms by (auto simp: close_pending_def close_deadline_def)
  have "\<exists>c'. poll_zero_window now cfg c = (update_open [], c') \<and> close_pending cfg c' \<and> state c' = state c"
    using assms by (simp add: poll_zero_window_def Let_def zero_window_probe_def close_pending_def)
  then show ?thesis using assms d by (auto simp: conn_poll_def close_pending_def)
qed

lemma close_pending_polls:
  "close_pending cfg c \<Longrightarrow> \<exists>c'. polls ts cfg c = Some ([], c') \<and> close_pending cfg c' \<and> state c' = state c"
proof (induction ts arbitrary: c)
  case Nil
  then show ?case by simp
next
  case (Cons t ts)
  obtain c1 where c1: "conn_poll t cfg c = Some (update_open [], c1)" "close_pending cfg c1" "state c1 = state c"
    using close_pending_poll [OF Cons.prems] by blast
  then show ?case using Cons.IH [OF c1(2)] by (auto simp: update_open_def)
qed

lemma idle_polls:
  assumes "state d = Established \<or> state d = CloseWait" "idle d"
  shows "conn_next_poll_at now cfg d = None" "polls ts cfg d = Some ([], d)"
proof -
  have d: "close_deadline d = None" using assms(1) by (auto simp: close_deadline_def)
  show "conn_next_poll_at now cfg d = None"
    using assms(2) d by (simp add: conn_next_poll_at_def transport_deadline_def idle_def has_probe_payload_def)
  have "conn_poll t cfg d = Some (update_open [], d)" for t
    using assms(2) d by (simp add: conn_poll_def poll_flush_def flush_nothing idle_def has_probe_payload_def)
  then show "polls ts cfg d = Some ([], d)" by (induction ts) (simp_all add: update_open_def)
qed

text \<open>
  C33: A close can wait for ever. When a connection is asked to close after all its data was
  acknowledged with a zero window, and its budget of zero-window probes is not used up, it neither has
  a timer nor sends anything at any poll, and an idle peer does not either: if the one segment that
  reopens the window is lost, both sides stay as they are. Zero-window probes exist only for data, not
  for the FIN.
\<close>

theorem close_waits_for_ever:
  assumes "close_pending cx c" "state d = Established \<or> state d = CloseWait" "idle d"
  shows "conn_next_poll_at now cx c = None \<and> conn_next_poll_at now cy d = None \<and>
    (\<exists>c'. polls ts cx c = Some ([], c') \<and> state c' = state c \<and> close_requested c' \<and> conn_next_poll_at later cx c' = None) \<and>
    polls ts cy d = Some ([], d)"
proof -
  have "conn_next_poll_at t cx c = None" if "close_pending cx c" for t and c :: "'a connection"
    using that by (auto simp: conn_next_poll_at_def transport_deadline_def close_pending_def has_probe_payload_def
        close_deadline_def)
  note none = this
  obtain c' where c': "polls ts cx c = Some ([], c')" "close_pending cx c'" "state c' = state c"
    using close_pending_polls [OF assms(1)] by blast
  have "close_requested c'" using c'(2) by (simp add: close_pending_def)
  then show ?thesis using c' none assms(1) idle_polls [OF assms(2,3)] by blast
qed

text \<open>\<open>example_open\<close> hears that the peer's buffer is full, and is then asked to close.\<close>

definition example_shut :: "nat connection" where
  "example_shut = snd (the (conn_close 40 (snd (the (on_segment
     ((segment_new 80 49152 5001)\<lparr>seg_flags := ACK, seg_ack := Some 1001, seg_window := 0\<rparr>) 30 config_default example_open)))))"

lemma example_shut_pending: "close_pending config_default example_shut" "state example_shut = Established"
  by (simp_all add: example_shut_def example_open_eq on_segment_def on_synchronized_def process_ack_def Let_def apply_ack_def
      after_def before_def is_duplicate_ack_candidate_def no_outcome_def in_closed_interval_def update_remote_window_def
      receive_if_data_def has_stream_data_def segment_new_def flush_data_def flush_loop_unfold flush_fin_def conn_close_def
      update_open_def send_window_def close_pending_def config_default_def)

theorem close_waits_for_ever_witness:
  "conn_next_poll_at 50 config_default example_shut = None \<and>
    (\<exists>c'. polls [1000, 60000, 3600000] config_default example_shut = Some ([], c') \<and> state c' = Established \<and> close_requested c') \<and>
    polls [1000, 60000, 3600000] config_default example_mirror = Some ([], example_mirror)"
proof -
  have d: "state example_mirror = Established \<or> state example_mirror = CloseWait" "idle example_mirror"
    by (simp_all add: example_mirror_def example_open_eq idle_def)
  from close_waits_for_ever [OF example_shut_pending(1) d, of 50 config_default "[1000, 60000, 3600000]" 3600000]
  show ?thesis unfolding example_shut_pending(2) by blast
qed

end
