(* ===== verification/Repair_Props.thy ===== *)
theory Repair_Props
  imports Close_Props
begin

text \<open>
  Recovery from loss. After a timeout the sender repairs its whole flight: every acknowledgment of a
  retransmitted segment makes it retransmit the next one, until nothing is outstanding.
\<close>

section \<open>The receiver's side\<close>

definition took_data :: "segment \<Rightarrow> nat \<Rightarrow> 'p connection \<Rightarrow> 'p connection" where
  "took_data s now d = (update_remote_window (seg_window s) now (d\<lparr>duplicate_acks := 0\<rparr>))\<lparr>reassembly := [],
     recv_queue := recv_queue d @ seg_payload s, recv_nxt := recv_nxt d + of_nat (length (seg_payload s))\<rparr>"

lemma took_data_simps [simp]:
  "state (took_data s now d) = state d" "send_nxt (took_data s now d) = send_nxt d" "send_queue (took_data s now d) = send_queue d"
  "unacked (took_data s now d) = unacked d" "close_requested (took_data s now d) = close_requested d"
  "reassembly (took_data s now d) = []" "recv_queue (took_data s now d) = recv_queue d @ seg_payload s"
  "recv_nxt (took_data s now d) = recv_nxt d + of_nat (length (seg_payload s))"
  by (simp_all add: took_data_def)

lemma data_arrives:
  assumes inv: "conn_inv cfg d" and valid: "valid_config cfg" and d: "receives_data d" "idle d"
    and s: "seg_flags s = ACK OR PSH" "seg_seq s = recv_nxt d" "seg_payload s \<noteq> []" "seg_ack s = Some (send_nxt d)"
      "length (seg_payload s) \<le> available_window d"
  shows "on_segment s now cfg d = Some (update_open [ack_segment (took_data s now d)], took_data s now d)"
    and "conn_inv cfg (took_data s now d)"
    and "available_window (took_data s now d) = available_window d - length (seg_payload s)"
proof -
  let ?d = "update_remote_window (seg_window s) now (d\<lparr>duplicate_acks := 0\<rparr>)"
  have inv_d: "recv_inv d" "receive_capacity d = receive_buffer cfg" "receive_buffer cfg \<le> u16_max"
    using inv by (auto simp: conn_inv_def phase_inv_def param_inv_def recv_inv_def)
  have p: "process_ack s (send_nxt d) now cfg d = Some ((False, []), ?d)"
    using idle_una [OF inv d(2)] s(3)
    by (simp add: process_ack_def Let_def apply_ack_def after_def before_def is_duplicate_ack_candidate_def no_outcome_def
        in_closed_interval_def)
  have re: "reassembly d = []" using d(2) by (simp add: idle_def)
  have win: "available_window d = receive_buffer cfg - length (recv_queue d)" "available_window ?d = available_window d"
    using inv_d re by (simp add: available_window_eq) (simp add: available_window_def)
  have "length (seg_payload s) + length (recv_queue d) \<le> receive_buffer cfg"
    using s(3,5) win(1) by (cases "seg_payload s") auto
  then have "receive_stream_data s now cfg ?d = ([ack_segment (took_data s now d)], took_data s now d)"
    using receive_in_order [of ?d s cfg now] re s win inv_d valid
    by (simp add: took_data_def u16_max_def valid_config_def)
  moreover have "flush_data now (took_data s now d) = Some ([], took_data s now d)"
    using d(2) by (intro flush_nothing) (simp_all add: idle_def)
  ultimately show o: "on_segment s now cfg d = Some (update_open [ack_segment (took_data s now d)], took_data s now d)"
    using d(1) s p by (auto simp: on_segment_def on_synchronized_def receives_data_def receive_if_data_def has_stream_data_def)
  show inv': "conn_inv cfg (took_data s now d)"
    using conn_step_effect [OF inv step_segment [OF o]] by (simp add: update_open_def)
  have "recv_inv (took_data s now d)" using inv' by (simp add: conn_inv_def phase_inv_def)
  moreover have "receive_capacity (took_data s now d) = receive_buffer cfg" using inv_d by (simp add: took_data_def)
  ultimately show "available_window (took_data s now d) = available_window d - length (seg_payload s)"
    using win(1) by (simp add: available_window_eq)
qed

section \<open>The sender's side\<close>

text \<open>The segment that sends the oldest part of the flight again.\<close>

definition resends :: "'p connection \<Rightarrow> segment \<Rightarrow> bool" where
  "resends c s \<longleftrightarrow> (case unacked c of [] \<Rightarrow> False
     | t # ts \<Rightarrow> seg_seq s = trk_seq t \<and> seg_flags s = trk_flags t \<and> seg_payload s = trk_payload t \<and>
         (contains (trk_flags t) ACK \<longrightarrow> seg_ack s = Some (recv_nxt c)))"

lemma retransmit_resends:
  assumes "unacked c = t # ts" "transmissions t < max_transmissions c"
  obtains s t' where "fst (retransmit_oldest now b c) = Some s" "resends (snd (retransmit_oldest now b c)) s"
    "unacked (snd (retransmit_oldest now b c)) = t' # ts"
    "rto_recovery_until (snd (retransmit_oldest now b c)) = rto_recovery_until c"
proof -
  let ?t = "t\<lparr>sent_at_ms := now, transmissions := sat_add8 (transmissions t) 1\<rparr>"
  obtain s where s: "fst (retransmit_oldest now b c) = Some s" "seg_seq s = trk_seq t" "seg_flags s = trk_flags t"
      "seg_payload s = trk_payload t" "contains (trk_flags t) ACK \<Longrightarrow> seg_ack s = Some (recv_nxt c)"
      "unacked (snd (retransmit_oldest now b c)) = ?t # ts" "rto_recovery_until (snd (retransmit_oldest now b c)) = rto_recovery_until c"
    using assms by (simp add: retransmit_oldest_def Let_def)
  then show thesis by (intro that [of s ?t]) (simp_all add: resends_def)
qed

text \<open>The acknowledgment of exactly the oldest segment.\<close>

lemma open_flightD:
  assumes "phase_inv Open cfg c" "unacked c = t # ts"
  shows "trk_seq t = send_una c" "data_seg t" "chain (trk_end_seq t) ts (send_nxt c)" "list_all data_seg ts"
    "trk_len t + flight ts \<le> u16_max" "0 < trk_len t" "trk_end_seq t = seq_at (send_una c) (trk_len t)"
  using assms trk_len_pos [of t] by (auto simp: phase_inv_def send_ok_def trk_end_seq_len)

lemma flight_data: "list_all data_seg ts \<Longrightarrow> 0 < flight ts \<longleftrightarrow> ts \<noteq> []"
  using trk_len_pos by (cases ts) auto

lemma pop_one:
  assumes "phase_inv Open cfg c" "unacked c = t # ts"
  shows "\<exists>sample. pop_acked (rtt c) (trk_end_seq t) now 0 False None (t # ts) = (length (trk_payload t), False, sample, ts)"
    and "trim_front (trk_end_seq t) ts = (0, ts)"
proof -
  note o = open_flightD [OF assms]
  have ch: "chain (send_una c) (t # ts) (send_nxt c)" using o(1,3) by simp
  have fl: "flight (t # ts) < 2 ^ 31" "trk_len t \<le> flight (t # ts)" using o(5) by (simp_all add: u16_max_def)
  obtain popped rest sample where p: "t # ts = popped @ rest"
    "pop_acked (rtt c) (seq_at (send_una c) (trk_len t)) now 0 False None (t # ts) =
        (0 + length (queued_bytes popped), False \<or> list_ex (\<lambda>t. contains (trk_flags t) FIN) popped, sample, rest)"
    "flight popped \<le> trk_len t" "rest \<noteq> [] \<longrightarrow> trk_len t < flight popped + trk_len (hd rest)"
    using pop_acked_split [OF ch fl] by blast
  obtain p2 where p2: "popped = t # p2" "ts = p2 @ rest" using p(1,4) by (cases popped) auto
  have "list_all data_seg p2" using o(4) p2(2) by simp
  then have "p2 = []" using flight_data [of p2] p(3) p2(1) by simp
  then show "\<exists>sample. pop_acked (rtt c) (trk_end_seq t) now 0 False None (t # ts) = (length (trk_payload t), False, sample, ts)"
    using p(2) p2 kinds_flags(1) [OF o(2)] o(7) by auto
  show "trim_front (trk_end_seq t) ts = (0, ts)" using o(3) by (cases ts) auto
qed

lemma oldest_acked:
  assumes inv: "phase_inv Open cfg c" and un: "unacked c = t # ts"
    and until: "rto_recovery_until c = Some (send_nxt c) \<or> rto_recovery_until c = None"
  shows "\<exists>c1. apply_ack (trk_end_seq t) now d c = Some (no_outcome, c1) \<and> ack_frame c c1 \<and> unacked c1 = ts \<and>
    send_una c1 = trk_end_seq t \<and> rto_recovery_until c1 = (if ts = [] then None else rto_recovery_until c) \<and>
    accepted_payload_bytes (send_progress c1) = accepted_payload_bytes (send_progress c) \<and>
    connection_token (send_progress c1) = connection_token (send_progress c)"
proof -
  note o = open_flightD [OF inv un]
  have ch: "chain (send_una c) (t # ts) (send_nxt c)" using o(1,3) by simp
  have "distance (send_una c) (trk_end_seq t) = trk_len t"
    unfolding o(7) using distance_seq_at [of 0 "trk_len t" "send_una c"] o(5) by (simp add: u16_max_def)
  then have acc: "\<not> after (trk_end_seq t) (send_nxt c)" "\<not> before (trk_end_seq t) (send_una c)" "trk_end_seq t \<noteq> send_una c"
    using acceptable_ack [OF ch, of "trk_end_seq t"] o(5,6) by (auto simp: u16_max_def)
  obtain sample where p: "pop_acked (rtt c) (trk_end_seq t) now 0 False None (t # ts) = (length (trk_payload t), False, sample, ts)"
    using pop_one(1) [OF inv un] by blast
  have "before (trk_end_seq t) (send_nxt c) \<longleftrightarrow> ts \<noteq> []"
    using chain_end [OF o(3)] before_seq_at [of 0 "flight ts" "trk_end_seq t"] flight_data [OF o(4)] o(5)
    by (simp add: u16_max_def)
  moreover have "acked_payload_bytes (send_progress c) + length (trk_payload t) \<le> u128_max"
    using inv un by (auto simp: inv_defs)
  ultimately show ?thesis
    using p pop_one(2) [OF inv un] acc until
    by (auto simp: apply_ack_def apply_new_ack_def un progress_acknowledge_def checked_add_def ack_frame_def no_outcome_def)
qed

text \<open>
  A sender that repairs its flight: the oldest segment has just been sent again, the others still may be.
\<close>

definition repairing :: "config \<Rightarrow> 'p connection \<Rightarrow> bool" where
  "repairing cfg c \<longleftrightarrow> conn_inv cfg c \<and> (state c = Established \<or> state c = CloseWait) \<and> send_queue c = [] \<and>
     \<not> close_requested c \<and> rto_recovery_until c = Some (send_nxt c) \<and>
     (\<forall>t \<in> set (tl (unacked c)). transmissions t < max_retransmissions cfg)"

lemma flush_closed: "send_queue c = [] \<Longrightarrow> \<not> close_requested c \<Longrightarrow> flush_data now c = Some ([], c)"
  by (rule flush_nothing)

lemma ack_repairs:
  assumes rep: "repairing cfg c" and un: "unacked c = t # ts"
    and a: "seg_flags a = ACK" "seg_payload a = []" "seg_ack a = Some (trk_end_seq t)" "seg_window a \<noteq> 0"
  obtains out c' where "on_segment a now cfg c = Some (update_open out, c')" "conn_inv cfg c'" "state c' = state c"
    "send_una c' = trk_end_seq t" "send_nxt c' = send_nxt c" "recv_nxt c' = recv_nxt c" "same_segments ts (unacked c')"
    "ts = [] \<Longrightarrow> out = [] \<and> rto_recovery_until c' = None"
    "ts \<noteq> [] \<Longrightarrow> repairing cfg c' \<and> (\<exists>s. out = [s] \<and> resends c' s)"
proof -
  note r = rep [unfolded repairing_def]
  have st: "state c = Established \<or> state c = CloseWait" and ph: "phase_inv Open cfg c"
    using r by (auto simp: conn_inv_def)
  define d where "d = is_duplicate_ack_candidate a (send_una c) (remote_window c)"
  obtain c1 where ack: "apply_ack (trk_end_seq t) now d c = Some (no_outcome, c1)"
    and c1: "ack_frame c c1" "unacked c1 = ts" "send_una c1 = trk_end_seq t"
      "rto_recovery_until c1 = (if ts = [] then None else Some (send_nxt c))"
    using oldest_acked [OF ph un, of now d] r by auto
  note f = c1(1) [unfolded ack_frame_def]
  note o = open_flightD [OF ph un]
  have adv: "after (trk_end_seq t) (send_una c)"
    using before_seq_at [of 0 "trk_len t" "send_una c"] o(5-7) by (simp add: after_def u16_max_def)
  have int: "in_closed_interval (trk_end_seq t) (trk_end_seq t) (send_nxt c)"
    using acceptable_ack [OF o(3), of "trk_end_seq t"] o(5) by (simp add: in_closed_interval_def u16_max_def)
  let ?c2 = "update_remote_window (seg_window a) now c1"
  let ?rep = "repair_timed_out_flight now cfg ?c2"
  have p: "process_ack a (trk_end_seq t) now cfg c =
      Some ((False, case fst ?rep of None \<Rightarrow> [] | Some s \<Rightarrow> [s]), snd ?rep)"
    using ack adv int f c1(3) by (simp add: process_ack_def Let_def d_def [symmetric] no_outcome_def)
  have until: "rto_recovery_until ?c2 = rto_recovery_until c1" by (simp add: update_remote_window_def Let_def)
  have frame: "state (snd ?rep) = state c" "send_una (snd ?rep) = trk_end_seq t" "send_nxt (snd ?rep) = send_nxt c"
    "recv_nxt (snd ?rep) = recv_nxt c" "send_queue (snd ?rep) = []" "\<not> close_requested (snd ?rep)"
    "same_segments ts (unacked (snd ?rep))"
    using f r c1(2,3) repair_frame [of now cfg ?c2] retransmit_same_segments [of ?c2 now False] same_segments_refl [of ts]
    by auto
  let ?out = "case fst ?rep of None \<Rightarrow> [] | Some s \<Rightarrow> [s]"
  have o: "on_segment a now cfg c = Some (update_open ?out, snd ?rep)"
    using st a p flush_nothing [OF frame(5,6), of now]
    by (auto simp: on_segment_def on_synchronized_def receive_if_data_def has_stream_data_def)
  have inv: "conn_inv cfg (snd ?rep)"
    using conn_step_effect [of cfg c "snd ?rep"] step_segment [OF o] r by (simp add: update_open_def)
  show thesis
  proof (rule that [OF o inv frame(1-4,7)])
    show "?out = [] \<and> rto_recovery_until (snd ?rep) = None" if "ts = []"
      using c1(2,4) that until by (simp add: repair_timed_out_flight_def)
    show "repairing cfg (snd ?rep) \<and> (\<exists>s. ?out = [s] \<and> resends (snd ?rep) s)" if ne: "ts \<noteq> []"
    proof -
      obtain u us where ts: "ts = u # us" using ne by (cases ts) auto
      have lt: "transmissions u < max_transmissions ?c2" "transmissions u < max_retransmissions cfg"
        using r f un ts ph by (auto simp: phase_inv_def param_inv_def)
      have un2: "unacked ?c2 = u # us" using c1(2) ts by simp
      obtain s t' where s: "fst (retransmit_oldest now False ?c2) = Some s"
        "resends (snd (retransmit_oldest now False ?c2)) s" "unacked (snd (retransmit_oldest now False ?c2)) = t' # us"
        "rto_recovery_until (snd (retransmit_oldest now False ?c2)) = rto_recovery_until ?c2"
        by (rule retransmit_resends [OF un2 lt(1)])
      have w: "unat (seg_window a) \<noteq> 0" using a(4) by (simp add: unat_eq_0)
      have e: "?rep = retransmit_oldest now False ?c2"
        using c1(2,4) ts w lt(2) until by (simp add: repair_timed_out_flight_def)
      have "repairing cfg (snd ?rep)"
        using inv frame s(3,4) st r un ts until c1(4) unfolding e repairing_def by auto
      then show ?thesis using s(1,2) unfolding e by simp
    qed
  qed
qed

section \<open>The whole repair\<close>

text \<open>
  The two sides answer each other until one has nothing to say: the segments of the first are
  delivered to the second, and what it answers to the first; \<open>clock\<close> gives the time of each round.
\<close>

fun exchange :: "nat \<Rightarrow> (nat \<Rightarrow> nat) \<Rightarrow> config \<Rightarrow> config \<Rightarrow> segment list \<Rightarrow> 'p connection \<Rightarrow> 'q connection
     \<Rightarrow> ('p connection \<times> 'q connection) option" where
  "exchange 0 clock cx cy segs c d = None"
| "exchange (Suc n) clock cx cy segs c d =
     (if segs = [] then Some (c, d)
      else case deliver_all (clock n) cy segs d of
             None \<Rightarrow> None
           | Some (answers, d') \<Rightarrow>
               (case deliver_all (clock n) cx answers c of
                  None \<Rightarrow> None
                | Some (segs', c') \<Rightarrow> exchange n clock cx cy segs' c' d'))"

lemma exchange_repairs:
  assumes "repairing cx c" "resends c s" "conn_inv cy d" "valid_config cy" "receives_data d" "idle d"
    "recv_nxt d = send_una c" "recv_nxt c = send_nxt d" "flight (unacked c) < available_window d"
  shows "\<exists>c' d'. exchange (Suc (length (unacked c))) clock cx cy [s] c d = Some (c', d') \<and> unacked c' = [] \<and>
    send_una c' = send_nxt c \<and> rto_recovery_until c' = None \<and>
    recv_queue d' = recv_queue d @ queued_bytes (unacked c) \<and> recv_nxt d' = send_nxt c"
  using assms
proof (induction "length (unacked c)" arbitrary: c d s)
  case 0
  then show ?case by (simp add: resends_def)
next
  case (Suc n)
  obtain t ts where un: "unacked c = t # ts" and n: "n = length ts" using Suc.hyps(2) by (cases "unacked c") auto
  have ph: "phase_inv Open cx c" using Suc.prems(1) by (auto simp: repairing_def conn_inv_def)
  note o = open_flightD [OF ph un]
  have len: "length (trk_payload t) = trk_len t" using o(2) by (simp add: trk_len_kinds)
  have s: "seg_flags s = ACK OR PSH" "seg_seq s = recv_nxt d" "seg_payload s \<noteq> []" "seg_ack s = Some (send_nxt d)"
      "length (seg_payload s) \<le> available_window d" "seg_payload s = trk_payload t"
    using Suc.prems(2,7-9) o(1,2) len by (simp_all add: resends_def un data_seg_def)
  define d1 where "d1 = took_data s (clock (Suc n)) d"
  note arr = data_arrives [OF Suc.prems(3-6) s(1-5), of "clock (Suc n)", folded d1_def]
  let ?a = "ack_segment d1"
  have a: "seg_flags ?a = ACK" "seg_payload ?a = []" "seg_ack ?a = Some (trk_end_seq t)"
    using o(7) Suc.prems(7) s(6) len by (simp_all add: ack_segment_def d1_def seq_at_def)
  have "recv_inv d1" using arr(2) by (simp add: conn_inv_def phase_inv_def)
  then have "unat (seg_window ?a) = available_window d1"
    by (simp add: ack_segment_def available_window_u16_exact)
  moreover have win: "flight ts < available_window d1" using arr(3) Suc.prems(9) un s(6) len by simp
  ultimately have "seg_window ?a \<noteq> 0" by (metis not_less_zero unat_0)
  from ack_repairs [OF Suc.prems(1) un a this]
  obtain out c1 where c1: "on_segment ?a (clock (Suc n)) cx c = Some (update_open out, c1)" "conn_inv cx c1" "state c1 = state c"
    "send_una c1 = trk_end_seq t" "send_nxt c1 = send_nxt c" "recv_nxt c1 = recv_nxt c" "same_segments ts (unacked c1)"
    "ts = [] \<Longrightarrow> out = [] \<and> rto_recovery_until c1 = None"
    "ts \<noteq> [] \<Longrightarrow> repairing cx c1 \<and> (\<exists>s. out = [s] \<and> resends c1 s)"
    by metis
  have round: "exchange (Suc (Suc n)) clock cx cy [s] c d = exchange (Suc n) clock cx cy out c1 d1"
    using arr(1) c1(1) by (simp add: update_open_def)
  have d1: "recv_queue d1 = recv_queue d @ trk_payload t" "recv_nxt d1 = trk_end_seq t" "idle d1" "receives_data d1"
      "send_nxt d1 = send_nxt d"
    using Suc.prems(5-7) s(6) o(7) len by (simp_all add: d1_def idle_def receives_data_def seq_at_def)
  show ?case
  proof (cases "ts = []")
    case True
    then have "unacked c1 = []" using c1(7) by simp
    moreover have "trk_end_seq t = send_nxt c" using o(3) True by simp
    moreover have "exchange (Suc n) clock cx cy out c1 d1 = Some (c1, d1)" using c1(8) True n by simp
    ultimately show ?thesis using round c1(4,8) True d1(1,2) un n by simp
  next
    case False
    then obtain s1 where rep: "repairing cx c1" "out = [s1]" "resends c1 s1" using c1(9) by blast
    have l: "n = length (unacked c1)" using c1(7) n by (simp add: same_segments_def list_all2_lengthD)
    have "\<exists>c' d'. exchange (Suc (length (unacked c1))) clock cx cy [s1] c1 d1 = Some (c', d') \<and> unacked c' = [] \<and>
      send_una c' = send_nxt c1 \<and> rto_recovery_until c' = None \<and>
      recv_queue d' = recv_queue d1 @ queued_bytes (unacked c1) \<and> recv_nxt d' = send_nxt c1"
      using d1(2-5) c1(4-6) Suc.prems(8) same_segments_flight [OF c1(7)] win
      by (intro Suc.hyps(1) [OF l rep(1,3) arr(2) Suc.prems(4)]) simp_all
    then show ?thesis
      using round rep(2) l same_segments_bytes [OF c1(7)] c1(5) d1(1) un n by simp
  qed
qed

lemma timeout_repairs:
  assumes inv: "conn_inv cfg c" and st: "state c = Established \<or> state c = CloseWait" and q: "send_queue c = []" "\<not> close_requested c"
    and un: "unacked c = t # ts" "\<forall>u \<in> set (t # ts). transmissions u < max_retransmissions cfg"
    and now: "retransmit_deadline c t \<le> now" "remote_window c \<noteq> 0" "rto_recovery_until c = None"
  obtains s c1 where "conn_poll now cfg c = Some (update_open [s], c1)" "repairing cfg c1" "resends c1 s"
    "same_segments (t # ts) (unacked c1)" "send_una c1 = send_una c" "send_nxt c1 = send_nxt c" "recv_nxt c1 = recv_nxt c"
proof -
  let ?c = "c\<lparr>rto_recovery_until := Some (send_nxt c), reno := reno_on_timeout (distance (send_una c) (send_nxt c)) (reno c),
      rtt := rtt_on_timeout (rtt c)\<rparr>"
  let ?r = "retransmit_oldest now True ?c"
  have un2: "unacked ?c = t # ts" using un(1) by simp
  have max: "transmissions t < max_transmissions ?c" "transmissions t < max_retransmissions cfg"
    using inv un by (auto simp: conn_inv_def phase_inv_def param_inv_def)
  obtain s t' where s: "fst ?r = Some s" "resends (snd ?r) s" "unacked (snd ?r) = t' # ts"
      "rto_recovery_until (snd ?r) = rto_recovery_until ?c"
    by (rule retransmit_resends [OF un2 max(1)])
  have rto: "on_rto now c = ([s], snd ?r)" using now(3) s(1) by (simp add: on_rto_def Let_def)
  have "close_deadline c = None" using st by (auto simp: close_deadline_def)
  moreover have "flush_data now (snd ?r) = Some ([], snd ?r)" using q by (intro flush_nothing) simp_all
  ultimately have p: "conn_poll now cfg c = Some (update_open [s], snd ?r)"
    using un(1) now(1,2) max(2) rto by (simp add: conn_poll_def poll_flush_def)
  have "conn_inv cfg (snd ?r)" using conn_step_effect [OF inv step_poll [OF p]] by (simp add: update_open_def)
  then have "repairing cfg (snd ?r)" using st q un(2) s(3,4) by (simp add: repairing_def)
  moreover have "same_segments (t # ts) (unacked (snd ?r))"
    using retransmit_same_segments [of ?c now True] un2 by simp
  ultimately show thesis using p s(2) by (intro that [of s "snd ?r"]) simp_all
qed

text \<open>
  C10: One timeout repairs a whole lost flight. When everything a connection has in flight was lost
  and its retransmission timer fires, the poll sends exactly the oldest segment again; if the network
  delivers from then on, each acknowledgment releases one segment and triggers the next
  retransmission, without waiting for another timer, and after as many rounds as there were segments
  nothing is outstanding, the peer has every byte in order, and the recovery is over.
\<close>

theorem lost_flight_repaired:
  assumes "conn_inv cx c" "state c = Established \<or> state c = CloseWait" "send_queue c = []" "\<not> close_requested c"
    and "unacked c = t # ts" "\<forall>u \<in> set (t # ts). transmissions u < max_retransmissions cx"
    and "retransmit_deadline c t \<le> now" "remote_window c \<noteq> 0" "rto_recovery_until c = None"
    and "conn_inv cy d" "valid_config cy" "receives_data d" "idle d"
    and "recv_nxt d = send_una c" "recv_nxt c = send_nxt d" "flight (unacked c) < available_window d"
  shows "\<exists>s c1 c' d'. conn_poll now cx c = Some (update_open [s], c1) \<and>
    exchange (Suc (length (unacked c))) clock cx cy [s] c1 d = Some (c', d') \<and> unacked c' = [] \<and>
    send_una c' = send_nxt c \<and> rto_recovery_until c' = None \<and>
    recv_queue d' = recv_queue d @ queued_bytes (unacked c) \<and> recv_nxt d' = send_nxt c"
proof -
  obtain s c1 where c1: "conn_poll now cx c = Some (update_open [s], c1)" "repairing cx c1" "resends c1 s"
    "same_segments (t # ts) (unacked c1)" "send_una c1 = send_una c" "send_nxt c1 = send_nxt c" "recv_nxt c1 = recv_nxt c"
    by (rule timeout_repairs [OF assms(1-9)])
  note same = same_segments_flight [OF c1(4)] same_segments_bytes [OF c1(4)]
  have "length (unacked c1) = length (unacked c)"
    using list_all2_lengthD [OF c1(4) [unfolded same_segments_def]] assms(5) by simp
  moreover have "recv_nxt d = send_una c1" "recv_nxt c1 = send_nxt d" "flight (unacked c1) < available_window d"
    using assms(5,14-16) c1(5,7) same(1) by simp_all
  ultimately show ?thesis
    using exchange_repairs [OF c1(2,3) assms(10-13), of clock] c1(1,6) same(2) assms(5) by auto
qed

text \<open>A connection that has sent two segments and heard nothing.\<close>

definition example_lost :: "nat connection" where
  "example_lost = example_open\<lparr>send_nxt := 1006,
     unacked := [\<lparr>trk_seq = 1001, trk_flags = ACK OR PSH, trk_payload = [7, 8], sent_at_ms = 30, transmissions = 1\<rparr>,
       \<lparr>trk_seq = 1003, trk_flags = ACK OR PSH, trk_payload = [9, 1, 2], sent_at_ms = 30, transmissions = 1\<rparr>],
     send_progress := (send_progress example_open)\<lparr>accepted_payload_bytes := 5\<rparr>\<rparr>"

lemma example_lost_inv: "conn_inv config_default example_lost"
  by (simp add: example_lost_def example_open_eq example_inv_defs)
    (simp add: u16_max_def u64_max_def u128_max_def)

theorem lost_flight_repaired_witness:
  "\<exists>s c1 c' d'. conn_poll 300 config_default example_lost = Some (update_open [s], c1) \<and>
    exchange 3 (\<lambda>n. 400 - n) config_default config_default [s] c1 example_mirror = Some (c', d') \<and> unacked c' = [] \<and>
    recv_queue d' = [7, 8, 9, 1, 2] \<and> recv_nxt d' = 1006"
proof -
  let ?t = "\<lparr>trk_seq = 1001, trk_flags = ACK OR PSH, trk_payload = [7, 8], sent_at_ms = 30, transmissions = 1\<rparr> :: tracked_segment"
  let ?u = "\<lparr>trk_seq = 1003, trk_flags = ACK OR PSH, trk_payload = [9, 1, 2], sent_at_ms = 30, transmissions = 1\<rparr> :: tracked_segment"
  have c: "state example_lost = Established \<or> state example_lost = CloseWait" "send_queue example_lost = []"
    "\<not> close_requested example_lost" "unacked example_lost = [?t, ?u]"
    "\<forall>u \<in> set [?t, ?u]. transmissions u < max_retransmissions config_default"
    "retransmit_deadline example_lost ?t \<le> 300" "remote_window example_lost \<noteq> 0" "rto_recovery_until example_lost = None"
    by (simp_all add: example_lost_def example_open_eq config_default_def retransmit_deadline_def timeout_ms_def sat_add64_def u64_max_def)
  have d: "receives_data example_mirror" "idle example_mirror" "recv_nxt example_mirror = send_una example_lost"
    "recv_nxt example_lost = send_nxt example_mirror" "flight (unacked example_lost) < available_window example_mirror"
    "Suc (length (unacked example_lost)) = 3" "recv_queue example_mirror @ queued_bytes (unacked example_lost) = [7, 8, 9, 1, 2]"
    "send_nxt example_lost = 1006"
    by (simp_all add: example_mirror_def example_lost_def example_open_eq idle_def receives_data_def available_window_def
        sat_add64_def u64_max_def trk_len_def)
  from lost_flight_repaired [OF example_lost_inv c example_mirror_inv valid_config_default d(1-5), of "\<lambda>n. 400 - n"]
  show ?thesis unfolding d(6-8) by (elim exE conjE) (intro exI conjI)
qed

end
