(* ===== verification/Stack_Props.thy ===== *)
theory Stack_Props
  imports Stack_Run
begin

text \<open>
  Properties of every reachable stack: the table invariant, the totality and the errors of \<open>input\<close>,
  the refinement of the connections, exactly-once \<open>accept\<close>, isolation of the tuples, admission,
  abort, and the send markers.
\<close>

section \<open>Sequences of steps\<close>

lemma stack_steps_effect:
  assumes "stack_step\<^sup>*\<^sup>* ts ts'" "stack_inv H ts"
  shows "stack_inv H ts' \<and> evolves (snd ts) (snd ts')"
  using assms
proof (induction rule: rtranclp_induct)
  case base
  then show ?case using evolves_refl [of H "fst ts" "snd ts"] by simp
next
  case (step u v)
  then show ?case using stack_step_effect [of H u v] evolves_trans by blast
qed

lemma reach_inv: "stack_reach ts \<Longrightarrow> stack_inv {} ts"
  by (rule stack.inv_reach)

lemma past_opening: "phase st \<noteq> Opening \<longleftrightarrow> Established \<le> st"
  by (cases st) (simp_all add: less_eq_tcp_state_def)

section \<open>The invariant and the errors of input\<close>

text \<open>
  C17: In every reachable stack the connection table and the lookup table are inverse to each other,
  every connection satisfies the connection invariant under an identifier that was given out once,
  the limits on connections and on connections per peer hold, the accept queues hold each
  connection once, only for its port and only past its handshake, every queued datagram decodes, and
  the generator of sequence numbers has not run dry.
\<close>

theorem reachable_stack_inv: "stack_reach ts \<Longrightarrow> stack_inv {} ts"
  by (rule stack.inv_reach)

theorem reachable_stack_inv_witness: "stack_inv {} (1, example_stack)"
  by (rule reachable_stack_inv [OF example_stack_reach])

text \<open>
  C3: \<open>Stack::input\<close> is total and its errors are harmless: for any bytes from any peer it returns, the
  stack is again consistent, and it reports an error only for bytes that do not decode or when a
  connection limit is reached, and then nothing in the stack has changed.
\<close>

theorem input_total:
  assumes "stack_reach (token, s)" "token < u64_max"
  shows "\<exists>r t. input p bs now (token, s) = Some (r, t) \<and> stack_inv {} t \<and>
    (case r of Inr u \<Rightarrow> \<exists>seg. decode bs = Inr seg
     | Inl e \<Rightarrow> t = (token, s) \<and> (e = ConnectionLimit \<or> (\<exists>w. e = Wire w \<and> decode bs = Inl w)))"
  using input_effect [OF reach_inv [OF assms(1)] assms(2), of p bs now] by blast

theorem input_total_witness:
  "\<exists>r t. input 5 (wire_bytes example_syn) 0 (1, example_stack) = Some (r, t) \<and> stack_inv {} t \<and>
    (case r of Inr u \<Rightarrow> \<exists>seg. decode (wire_bytes example_syn) = Inr seg
     | Inl e \<Rightarrow> t = (1, example_stack) \<and>
         (e = ConnectionLimit \<or> (\<exists>w. e = Wire w \<and> decode (wire_bytes example_syn) = Inl w)))"
  by (rule input_total [OF example_stack_reach]) (simp add: u64_max_def)

text \<open>
  C4: The stack refines a family of independent connections: whatever calls the stack receives, a
  connection that is still there has evolved only by connection steps, one that is new is a
  reachable connection, and the configuration is fixed.
\<close>

theorem stack_refines_connections:
  assumes "stack_reach (token, s)" "stack_step\<^sup>*\<^sup>* (token, s) (token', t)" "get_conn cid t = Some c'"
  shows "(if cid < next_connection_id s
      then \<exists>c. get_conn cid s = Some c \<and> (conn_step (config s))\<^sup>*\<^sup>* c c'
      else conn_reach (config s) c') \<and> config t = config s"
proof -
  have "evolves s t" using stack_steps_effect [OF assms(2) reach_inv [OF assms(1)]] by simp
  from evolvesD(1) [OF this] evolvesD(3,4) [OF this assms(3)] show ?thesis by simp
qed

theorem stack_refines_connections_witness:
  "(if 1 < next_connection_id client_stack
      then \<exists>c. get_conn 1 client_stack = Some c \<and> (conn_step (config client_stack))\<^sup>*\<^sup>* c example_open
      else conn_reach (config client_stack) example_open) \<and> config open_stack = config client_stack"
  by (rule stack_refines_connections [OF client_stack_reach r_into_rtranclp [of stack_step, OF open_stack_step]]) simp

text \<open>
  An identifier names one connection for ever: the identifier that \<open>connect\<close> returns was not in
  use, and once a connection is gone its identifier never comes back, so that a stale identifier
  cannot reach another connection.
\<close>

theorem identifiers_never_reused:
  assumes "stack_reach (token, s)" "stack_step\<^sup>*\<^sup>* (token, s) (token', t)"
    and "cid < next_connection_id s" "get_conn cid s = None"
  shows "get_conn cid t = None"
proof -
  have "evolves s t" using stack_steps_effect [OF assms(2) reach_inv [OF assms(1)]] by simp
  from evolvesD(3) [OF this _ assms(3)] assms(4) show ?thesis by (cases "get_conn cid t") auto
qed

theorem identifiers_never_reused_witness:
  "\<exists>s. abort 1 client_stack = (Inr (), s) \<and> get_conn 1 client_stack = Some example_client \<and>
     get_conn 1 (close_listener 80 s) = None"
proof -
  note a = abort_effect(3) [OF reach_inv [OF client_stack_reach], of 1 example_client]
  let ?s = "snd (abort 1 client_stack)"
  have e: "abort 1 client_stack = (Inr (), ?s)" using a by (simp add: prod_eq_iff)
  then have r: "stack_reach (2, ?s)" by (rule reach_step [OF client_stack_reach do_abort])
  have gone: "get_conn 1 ?s = None" using a by simp
  have "1 < next_connection_id ?s"
    using evolvesD(2) [OF conjunct2 [OF abort_effect(1) [OF reach_inv [OF client_stack_reach], of 1]]] by simp
  from identifiers_never_reused [OF r r_into_rtranclp [of stack_step, OF do_close_listener [of 2 ?s 80]] this gone]
  show ?thesis using e by auto
qed

text \<open>
  C23: \<open>accept\<close> hands out each connection at most once: the connection it returns belongs to the
  listening port and has completed its handshake, and no later \<open>accept\<close> on any port returns it
  again.
\<close>

theorem accept_once:
  assumes "stack_reach (token, s)" "accept port s = (Some cid, s1)"
    and "stack_step\<^sup>*\<^sup>* (token, s1) (token', t)" "accept port' t = (found, t')"
  shows "(\<exists>c. get_conn cid s = Some c \<and> local_port c = port \<and> Established \<le> state c) \<and> found \<noteq> Some cid"
proof -
  from accept_effect [OF reach_inv [OF assms(1)] assms(2)]
  have a: "stack_inv {cid} (token, s1)"
    "\<exists>c. get_conn cid s = Some c \<and> local_port c = port \<and> phase (state c) \<noteq> Opening" by auto
  have "stack_inv {cid} (token', t)" using stack_steps_effect [OF assms(3) a(1)] by simp
  from accept_effect [OF this assms(4)] have "found \<noteq> Some cid" by auto
  with a(2) show ?thesis by (simp add: past_opening)
qed

theorem accept_once_witness:
  "\<exists>s1. accept 80 accepted_stack = (Some 1, s1) \<and>
     (\<exists>c. get_conn 1 accepted_stack = Some c \<and> local_port c = 80 \<and> Established \<le> state c) \<and>
     fst (accept 80 s1) \<noteq> Some 1"
proof -
  obtain s1 where s1: "accept 80 accepted_stack = (Some 1, s1)"
    using accepted_stack_accept [of "7 :: nat"] by (rule exE)
  have "accept 80 s1 = (fst (accept 80 s1), snd (accept 80 s1))" by simp
  from accept_once [OF accepted_stack_reach s1 rtranclp.rtrancl_refl this] s1 show ?thesis by blast
qed

text \<open>Closing a listener drops its accept queue, so what waited there counts as handed out.\<close>

lemma close_listener_drops:
  assumes "stack_inv {} (token, s)" "accepts s port = Some q" "cid \<in> set q" "get_conn cid s = Some c"
  shows "stack_inv {cid} (token, close_listener port s)" "local_port c = port" "phase (state c) \<noteq> Opening"
proof -
  note ok = stack_invD(8) [OF assms(1)]
  show c: "local_port c = port" "phase (state c) \<noteq> Opening"
    using ok assms(2,3,4) by (auto simp: accepts_ok_def)
  have "cid \<notin> set r" if "accepts s port' = Some r" "port' \<noteq> port" for port' r
    using ok that assms(4) c(1) by (auto simp: accepts_ok_def)
  moreover have "cid < next_connection_id s" using ok assms(2,3) by (auto simp: accepts_ok_def)
  ultimately have "accepts_ok {cid} (close_listener port s)"
    using ok assms(4) c(2) by (auto simp: accepts_ok_def close_listener_def get_conn_def split: if_splits)
  moreover have "stack_inv {} (token, close_listener port s)" by (rule close_listener_effect [OF assms(1)])
  ultimately show "stack_inv {cid} (token, close_listener port s)" by (simp add: stack_inv_def)
qed

text \<open>
  C24: \<open>close_listener\<close> orphans the connections that wait to be accepted: their handshake is complete
  and they stay in the table, where they count against the limits and the peer can use them, but
  whatever the stack is asked afterwards, a new \<open>listen\<close> on the port included, no \<open>accept\<close> returns
  them. The application never learns the identifier it would need to abort them.
\<close>

theorem closed_listener_orphans:
  assumes "stack_reach (token, s)" "accepts s port = Some q" "cid \<in> set q" "get_conn cid s = Some c"
    and "stack_step\<^sup>*\<^sup>* (token, close_listener port s) (token', t)" "accept port' t = (found, t')"
  shows "connections (close_listener port s) = connections s \<and> local_port c = port \<and> Established \<le> state c \<and>
    found \<noteq> Some cid"
proof -
  note drop = close_listener_drops [OF reach_inv [OF assms(1)] assms(2,3,4)]
  have "stack_inv {cid} (token', t)" using stack_steps_effect [OF assms(5) drop(1)] by simp
  from accept_effect [OF this assms(6)] have "found \<noteq> Some cid" by auto
  with drop(2,3) show ?thesis by (simp add: past_opening close_listener_def)
qed

theorem closed_listener_orphans_witness:
  "\<exists>s. listen 80 (close_listener 80 accepted_stack) = (Inr (), s) \<and> fst (accept 80 accepted_stack) = Some 1 \<and>
     get_conn 1 s = Some (reading 7) \<and> fst (accept 80 s) \<noteq> Some 1"
proof -
  let ?c = "close_listener 80 accepted_stack"
  let ?s = "snd (listen 80 ?c)"
  have l: "listen 80 ?c = (Inr (), ?s)" by (simp add: listen_def close_listener_def)
  have queue: "accepts accepted_stack 80 = Some [1]"
    unfolding accepted_stack_input(2) by (simp add: push_accept_def)
  have steps: "stack_step\<^sup>*\<^sup>* (2, ?c) (2, ?s)" by (rule r_into_rtranclp [of stack_step, OF do_listen [OF l]])
  have "accept 80 ?s = (fst (accept 80 ?s), snd (accept 80 ?s))" by simp
  from closed_listener_orphans [OF accepted_stack_reach queue _ _ steps this, of 1 "reading 7"]
  have "connections ?c = connections accepted_stack" "fst (accept 80 ?s) \<noteq> Some 1" by simp_all
  moreover have "connections ?s = connections ?c" by (simp add: listen_def close_listener_def)
  ultimately show ?thesis using l accepted_stack_accept [of "7 :: nat"] accepted_stack_simps [of 1 7]
    by (auto simp: get_conn_def)
qed

section \<open>Isolation of the tuples\<close>

text \<open>What a call on behalf of one peer does to the rest: \<open>touches p cid s t\<close>.\<close>

definition touches :: "'p \<Rightarrow> connection_id option \<Rightarrow> 'p stack \<Rightarrow> 'p stack \<Rightarrow> bool" where
  "touches p cid s t \<longleftrightarrow>
     (\<forall>other. Some other \<noteq> cid \<longrightarrow> get_conn other t = get_conn other s) \<and>
     (\<exists>xs. outbound t = outbound s @ xs \<and> (\<forall>x \<in> set xs. out_peer x = p))"

lemma touches_refl: "touches p cid s s"
  by (simp add: touches_def)

lemma touches_trans: "touches p cid s t \<Longrightarrow> touches p cid t u \<Longrightarrow> touches p cid s u"
  by (auto simp: touches_def)

lemma emit_all_touches: "touches p cid s (snd (emit_all p segs s))"
proof (induction segs arbitrary: s)
  case (Cons x segs)
  show ?case
  proof (cases "encode x")
    case (Inr bs)
    have "touches p cid s (s\<lparr>outbound := outbound s @ [\<lparr>out_peer = p, out_bytes = bs\<rparr>]\<rparr>)"
      by (simp add: touches_def)
    with touches_trans [OF this Cons.IH] Inr show ?thesis by simp
  qed (simp add: touches_refl)
qed (simp add: touches_refl)

lemma emit_touches:
  "(\<And>c. get_conn cid' s = Some c \<Longrightarrow> peer c = p) \<Longrightarrow> touches p cid s (snd (emit cid' segs s))"
  by (auto simp: emit_def emit_all_touches touches_refl split: option.split)

lemma put_touches: "touches p (Some cid) s (put_conn cid c s)"
  by (simp add: touches_def)

lemma remove_touches: "touches p (Some cid) s (remove_connection cid s)"
  by (simp add: touches_def remove_connection_table(3))

lemma apply_update_touches:
  assumes "\<And>c. get_conn cid s = Some c \<Longrightarrow> peer c = p"
  shows "touches p (Some cid) s (snd (apply_update cid u s))"
proof -
  have t: "touches p (Some cid) s (snd (emit cid (upd_segments u) s))"
    using assms by (rule emit_touches)
  then show ?thesis
    using touches_trans [OF t remove_touches]
    by (auto simp: apply_update_def split: prod.split sum.split)
qed

lemma input_existing_touches:
  assumes inv: "stack_inv H (token, s)" and get: "get_conn cid s = Some c" and p: "peer c = p"
    and i: "input_existing p cid seg now s = Some (r, t)"
  shows "touches p (Some cid) s t"
proof -
  consider (stale) "stale_handshake_ack seg c" | (syn) "\<not> stale_handshake_ack seg c" "unexpected_syn seg c"
    | (deliver) "\<not> stale_handshake_ack seg c" "\<not> unexpected_syn seg c" by blast
  then show ?thesis
  proof cases
    case stale
    then show ?thesis
      using i get emit_all_touches [of p "Some cid" s "[reset_for seg]"]
      by (simp add: input_existing_def emit_reset_def)
  next
    case syn
    then show ?thesis
      using i get emit_touches [of cid s p "Some cid" "[ack_segment c]"] p
      by (simp add: input_existing_def)
  next
    case deliver
    obtain u c' where o: "on_segment seg now (config s) c = Some (u, c')" and id: "identity c' = identity c"
      using on_segment_effect [OF stack_inv_conn(1) [OF inv get], of seg now]
      by (auto simp: finished_def effect_def split: if_splits)
    let ?s1 = "put_conn cid c' s"
    let ?s2 = "if upd_accepted u then push_accept (local_port c') cid ?s1 else ?s1"
    have put: "touches p (Some cid) s ?s2"
      using put_touches [of p cid s c'] by (simp add: touches_def push_accept_def)
    have s2: "get_conn cid ?s2 = Some c'" by (simp add: push_accept_def)
    have upd: "touches p (Some cid) ?s2 (snd (apply_update cid u ?s2))"
      by (rule apply_update_touches) (use s2 conn_key_identity [OF id] p in auto)
    have "apply_update cid u ?s2 = (r, t)"
      using i get deliver o unfolding input_existing_def Let_def by simp
    with touches_trans [OF put upd] show ?thesis by simp
  qed
qed

lemma input_syn_touches:
  assumes i: "input_syn p seg now (token, s) = Some (r, (token', t))"
  shows "touches p (Some (next_connection_id s)) s t"
proof (cases "supports_fips_version seg FIPS_VERSION \<and> ensure_connection_capacity p s = Inr ()")
  case False
  then show ?thesis
    using i emit_all_touches [of p _ s "[reset_for seg]"] capacity_total [of p s] touches_refl
    by (auto simp: input_syn_def emit_reset_def split: if_splits prod.splits)
next
  case True
  let ?cid = "next_connection_id s"
  obtain c segs where c: "conn_server p seg (fst (next_isn s)) now (config s) token = Some ((c, segs), token')"
    and t: "t = snd (emit ?cid segs (put_conn ?cid c (s\<lparr>next_connection_id := max (wrap64 (?cid + 1)) 1,
       isn_state := max (xorshift (isn_state s)) 1, lookup := (lookup s)(\<lparr>key_peer = p,
       key_local_port = seg_dst_port seg, key_remote_port = seg_src_port seg\<rparr> \<mapsto> ?cid)\<rparr>)))"
    using i True by (auto simp: input_syn_def allocate_connection_id_def next_isn_def Let_def
        split: option.splits prod.splits)
  have "peer c = p" using c
    by (auto simp: conn_server_def conn_new_def Let_def send_tracked_def negotiate_mss_def
        update_remote_window_def split: option.splits)
  then have "touches p (Some ?cid) (put_conn ?cid c (s\<lparr>next_connection_id := max (wrap64 (?cid + 1)) 1,
       isn_state := max (xorshift (isn_state s)) 1, lookup := (lookup s)(\<lparr>key_peer = p,
       key_local_port = seg_dst_port seg, key_remote_port = seg_src_port seg\<rparr> \<mapsto> ?cid)\<rparr>)) t"
    unfolding t by (intro emit_touches) simp
  then show ?thesis by (simp add: touches_def)
qed

text \<open>
  C13: Connections are isolated from each other: a datagram of one peer changes only the connection
  of the tuple it is addressed to, or the one it creates; every other connection, in particular every
  connection of another peer, is exactly what it was, and everything the stack sends in response goes
  to the peer the datagram came from.
\<close>

theorem input_isolated:
  assumes "stack_reach (token, s)" "input p bs now (token, s) = Some (r, (token', t))" "decode bs = Inr seg"
  shows "(\<exists>xs. outbound t = outbound s @ xs \<and> (\<forall>x \<in> set xs. out_peer x = p)) \<and>
    (\<forall>cid c. get_conn cid s = Some c \<longrightarrow>
      conn_key c \<noteq> \<lparr>key_peer = p, key_local_port = seg_dst_port seg, key_remote_port = seg_src_port seg\<rparr> \<longrightarrow>
      get_conn cid t = Some c)"
proof -
  note inv = reach_inv [OF assms(1)]
  let ?key = "\<lparr>key_peer = p, key_local_port = seg_dst_port seg, key_remote_port = seg_src_port seg\<rparr>"
  have "\<exists>target. touches p target s t \<and> (\<forall>cid c. get_conn cid s = Some c \<longrightarrow> conn_key c \<noteq> ?key \<longrightarrow> target \<noteq> Some cid)"
  proof (cases "lookup s ?key")
    case (Some other)
    obtain d where d: "get_conn other s = Some d" "conn_key d = ?key"
      using stack_inv_lookup [OF inv Some] by blast
    then have "peer d = p" by (simp add: conn_key_def)
    moreover have "input_existing p other seg now s = Some (r, t)"
      using assms(2,3) Some by (auto simp: input_def split: option.splits)
    ultimately have "touches p (Some other) s t" using input_existing_touches [OF inv d(1)] by blast
    then show ?thesis using d by (intro exI [of _ "Some other"]) auto
  next
    case None
    have fresh: "\<forall>cid c. get_conn cid s = Some c \<longrightarrow> Some (next_connection_id s) \<noteq> Some cid"
      using stack_inv_conn(2) [OF inv] by fastforce
    have "touches p (Some (next_connection_id s)) s t \<or> touches p None s t"
      using assms(2,3) None input_syn_touches [of p seg now token s r token' t]
        emit_all_touches [of p None s "[reset_for seg]"] touches_refl [of p None s]
      by (auto simp: input_def emit_reset_def split: if_splits prod.splits)
    then show ?thesis using fresh by (elim disjE) blast+
  qed
  then obtain target where "touches p target s t"
    and other: "\<And>cid c. get_conn cid s = Some c \<Longrightarrow> conn_key c \<noteq> ?key \<Longrightarrow> Some cid \<noteq> target" by blast
  then show ?thesis by (simp add: touches_def)
qed

text \<open>Peer 9 sends what peer 7 could have sent to the connection of peer 7.\<close>

theorem input_isolated_witness:
  "\<exists>r token t. input 9 (wire_bytes example_syn_ack) 20 (2, client_stack) = Some (r, (token, t)) \<and>
     get_conn 1 t = Some example_client \<and>
     (\<exists>xs. outbound t = outbound client_stack @ xs \<and> (\<forall>x \<in> set xs. out_peer x = 9))"
proof -
  obtain r token t where i: "input 9 (wire_bytes example_syn_ack) 20 (2, client_stack) = Some (r, (token, t))"
    using input_total [OF client_stack_reach, of 9 "wire_bytes example_syn_ack" 20]
    by (auto simp: u64_max_def)
  have good: "good_segment example_syn_ack"
    by (simp add: good_segment_def example_syn_ack_def segment_new_def)
  have "conn_key example_client \<noteq> \<lparr>key_peer = 9, key_local_port = seg_dst_port example_syn_ack,
      key_remote_port = seg_src_port example_syn_ack\<rparr>"
    by (simp add: conn_key_def example_client_eq)
  with input_isolated [OF client_stack_reach i decode_wire_bytes [OF good]] i
  show ?thesis by auto
qed

end
