(* ===== verification/Timer_Props.thy ===== *)
theory Timer_Props
  imports Conn_System
begin

text \<open>
  The timers of a connection: \<open>conn_next_poll_at\<close> names every moment at which \<open>conn_poll\<close> has work,
  a due poll does the work and asks for a later moment, and against a silent peer the retry budget
  ends the connection.
\<close>

section \<open>What a flush adds to the flight\<close>

definition flushes :: "nat \<Rightarrow> 'p connection \<Rightarrow> 'p connection \<Rightarrow> bool" where
  "flushes now c c' \<longleftrightarrow>
     (\<exists>new. unacked c' = unacked c @ new \<and> (\<forall>t \<in> set new. sent_at_ms t = now)) \<and>
     (close_requested c' \<longrightarrow> close_requested c)"

lemma flushes_refl: "flushes now c c"
  by (simp add: flushes_def)

lemma flushes_trans: "flushes now c d \<Longrightarrow> flushes now d e \<Longrightarrow> flushes now c e"
  by (fastforce simp: flushes_def)

lemma flushes_send:
  "close_requested d \<longrightarrow> close_requested c \<Longrightarrow> unacked d = unacked c \<Longrightarrow>
     flushes now c (snd (send_tracked fs p now d))"
  by (simp add: flushes_def)

lemma flush_loop_flushes:
  assumes "flush_loop now out c = Some r"
  shows "flushes now c (snd r)"
proof (rule flush_loop.raw_induct [of "\<lambda>now out c r. flushes now c (snd r)", OF _ assms])
  fix f now out and c :: "'a connection" and r
  assume ih: "\<And>now out c r. f now out c = Some r \<Longrightarrow> flushes now c (snd r)"
    and r: "(let available = send_window c
      in if available = 0 \<or> send_queue c = [] then Some (out, c)
      else let count = min (min available (mss c)) (length (send_queue c));
        payload = take count (send_queue c);
        sent = send_tracked (ACK OR PSH) payload now (c\<lparr>send_queue := drop count (send_queue c)\<rparr>)
      in f now (out @ [fst sent]) (snd sent)) = Some r"
  show "flushes now c (snd r)"
  proof (cases "send_window c = 0 \<or> send_queue c = []")
    case True
    then show ?thesis using r by (auto simp: Let_def flushes_refl)
  next
    case False
    let ?n = "min (min (send_window c) (mss c)) (length (send_queue c))"
    let ?sent = "send_tracked (ACK OR PSH) (take ?n (send_queue c)) now
       (c\<lparr>send_queue := drop ?n (send_queue c)\<rparr>)"
    have "f now (out @ [fst ?sent]) (snd ?sent) = Some r" using r False by (simp add: Let_def)
    then have "flushes now (snd ?sent) (snd r)" by (rule ih)
    moreover have "flushes now c (snd ?sent)" by (rule flushes_send) simp_all
    ultimately show ?thesis by (rule flushes_trans [rotated])
  qed
qed

lemma flush_data_flushes:
  assumes "flush_data now c = Some (out, c')"
  shows "flushes now c c'"
proof (cases "state c \<noteq> Established \<and> state c \<noteq> CloseWait")
  case True
  then show ?thesis using assms by (simp add: flush_data_def flushes_refl)
next
  case False
  obtain out1 c1 where l: "flush_loop now [] c = Some (out1, c1)" "flush_fin now out1 c1 = (out, c')"
    using assms False unfolding flush_data_def by (auto split: option.splits)
  have "flushes now c1 (snd (flush_fin now out1 c1))"
    unfolding flush_fin_def Let_def by (auto simp: flushes_refl intro!: flushes_send simp del: send_tracked_simps)
  then show ?thesis using flushes_trans [OF flush_loop_flushes [OF l(1)]] l(2) by simp
qed

section \<open>The cases of a poll\<close>

lemma probe_payload_pending: "has_probe_payload c \<longleftrightarrow> pending c \<noteq> []"
  by (auto simp: has_probe_payload_def pending_def list_ex_iff queued_bytes_def)

definition zero_work :: "'p connection \<Rightarrow> bool" where
  "zero_work c \<longleftrightarrow> remote_window c = 0 \<and> (close_requested c \<or> pending c \<noteq> [])"

definition probe_deadline :: "nat \<Rightarrow> config \<Rightarrow> 'p connection \<Rightarrow> nat" where
  "probe_deadline now cfg c = (case next_zero_window_probe_ms c of
     Some d \<Rightarrow> d | None \<Rightarrow> sat_add64 now (initial_rto_ms cfg))"

definition close_due :: "nat \<Rightarrow> 'p connection \<Rightarrow> bool" where
  "close_due now c \<longleftrightarrow> (case close_deadline c of None \<Rightarrow> False | Some d \<Rightarrow> d \<le> now)"

definition rto_due :: "nat \<Rightarrow> 'p connection \<Rightarrow> bool" where
  "rto_due now c \<longleftrightarrow> (case unacked c of [] \<Rightarrow> False | t # ts \<Rightarrow> retransmit_deadline c t \<le> now)"

lemma next_poll_at_eq:
  "conn_next_poll_at now cfg c = opt_min (close_deadline c)
     (if zero_work c
      then (if pending c \<noteq> [] \<or> max_retransmissions cfg \<le> zero_window_probes c
        then Some (case next_zero_window_probe_ms c of None \<Rightarrow> now | Some d \<Rightarrow> d) else None)
      else (case unacked c of [] \<Rightarrow> None | t # ts \<Rightarrow> Some (retransmit_deadline c t)))"
  by (simp add: conn_next_poll_at_def transport_deadline_def Let_def probe_payload_pending zero_work_def)

lemma poll_cases:
  obtains (expired) "close_due now c" "conn_poll now cfg c = Some (update_close [], c)"
    | (early) "\<not> close_due now c" "zero_work c" "now < probe_deadline now cfg c"
      "conn_poll now cfg c = Some (update_open [], c\<lparr>next_zero_window_probe_ms := Some (probe_deadline now cfg c)\<rparr>)"
    | (exhausted) "\<not> close_due now c" "zero_work c" "probe_deadline now cfg c \<le> now"
      "max_retransmissions cfg \<le> zero_window_probes c"
      "conn_poll now cfg c = Some (update_close [], c\<lparr>next_zero_window_probe_ms := Some (probe_deadline now cfg c)\<rparr>)"
    | (probe) "\<not> close_due now c" "zero_work c" "probe_deadline now cfg c \<le> now"
      "zero_window_probes c < max_retransmissions cfg"
      "conn_poll now cfg c = Some (poll_zero_window now cfg c)"
    | (quiet) "\<not> close_due now c" "\<not> zero_work c" "\<not> rto_due now c"
      "conn_poll now cfg c = poll_flush now [] c"
    | (budget) t ts where "\<not> close_due now c" "\<not> zero_work c" "unacked c = t # ts"
      "retransmit_deadline c t \<le> now" "max_retransmissions cfg \<le> transmissions t"
      "conn_poll now cfg c = Some (update_close [], c)"
    | (rto) t ts where "\<not> close_due now c" "\<not> zero_work c" "unacked c = t # ts"
      "retransmit_deadline c t \<le> now" "transmissions t < max_retransmissions cfg"
      "conn_poll now cfg c = poll_flush now (fst (on_rto now c)) (snd (on_rto now c))"
proof (cases "close_due now c")
  case True
  then show thesis by (intro expired) (simp_all add: conn_poll_def close_due_def)
next
  case open_: False
  then have c0: "\<not> (case close_deadline c of None \<Rightarrow> False | Some d \<Rightarrow> d \<le> now)"
    by (simp add: close_due_def)
  show thesis
  proof (cases "zero_work c")
    case True
    then have p: "conn_poll now cfg c = Some (poll_zero_window now cfg c)"
      using c0 by (simp add: conn_poll_def zero_work_def probe_payload_pending)
    consider "now < probe_deadline now cfg c"
      | "probe_deadline now cfg c \<le> now" "max_retransmissions cfg \<le> zero_window_probes c"
      | "probe_deadline now cfg c \<le> now" "zero_window_probes c < max_retransmissions cfg" by linarith
    then show thesis
    proof cases
      case 1
      then show thesis using early [OF open_ True] p
        by (simp add: poll_zero_window_def Let_def probe_deadline_def [symmetric])
    next
      case 2
      then show thesis using exhausted [OF open_ True] p
        by (simp add: poll_zero_window_def Let_def probe_deadline_def [symmetric])
    next
      case 3
      then show thesis using probe [OF open_ True] p by blast
    qed
  next
    case False
    then have p: "conn_poll now cfg c = (case unacked c of [] \<Rightarrow> poll_flush now [] c
        | oldest # rest \<Rightarrow> if retransmit_deadline c oldest \<le> now
            then (if max_retransmissions cfg \<le> transmissions oldest then Some (update_close [], c)
                  else (case on_rto now c of (segments, c1) \<Rightarrow> poll_flush now segments c1))
            else poll_flush now [] c)"
      using c0 False unfolding conn_poll_def zero_work_def probe_payload_pending by (simp only: if_False)
    show thesis
    proof (cases "unacked c")
      case Nil
      then show thesis using quiet [OF open_ False] p by (simp add: rto_due_def)
    next
      case (Cons t ts)
      consider "now < retransmit_deadline c t"
        | "retransmit_deadline c t \<le> now" "max_retransmissions cfg \<le> transmissions t"
        | "retransmit_deadline c t \<le> now" "transmissions t < max_retransmissions cfg" by linarith
      then show thesis
      proof cases
        case 1
        then show thesis using quiet [OF open_ False] p Cons by (simp add: rto_due_def)
      next
        case 2
        then show thesis using budget [OF open_ False Cons] p Cons by simp
      next
        case 3
        then show thesis using rto [OF open_ False Cons] p Cons by (simp add: split_beta)
      qed
    qed
  qed
qed

text \<open>The flush that ends most polls.\<close>

lemma poll_flush_cases:
  assumes inv: "conn_inv cfg c" and p: "poll_flush now segs c = Some (u, c')"
  obtains out where "flush_data now c = Some (out, c')" "u = update_open (segs @ out)" "conn_inv cfg c'"
    "flush_frame c c'" "pending c' = pending c" "fin_sent (state c) (state c')" "flushes now c c'"
proof -
  obtain out d where f: "flush_data now c = Some (out, d)" "conn_inv cfg d" "flush_frame c d"
    "pending d = pending c" "fin_sent (state c) (state d)"
    using flush_data_inv [OF inv, of now] by blast
  then have "d = c'" "u = update_open (segs @ out)" using p by (auto simp: poll_flush_def)
  with f flush_data_flushes [OF f(1)] show thesis by (intro that) auto
qed

lemma flush_keeps_zero_work: "flush_frame c c' \<Longrightarrow> pending c' = pending c \<Longrightarrow> flushes now c c' \<Longrightarrow>
    \<not> zero_work c \<Longrightarrow> \<not> zero_work c'"
  by (auto simp: zero_work_def flush_frame_def flushes_def)

lemma flush_keeps_close: "flush_frame c c' \<Longrightarrow> fin_sent (state c) (state c') \<Longrightarrow>
    close_deadline c' = None \<or> close_deadline c' = close_deadline c"
  by (auto simp: close_deadline_def flush_frame_def fin_sent_def split: tcp_state.split)

text \<open>A retransmission timeout.\<close>

lemma on_rto_effect:
  fixes c :: "'p connection" and now :: nat
  assumes inv: "conn_inv cfg c" and un: "unacked c = t # ts" and room: "transmissions t < max_retransmissions cfg"
  defines "c1 \<equiv> snd (on_rto now c)"
  shows "\<exists>x. on_rto now c = ([x], c1) \<and> conn_inv cfg c1 \<and> seg_seq x = trk_seq t \<and>
      seg_payload x = trk_payload t \<and> seg_flags x = trk_flags t"
    and "unacked c1 = t\<lparr>sent_at_ms := now, transmissions := sat_add8 (transmissions t) 1\<rparr> # ts"
    and "timeout_ms (rtt c1) = min (2 * timeout_ms (rtt c)) (max_rto_ms cfg)"
    and "remote_window c1 = remote_window c" "close_requested c1 = close_requested c"
    and "close_deadline c1 = close_deadline c"
proof -
  have budget: "\<not> max_transmissions c \<le> transmissions t" and ok: "rtt_ok (min_rto_ms cfg) (max_rto_ms cfg) (rtt c)"
    using inv room by (auto simp: conn_inv_def phase_inv_def param_inv_def)
  have "conn_inv cfg c1"
    using inv on_rto_inv [of "phase (state c)" cfg c now]
    by (auto simp: c1_def conn_inv_def state_inv_def on_rto_mss)
  then show "\<exists>x. on_rto now c = ([x], c1) \<and> conn_inv cfg c1 \<and> seg_seq x = trk_seq t \<and>
      seg_payload x = trk_payload t \<and> seg_flags x = trk_flags t"
    using un budget by (auto simp: c1_def on_rto_def Let_def retransmit_oldest_def)
  show "unacked c1 = t\<lparr>sent_at_ms := now, transmissions := sat_add8 (transmissions t) 1\<rparr> # ts"
    using un budget by (simp add: c1_def on_rto_def Let_def retransmit_oldest_def)
  have "timeout_ms (rtt c1) = timeout_ms (rtt_on_timeout (rtt c))"
    using un budget by (simp add: c1_def on_rto_def Let_def retransmit_oldest_def timeout_ms_def on_retransmit_def)
  then show "timeout_ms (rtt c1) = min (2 * timeout_ms (rtt c)) (max_rto_ms cfg)"
    using rto.backoff_doubles [OF ok] by simp
  show "remote_window c1 = remote_window c" "close_requested c1 = close_requested c"
    by (simp_all add: c1_def on_rto_def Let_def)
  show "close_deadline c1 = close_deadline c"
    by (simp add: c1_def close_deadline_def split: tcp_state.split)
qed

text \<open>A probe of a closed window.\<close>

lemma zero_window_probe_shape:
  "pending c = [] \<Longrightarrow> zero_window_probe now c = (None, c)"
  "pending c \<noteq> [] \<Longrightarrow> \<exists>x c'. zero_window_probe now c = (Some x, c') \<and> length (seg_payload x) = 1 \<and>
     remote_window c' = remote_window c \<and> close_requested c' = close_requested c \<and>
     zero_window_probes c' = zero_window_probes c"
proof -
  show "pending c = [] \<Longrightarrow> zero_window_probe now c = (None, c)"
    by (auto simp: zero_window_probe_def pending_def queued_bytes_def find_None_iff split: option.split
        dest: find_payload_Some)
  assume p: "pending c \<noteq> []"
  show "\<exists>x c'. zero_window_probe now c = (Some x, c') \<and> length (seg_payload x) = 1 \<and>
     remote_window c' = remote_window c \<and> close_requested c' = close_requested c \<and>
     zero_window_probes c' = zero_window_probes c"
  proof (cases "find (\<lambda>t. trk_payload t \<noteq> []) (unacked c)")
    case (Some t)
    then show ?thesis by (simp add: zero_window_probe_def)
  next
    case None
    then have "queued_bytes (unacked c) = []" by (auto simp: queued_bytes_def find_None_iff)
    then obtain b rest where "send_queue c = b # rest" using p by (cases "send_queue c") (auto simp: pending_def)
    then show ?thesis using None by (simp add: zero_window_probe_def Let_def send_tracked_def segment_for_def)
  qed
qed

lemma probe_timer_pending [simp]: "pending (c\<lparr>next_zero_window_probe_ms := d\<rparr>) = pending c"
  "pending (c\<lparr>zero_window_probes := n\<rparr>) = pending c"
  by (simp_all add: pending_def)

lemma probe_effect:
  fixes c :: "'p connection" and now :: nat
  assumes cfg: "valid_setup cfg" and work: "zero_work c"
    and due: "probe_deadline now cfg c \<le> now" and room: "zero_window_probes c < max_retransmissions cfg"
  shows "pending c = [] \<Longrightarrow> poll_zero_window now cfg c =
      (update_open [], c\<lparr>next_zero_window_probe_ms := Some (probe_deadline now cfg c)\<rparr>)"
    and "pending c \<noteq> [] \<Longrightarrow> \<exists>x c' delay. poll_zero_window now cfg c = (update_open [x], c') \<and>
      length (seg_payload x) = 1 \<and> zero_window_probes c' = zero_window_probes c + 1 \<and>
      next_zero_window_probe_ms c' = Some (sat_add64 now delay) \<and> 0 < delay \<and> delay \<le> max_rto_ms cfg \<and>
      zero_work c' \<and> pending c' = pending c \<and> close_deadline c' = close_deadline c"
proof -
  let ?c1 = "c\<lparr>next_zero_window_probe_ms := Some (probe_deadline now cfg c)\<rparr>"
  have poll: "poll_zero_window now cfg c = (case zero_window_probe now ?c1 of
      (None, c2) \<Rightarrow> (update_open [], c2)
    | (Some x, c2) \<Rightarrow> (update_open [x], c2\<lparr>zero_window_probes := sat_add8 (zero_window_probes c2) 1,
        next_zero_window_probe_ms := Some (sat_add64 now (min (sat_mul64 (initial_rto_ms cfg)
          (2 ^ min (sat_add8 (zero_window_probes c2) 1) 16)) (max_rto_ms cfg)))\<rparr>))"
    using due room
    by (simp add: poll_zero_window_def Let_def probe_deadline_def [symmetric] split: prod.split option.split)
  show "pending c = [] \<Longrightarrow> poll_zero_window now cfg c = (update_open [], ?c1)"
    unfolding poll using zero_window_probe_shape(1) [of ?c1 now] by simp
  assume "pending c \<noteq> []"
  then obtain x c2 where x: "zero_window_probe now ?c1 = (Some x, c2)" "length (seg_payload x) = 1"
    "remote_window c2 = remote_window c" "close_requested c2 = close_requested c"
    "zero_window_probes c2 = zero_window_probes c"
    using zero_window_probe_shape(2) [of ?c1 now] by auto
  have fr: "pending c2 = pending c" "state c2 = state c"
    "fin_wait_2_until_ms c2 = fin_wait_2_until_ms c" "time_wait_until_ms c2 = time_wait_until_ms c"
    using zero_window_probe_frame [where now = now and c = ?c1] x(1) by simp_all
  have count: "sat_add8 (zero_window_probes c) 1 = zero_window_probes c + 1"
    using room cfg by (simp add: sat_add8_def valid_setup_def config_typed_def)
  define delay where "delay = min (sat_mul64 (initial_rto_ms cfg) (2 ^ min (zero_window_probes c + 1) 16)) (max_rto_ms cfg)"
  have "0 < initial_rto_ms cfg" "0 < max_rto_ms cfg"
    using cfg by (simp_all add: valid_setup_def valid_config_def)
  then have "0 < delay" by (simp add: delay_def sat_mul64_def u64_max_def)
  moreover have bound: "delay \<le> max_rto_ms cfg" by (simp add: delay_def)
  define c3 where "c3 = c2\<lparr>zero_window_probes := zero_window_probes c + 1,
      next_zero_window_probe_ms := Some (sat_add64 now delay)\<rparr>"
  have "poll_zero_window now cfg c = (update_open [x], c3)"
    unfolding poll x(1) delay_def c3_def by (simp only: prod.case option.case x(5) count)
  moreover have "zero_window_probes c3 = zero_window_probes c + 1"
    "next_zero_window_probe_ms c3 = Some (sat_add64 now delay)" "pending c3 = pending c"
    by (simp_all add: c3_def fr)
  moreover have "zero_work c3" using work x(3,4) fr(1) by (simp add: c3_def zero_work_def)
  moreover have "close_deadline c3 = close_deadline c"
    by (simp add: c3_def close_deadline_def fr split: tcp_state.split)
  ultimately show "\<exists>x c' delay. poll_zero_window now cfg c = (update_open [x], c') \<and>
      length (seg_payload x) = 1 \<and> zero_window_probes c' = zero_window_probes c + 1 \<and>
      next_zero_window_probe_ms c' = Some (sat_add64 now delay) \<and> 0 < delay \<and> delay \<le> max_rto_ms cfg \<and>
      zero_work c' \<and> pending c' = pending c \<and> close_deadline c' = close_deadline c"
    using x(2) bound by blast
qed

section \<open>The deadline is complete\<close>

definition later :: "nat \<Rightarrow> nat option \<Rightarrow> bool" where
  "later now d \<longleftrightarrow> (case d of None \<Rightarrow> True | Some t \<Rightarrow> now < t)"

lemma later_opt_min: "later now (opt_min a b) \<longleftrightarrow> later now a \<and> later now b"
  by (cases a; cases b) (auto simp: later_def)

lemma close_due_later: "close_due now c \<longleftrightarrow> \<not> later now (close_deadline c)"
  by (auto simp: close_due_def later_def split: option.split)

text \<open>
  Sleeping until \<open>next_poll_at\<close> misses nothing: a poll before that moment (or at any time when
  there is none) neither closes the connection nor retransmits nor probes; all it can do is send
  data that the window already allows.
\<close>

theorem idle_before_deadline:
  assumes inv: "conn_inv cfg c" and early: "later now (conn_next_poll_at now cfg c)"
  shows "\<exists>u c'. conn_poll now cfg c = Some (u, c') \<and> \<not> upd_closed u \<and>
    (if zero_work c then upd_segments u = [] else flush_data now c = Some (upd_segments u, c'))"
proof -
  have e: "later now (close_deadline c)"
    "zero_work c \<Longrightarrow> pending c \<noteq> [] \<or> max_retransmissions cfg \<le> zero_window_probes c \<Longrightarrow>
       now < (case next_zero_window_probe_ms c of None \<Rightarrow> now | Some d \<Rightarrow> d)"
    "\<not> zero_work c \<Longrightarrow> unacked c = t # ts \<Longrightarrow> now < retransmit_deadline c t" for t ts
    using early unfolding next_poll_at_eq later_opt_min by (simp_all add: later_def)
  have close: "\<not> close_due now c" using e(1) by (simp add: close_due_later)
  show ?thesis
  proof (cases rule: poll_cases [of now c cfg])
    case expired
    with close show ?thesis by blast
  next
    case early
    then show ?thesis by (simp add: update_open_def)
  next
    case exhausted
    then show ?thesis using e(2) by (auto simp: probe_deadline_def split: option.splits)
  next
    case probe
    have none: "pending c = []"
      using e(2) probe by (auto simp: probe_deadline_def split: option.splits)
    have "zero_window_probe now (c\<lparr>next_zero_window_probe_ms := Some (probe_deadline now cfg c)\<rparr>) =
        (None, c\<lparr>next_zero_window_probe_ms := Some (probe_deadline now cfg c)\<rparr>)"
      by (rule zero_window_probe_shape(1)) (simp add: none)
    then show ?thesis
      using probe by (simp add: poll_zero_window_def Let_def probe_deadline_def [symmetric] update_open_def)
  next
    case quiet
    obtain out c' where "flush_data now c = Some (out, c')" using flush_data_inv [OF inv, of now] by blast
    then show ?thesis using quiet by (simp add: poll_flush_def update_open_def)
  next
    case (budget t ts)
    then show ?thesis using e(3) by simp
  next
    case (rto t ts)
    then show ?thesis using e(3) by simp
  qed
qed

theorem idle_before_deadline_witness:
  "\<exists>u c'. conn_poll 999 config_default example_client = Some (u, c') \<and> \<not> upd_closed u \<and>
    (if zero_work example_client then upd_segments u = []
     else flush_data 999 example_client = Some (upd_segments u, c'))"
proof (rule idle_before_deadline [OF conn_start_inv [OF example_client_start]])
  show "later 999 (conn_next_poll_at 999 config_default example_client)"
    by (simp add: example_client_eq next_poll_at_eq close_deadline_def zero_work_def u16_max_def
        retransmit_deadline_def timeout_ms_def later_def sat_add64_def u64_max_def)
qed

section \<open>A poll makes progress\<close>

lemma retransmit_later:
  assumes "conn_inv cfg c" "valid_setup cfg" "now + max_rto_ms cfg \<le> u64_max" "sent_at_ms t = now"
  shows "now < retransmit_deadline c t"
proof -
  have "min_rto_ms cfg \<le> timeout_ms (rtt c)" "timeout_ms (rtt c) \<le> max_rto_ms cfg"
    using assms(1) rto.ok_bounds by (auto simp: conn_inv_def phase_inv_def param_inv_def)
  moreover have "0 < min_rto_ms cfg" using assms(2) by (simp add: valid_setup_def valid_config_def)
  ultimately show ?thesis using assms(3,4) by (simp add: retransmit_deadline_def sat_add64_def)
qed

lemma flushed_later:
  assumes inv: "conn_inv cfg d" "valid_setup cfg" "now + max_rto_ms cfg \<le> u64_max"
    and p: "poll_flush now segs d = Some (u, c')"
    and d: "\<not> zero_work d" "\<not> close_due now d" "\<not> rto_due now d"
  shows "later now (conn_next_poll_at now cfg c')"
proof -
  obtain out where f: "conn_inv cfg c'" "flush_frame d c'" "pending c' = pending d"
    "fin_sent (state d) (state c')" "flushes now d c'"
    using poll_flush_cases [OF inv(1) p] by metis
  have "\<not> zero_work c'" using flush_keeps_zero_work [OF f(2,3,5) d(1)] .
  moreover have "later now (close_deadline c')"
    using flush_keeps_close [OF f(2,4)] d(2) by (auto simp: close_due_later later_def)
  moreover have "later now (case unacked c' of [] \<Rightarrow> None | t # ts \<Rightarrow> Some (retransmit_deadline c' t))"
  proof (cases "unacked c'")
    case Nil
    then show ?thesis by (simp add: later_def)
  next
    case (Cons t ts)
    show ?thesis
    proof (cases "unacked d")
      case Nil
      then have "sent_at_ms t = now" using f(5) Cons by (auto simp: flushes_def)
      with retransmit_later [OF f(1) inv(2,3)] Cons show ?thesis by (simp add: later_def)
    next
      case (Cons t' ts')
      then have "t' = t" using f(5) \<open>unacked c' = t # ts\<close> by (auto simp: flushes_def)
      moreover have "rtt c' = rtt d" using f(2) by (simp add: flush_frame_def)
      ultimately show ?thesis
        using d(3) Cons \<open>unacked c' = t # ts\<close> by (simp add: rto_due_def later_def retransmit_deadline_def)
    qed
  qed
  ultimately show ?thesis by (simp add: next_poll_at_eq later_opt_min)
qed

text \<open>
  There is no busy loop: whatever is due when a connection is polled, the connection is closed
  or its next deadline lies strictly in the future, so that a host that sleeps until
  \<open>next_poll_at\<close> never spins on a deadline that cannot advance.
\<close>

theorem poll_advances_deadline:
  assumes inv: "conn_inv cfg c" and cfg: "valid_setup cfg" and time: "now + max_rto_ms cfg \<le> u64_max"
    and p: "conn_poll now cfg c = Some (u, c')"
  shows "upd_closed u \<or> later now (conn_next_poll_at now cfg c')"
proof (cases rule: poll_cases [of now c cfg])
  case expired
  then show ?thesis using p by (simp add: update_close_def)
next
  case early
  let ?c = "c\<lparr>next_zero_window_probe_ms := Some (probe_deadline now cfg c)\<rparr>"
  have "c' = ?c" using p early by simp
  moreover have "close_deadline ?c = close_deadline c" "zero_work ?c" "pending ?c = pending c"
    using early by (simp_all add: close_deadline_def zero_work_def split: tcp_state.split)
  ultimately show ?thesis
    using early by (simp add: next_poll_at_eq later_opt_min close_due_later) (simp add: later_def)
next
  case exhausted
  then show ?thesis using p by (simp add: update_close_def)
next
  case probe
  show ?thesis
  proof (cases "pending c = []")
    case True
    let ?c = "c\<lparr>next_zero_window_probe_ms := Some (probe_deadline now cfg c)\<rparr>"
    have "c' = ?c" using p probe probe_effect(1) [OF cfg probe(2-4) True] by simp
    moreover have "close_deadline ?c = close_deadline c" "zero_work ?c" "pending ?c = []"
      using probe True by (simp_all add: close_deadline_def zero_work_def split: tcp_state.split)
    ultimately show ?thesis
      using probe by (simp add: next_poll_at_eq later_opt_min close_due_later) (simp add: later_def)
  next
    case False
    from probe_effect(2) [OF cfg probe(2-4) False] p probe(5)
    obtain delay where "next_zero_window_probe_ms c' = Some (sat_add64 now delay)" "0 < delay"
      "delay \<le> max_rto_ms cfg" "zero_work c'" "pending c' = pending c" "close_deadline c' = close_deadline c"
      by auto
    then show ?thesis
      using probe time by (simp add: next_poll_at_eq later_opt_min close_due_later)
        (simp add: later_def sat_add64_def)
  qed
next
  case quiet
  then show ?thesis using flushed_later [OF inv cfg time, of "[]" u c'] p by simp
next
  case (budget t ts)
  then show ?thesis using p by (simp add: update_close_def)
next
  case (rto t ts)
  note r = on_rto_effect [OF inv rto(3,5), of now]
  have inv1: "conn_inv cfg (snd (on_rto now c))" using r(1) by auto
  have "\<not> zero_work (snd (on_rto now c))" using rto(2) r(4,5) by (simp add: zero_work_def)
  moreover have "\<not> close_due now (snd (on_rto now c))" using rto(1) r(6) by (simp add: close_due_def)
  moreover have "\<not> rto_due now (snd (on_rto now c))"
    using retransmit_later [OF inv1 cfg time] r(2) by (auto simp: rto_due_def not_le)
  ultimately show ?thesis using flushed_later [OF inv1 cfg time] rto(6) p by metis
qed

theorem poll_advances_deadline_witness:
  "\<exists>u c'. conn_poll 1000 config_default example_client = Some (u, c') \<and>
    (if upd_closed u then True else later 1000 (conn_next_poll_at 1000 config_default c'))"
proof -
  note inv = conn_start_inv [OF example_client_start]
  obtain u c' where p: "conn_poll 1000 config_default example_client = Some (u, c')"
    using conn_poll_effect [OF inv, of 1000] by blast
  have "1000 + max_rto_ms config_default \<le> u64_max" by (simp add: config_default_def u64_max_def)
  from poll_advances_deadline [OF inv valid_setup_default this p] p show ?thesis by auto
qed

section \<open>The retry budget\<close>

text \<open>
  The host's timer loop against a silent peer: sleep until \<open>next_poll_at\<close>, poll, repeat.
  \<open>run_timer n\<close> says that the connection is closed within \<open>n\<close> polls.
\<close>

fun run_timer :: "nat \<Rightarrow> config \<Rightarrow> nat \<Rightarrow> 'p connection \<Rightarrow> bool" where
  "run_timer 0 cfg now c = False"
| "run_timer (Suc n) cfg now c =
     (case conn_next_poll_at now cfg c of
        None \<Rightarrow> False
      | Some d \<Rightarrow>
          (case conn_poll (max now d) cfg c of
             None \<Rightarrow> False
           | Some (u, c') \<Rightarrow> upd_closed u \<or> run_timer n cfg (max now d) c'))"

lemma opt_min_Some: "\<exists>d. opt_min a (Some b) = Some d \<and> d \<le> b"
  by (cases a) auto

lemma opt_min_due: "opt_min a (Some b) = Some d \<Longrightarrow> \<not> later t a \<or> b \<le> t" if "d \<le> t" for t :: nat
  using that by (cases a) (auto simp: later_def min_def split: if_splits)

lemma poll_at_deadline:
  assumes "conn_next_poll_at now cfg c = Some d" "d \<le> t" "\<not> close_due t c"
  shows "zero_work c \<Longrightarrow> next_zero_window_probe_ms c = Some z \<Longrightarrow> z \<le> t"
    and "\<not> zero_work c \<Longrightarrow> unacked c = s # ss \<Longrightarrow> retransmit_deadline c s \<le> t"
proof -
  have due: "later t (close_deadline c)" using assms(3) by (simp add: close_due_later)
  show "zero_work c \<Longrightarrow> next_zero_window_probe_ms c = Some z \<Longrightarrow> z \<le> t"
    using assms(1,2) opt_min_due [OF assms(2), of "close_deadline c" z] due
    by (auto simp: next_poll_at_eq split: if_splits) (auto simp: later_def split: option.splits)
  show "\<not> zero_work c \<Longrightarrow> unacked c = s # ss \<Longrightarrow> retransmit_deadline c s \<le> t"
    using assms(1) opt_min_due [OF assms(2), of "close_deadline c"] due by (simp add: next_poll_at_eq)
qed

lemma has_deadline:
  "zero_work c \<Longrightarrow> pending c \<noteq> [] \<Longrightarrow> \<exists>d. conn_next_poll_at now cfg c = Some d"
  "\<not> zero_work c \<Longrightarrow> unacked c \<noteq> [] \<Longrightarrow> \<exists>d. conn_next_poll_at now cfg c = Some d"
proof -
  show "zero_work c \<Longrightarrow> pending c \<noteq> [] \<Longrightarrow> \<exists>d. conn_next_poll_at now cfg c = Some d"
    unfolding next_poll_at_eq using opt_min_Some by simp blast
  assume "\<not> zero_work c" "unacked c \<noteq> []"
  then show "\<exists>d. conn_next_poll_at now cfg c = Some d"
    unfolding next_poll_at_eq using opt_min_Some by (cases "unacked c") (simp_all, blast)
qed

lemma run_timer_step:
  assumes "conn_next_poll_at now cfg c = Some d" "conn_poll (max now d) cfg c = Some (u, c')"
    and "\<not> upd_closed u \<Longrightarrow> run_timer n cfg (max now d) c'"
  shows "run_timer (Suc n) cfg now c"
  using assms by auto

lemma probing_step:
  assumes cfg: "valid_setup cfg" and work: "zero_work c" "pending c \<noteq> []" "next_zero_window_probe_ms c \<noteq> None"
    and d: "conn_next_poll_at now cfg c = Some d"
  shows "\<exists>u c'. conn_poll (max now d) cfg c = Some (u, c') \<and>
    (upd_closed u \<or> zero_work c' \<and> pending c' \<noteq> [] \<and> next_zero_window_probe_ms c' \<noteq> None \<and>
       zero_window_probes c < max_retransmissions cfg \<and> zero_window_probes c' = zero_window_probes c + 1)"
proof -
  let ?t = "max now d"
  show ?thesis
  proof (cases rule: poll_cases [of ?t c cfg])
    case early
    obtain z where z: "next_zero_window_probe_ms c = Some z" using work(3) by blast
    have "z \<le> ?t" by (rule poll_at_deadline(1) [OF d _ early(1) work(1) z]) simp
    then show ?thesis using early(3) z by (simp add: probe_deadline_def del: max_less_iff_conj less_max_iff_disj)
  next
    case probe
    from probe_effect(2) [OF cfg probe(2-4) work(2)]
    show ?thesis using probe(4,5) work(2) by force
  qed (use work(1) in \<open>simp_all add: update_close_def\<close>)
qed

lemma probing_closes:
  assumes cfg: "valid_setup cfg" and c: "zero_work c" "pending c \<noteq> []" "next_zero_window_probe_ms c \<noteq> None"
    and n: "max_retransmissions cfg - zero_window_probes c \<le> n"
  shows "run_timer (Suc n) cfg now c"
  using c n
proof (induction n arbitrary: now c)
  case 0
  obtain d where d: "conn_next_poll_at now cfg c = Some d" using has_deadline(1) [OF 0(1,2)] by blast
  show ?case using probing_step [OF cfg 0(1-3) d] 0(4) d by auto
next
  case (Suc n)
  obtain d where d: "conn_next_poll_at now cfg c = Some d" using has_deadline(1) [OF Suc.prems(1,2)] by blast
  obtain u c' where u: "conn_poll (max now d) cfg c = Some (u, c')"
    "upd_closed u \<or> zero_work c' \<and> pending c' \<noteq> [] \<and> next_zero_window_probe_ms c' \<noteq> None \<and>
       zero_window_probes c < max_retransmissions cfg \<and> zero_window_probes c' = zero_window_probes c + 1"
    using probing_step [OF cfg Suc.prems(1-3) d] by blast
  show ?case
  proof (rule run_timer_step [OF d u(1)])
    assume "\<not> upd_closed u"
    with u(2) Suc.prems(4) show "run_timer (Suc n) cfg (max now d) c'" by (intro Suc.IH) auto
  qed
qed

lemma retransmitting_step:
  assumes inv: "conn_inv cfg c" and cfg: "valid_setup cfg" and c: "\<not> zero_work c" "unacked c = s # ss"
    and d: "conn_next_poll_at now cfg c = Some d"
  shows "\<exists>u c'. conn_poll (max now d) cfg c = Some (u, c') \<and>
    (upd_closed u \<or> conn_inv cfg c' \<and> \<not> zero_work c' \<and> transmissions s < max_retransmissions cfg \<and>
       (\<exists>s' ss'. unacked c' = s' # ss' \<and> transmissions s' = transmissions s + 1))"
proof -
  let ?t = "max now d"
  show ?thesis
  proof (cases rule: poll_cases [of ?t c cfg])
    case quiet
    have "retransmit_deadline c s \<le> ?t" by (rule poll_at_deadline(2) [OF d _ quiet(1) c]) simp
    then show ?thesis using quiet(3) c(2) by (simp add: rto_due_def)
  next
    case (rto t ts)
    note r = on_rto_effect [OF inv rto(3,5), of ?t]
    have inv1: "conn_inv cfg (snd (on_rto ?t c))" using r(1) by auto
    have zw: "\<not> zero_work (snd (on_rto ?t c))" using rto(2) r(4,5) by (simp add: zero_work_def)
    obtain u c' where p: "conn_poll ?t cfg c = Some (u, c')"
      using conn_poll_effect [OF inv] by blast
    then have "poll_flush ?t (fst (on_rto ?t c)) (snd (on_rto ?t c)) = Some (u, c')" using rto(6) by simp
    then obtain out where f: "conn_inv cfg c'" "flush_frame (snd (on_rto ?t c)) c'"
      "pending c' = pending (snd (on_rto ?t c))" "flushes ?t (snd (on_rto ?t c)) c'"
      using poll_flush_cases [OF inv1] by metis
    have "sat_add8 (transmissions t) 1 = transmissions t + 1"
      using rto(5) cfg by (simp add: sat_add8_def valid_setup_def config_typed_def)
    then have "\<exists>s' ss'. unacked c' = s' # ss' \<and> transmissions s' = transmissions s + 1"
      using f(4) r(2) rto(3) c(2) by (auto simp: flushes_def)
    then show ?thesis
      using p f(1) flush_keeps_zero_work [OF f(2-4) zw] rto(3,5) c(2) by auto
  qed (use c(1) in \<open>simp_all add: update_close_def\<close>)
qed

lemma retransmitting_closes:
  assumes inv: "conn_inv cfg c" and cfg: "valid_setup cfg" and c: "\<not> zero_work c" "unacked c = s # ss"
    and n: "max_retransmissions cfg - transmissions s \<le> n"
  shows "run_timer (Suc n) cfg now c"
  using inv c n
proof (induction n arbitrary: now c s ss)
  case 0
  obtain d where d: "conn_next_poll_at now cfg c = Some d" using has_deadline(2) [OF 0(2)] 0(3) by (metis list.distinct(1))
  show ?case using retransmitting_step [OF 0(1) cfg 0(2,3) d] 0(4) d by auto
next
  case (Suc n)
  obtain d where d: "conn_next_poll_at now cfg c = Some d"
    using has_deadline(2) [OF Suc.prems(2)] Suc.prems(3) by (metis list.distinct(1))
  obtain u c' where u: "conn_poll (max now d) cfg c = Some (u, c')"
    "upd_closed u \<or> conn_inv cfg c' \<and> \<not> zero_work c' \<and> transmissions s < max_retransmissions cfg \<and>
       (\<exists>s' ss'. unacked c' = s' # ss' \<and> transmissions s' = transmissions s + 1)"
    using retransmitting_step [OF Suc.prems(1) cfg Suc.prems(2,3) d] by blast
  show ?case
  proof (rule run_timer_step [OF d u(1)])
    assume "\<not> upd_closed u"
    with u(2) obtain s' ss' where "conn_inv cfg c'" "\<not> zero_work c'" "unacked c' = s' # ss'"
      "transmissions s' = transmissions s + 1" by blast
    then show "run_timer (Suc n) cfg (max now d) c'" using Suc.prems(4) by (intro Suc.IH [of c' s' ss']) auto
  qed
qed

text \<open>
  C12: A silent peer cannot hold a connection for ever: a connection that waits for an
  acknowledgment, or has data behind a closed window, is closed by its timers alone within
  \<open>max_retransmissions + 2\<close> polls when its host sleeps until \<open>next_poll_at\<close> and polls.
\<close>

theorem silent_peer_closes:
  assumes inv: "conn_inv cfg c" and cfg: "valid_setup cfg"
    and waits: "unacked c \<noteq> [] \<or> remote_window c = 0 \<and> pending c \<noteq> []"
  shows "run_timer (max_retransmissions cfg + 2) cfg now c"
proof (cases "zero_work c")
  case False
  then obtain s ss where s: "unacked c = s # ss"
    using waits by (cases "unacked c") (auto simp: zero_work_def)
  then show ?thesis using retransmitting_closes [OF inv cfg False s, of "max_retransmissions cfg + 1"] by simp
next
  case True
  have pend: "pending c \<noteq> []"
  proof (rule ccontr)
    assume none: "\<not> pending c \<noteq> []"
    then have "close_requested c" "unacked c \<noteq> []" using True waits by (auto simp: zero_work_def)
    moreover from this(1) have "phase (state c) = Open"
      using inv by (auto simp: conn_inv_def phase_inv_def send_ok_def)
    ultimately show False
      using inv none by (cases "unacked c") (auto simp: conn_inv_def phase_inv_def send_ok_def pending_def data_seg_def)
  qed
  obtain d where d: "conn_next_poll_at now cfg c = Some d" using has_deadline(1) [OF True pend] by blast
  show ?thesis
  proof (cases "next_zero_window_probe_ms c")
    case (Some z)
    then show ?thesis
      using probing_closes [OF cfg True pend, of "max_retransmissions cfg + 1"] by simp
  next
    case None
    obtain u c' where p: "conn_poll (max now d) cfg c = Some (u, c')" using conn_poll_effect [OF inv] by blast
    have "upd_closed u \<or> zero_work c' \<and> pending c' \<noteq> [] \<and> next_zero_window_probe_ms c' \<noteq> None"
    proof (cases rule: poll_cases [of "max now d" c cfg])
      case early
      then show ?thesis using p pend True by (auto simp: zero_work_def)
    next
      case probe
      from probe_effect(2) [OF cfg probe(2-4) pend] show ?thesis using p probe(5) pend by force
    qed (use p True in \<open>auto simp: update_close_def\<close>)
    then have "upd_closed u \<or> run_timer (Suc (max_retransmissions cfg)) cfg (max now d) c'"
      using probing_closes [OF cfg, of c' "max_retransmissions cfg"] by auto
    then show ?thesis using run_timer_step [OF d p, of "Suc (max_retransmissions cfg)"] by auto
  qed
qed

theorem silent_peer_closes_witness: "run_timer (max_retransmissions config_default + 2) config_default 0 example_client"
  by (rule silent_peer_closes [OF conn_start_inv [OF example_client_start] valid_setup_default])
    (simp add: example_client_eq)

end
