(* ===== verification/Stack_Calls.thy ===== *)
theory Stack_Calls
  imports Stack_Props Timer_Props
begin

text \<open>
  What single calls of a stack promise: admission, abort, writing and reading, the send markers, the
  timers of the whole stack, and the defence against forged resets.
\<close>

section \<open>Admission\<close>

abbreviation tuple :: "'p \<Rightarrow> u16 \<Rightarrow> u16 \<Rightarrow> 'p connection_key" where
  "tuple p lport rport \<equiv> \<lparr>key_peer = p, key_local_port = lport, key_remote_port = rport\<rparr>"

text \<open>
  The documented rule: the two limits, and beyond \<open>max_connections - slots\<close> connections only peers
  the local classifier finds eligible.
\<close>

definition admits :: "'p \<Rightarrow> 'p stack \<Rightarrow> bool" where
  "admits p s \<longleftrightarrow>
     length (connections s) < max_connections (config s) \<and>
     peer_connections p s < max_connections_per_peer (config s) \<and>
     (case reservation s of
        None \<Rightarrow> True
      | Some r \<Rightarrow> res_eligible r p \<or> length (connections s) < max_connections (config s) - res_slots r)"

lemma wrapping_sub64_exact: "b \<le> a \<Longrightarrow> a \<le> u64_max \<Longrightarrow> wrapping_sub64 a b = a - b"
proof -
  assume h: "b \<le> a" "a \<le> u64_max"
  then have "a + 2 ^ 64 - b = (a - b) + 2 ^ 64" by simp
  then have "wrapping_sub64 a b = (a - b) mod 2 ^ 64"
    by (simp only: wrapping_sub64_def wrap64_def mod_add_self2)
  with h show ?thesis by (simp add: u64_max_def)
qed

lemma capacity_admits:
  assumes inv: "stack_inv H (token, s)"
  shows "ensure_connection_capacity p s = (if admits p s then Inr () else Inl ConnectionLimit)"
proof -
  have "max_connections (config s) \<le> u64_max"
    using stack_invD(1) [OF inv] by (simp add: valid_setup_def config_typed_def)
  moreover have "res_slots r < max_connections (config s)" if "reservation s = Some r" for r
    using stack_invD(7) [OF inv] that by (simp add: room_ok_def)
  ultimately have "wrapping_sub64 (max_connections (config s)) (res_slots r) = max_connections (config s) - res_slots r"
    if "reservation s = Some r" for r
    using that by (intro wrapping_sub64_exact) (auto intro: less_imp_le)
  then show ?thesis
    by (cases "reservation s") (auto simp: ensure_connection_capacity_def admits_def)
qed

text \<open>
  C19: Opening a connection obeys the admission rule exactly: a call with valid ports is refused with
  \<open>ConnectionLimit\<close> if and only if a limit is reached or only reserved slots are left and the
  classifier does not find the peer eligible, with \<open>ConnectionExists\<close> if the tuple is in use, and
  otherwise it returns a new identifier whose connection is in SYN-SENT with one packet queued for the
  peer; a refused call changes nothing, and no call changes another connection.
\<close>

theorem connect_admission:
  assumes "stack_reach (token, s)" "token < u64_max" "lport \<noteq> 0" "rport \<noteq> 0"
  shows "\<exists>r t. connect_from_with_isn p lport rport isn now (token, s) = Some (r, t) \<and>
    (if \<not> admits p s then r = Inl ConnectionLimit \<and> t = (token, s)
     else if lookup s (tuple p lport rport) \<noteq> None then r = Inl ConnectionExists \<and> t = (token, s)
     else r = Inr (next_connection_id s) \<and>
       (\<exists>c x. state c = SynSent \<and> conn_key c = tuple p lport rport \<and> outbound (snd t) = outbound s @ [packet p x] \<and>
         (\<forall>cid. get_conn cid (snd t) = (if cid = next_connection_id s then Some c else get_conn cid s))))"
proof -
  note inv = reach_inv [OF assms(1)]
  note cap = capacity_admits [OF inv, of p]
  consider (full) "\<not> admits p s" | (used) "admits p s" "lookup s (tuple p lport rport) \<noteq> None"
    | (free) "admits p s" "lookup s (tuple p lport rport) = None" by blast
  then show ?thesis
  proof cases
    case full
    then show ?thesis using assms(3,4) cap by (simp add: connect_from_with_isn_def)
  next
    case used
    then show ?thesis using assms(3,4) cap by (simp add: connect_from_with_isn_def Let_def)
  next
    case free
    obtain c x where c: "conn_client p lport rport isn now (config s) token = Some ((c, [x]), token + 1)"
      "conn_key c = tuple p lport rport" "state c = SynSent" "sends c x"
      using conn_created [OF stack_invD(1) [OF inv] assms(3,4,2), of p isn now] by auto
    have "connect_from_with_isn p lport rport isn now (token, s) =
        Some (Inr (next_connection_id s), (token + 1, sent c [x] (inserted c s)))"
      using free cap c by (intro connect_from_opens assms(3,4)) simp_all
    moreover have "peer c = p" using c(2) by (simp add: conn_key_def)
    ultimately show ?thesis
      using free c(2,3) by (auto simp: sent_def inserted_def intro!: exI [of _ c])
  qed
qed

theorem connect_admission_witness:
  "\<exists>r t. connect_from_with_isn 7 49152 80 1000 0 (1, example_stack) = Some (r, t) \<and>
    (if \<not> admits 7 example_stack then r = Inl ConnectionLimit \<and> t = (1, example_stack)
     else if lookup example_stack (tuple 7 49152 80) \<noteq> None then r = Inl ConnectionExists \<and> t = (1, example_stack)
     else r = Inr (next_connection_id example_stack) \<and>
       (\<exists>c x. state c = SynSent \<and> conn_key c = tuple 7 49152 80 \<and>
         outbound (snd t) = outbound example_stack @ [packet 7 x] \<and>
         (\<forall>cid. get_conn cid (snd t) =
           (if cid = next_connection_id example_stack then Some c else get_conn cid example_stack))))"
  by (rule connect_admission [OF example_stack_reach]) (simp_all add: u64_max_def)

text \<open>
  C20: A SYN obeys the same rule: a SYN of this protocol version for a listening port and an unused
  tuple is refused with \<open>ConnectionLimit\<close>, with nothing changed and nothing sent, exactly when the
  admission rule refuses its sender, and otherwise it creates one connection in SYN-RECEIVED and
  queues one packet for the sender; without the protocol version it only provokes a reset.
\<close>

theorem syn_admission:
  assumes "stack_reach (token, s)" "token < u64_max" "decode bs = Inr seg"
    "contains (seg_flags seg) SYN" "\<not> contains (seg_flags seg) ACK" "seg_dst_port seg \<in> listeners s"
    "lookup s (tuple p (seg_dst_port seg) (seg_src_port seg)) = None"
  shows "\<exists>r t. input p bs now (token, s) = Some (r, t) \<and>
    (if \<not> supports_fips_version seg FIPS_VERSION
     then r = Inr () \<and> connections (snd t) = connections s \<and> outbound (snd t) = outbound s @ [packet p (reset_for seg)]
     else if \<not> admits p s then r = Inl ConnectionLimit \<and> t = (token, s)
     else r = Inr () \<and>
       (\<exists>c x. state c = SynReceived \<and> conn_key c = tuple p (seg_dst_port seg) (seg_src_port seg) \<and>
         outbound (snd t) = outbound s @ [packet p x] \<and>
         (\<forall>cid. get_conn cid (snd t) = (if cid = next_connection_id s then Some c else get_conn cid s))))"
proof -
  note inv = reach_inv [OF assms(1)]
  note cap = capacity_admits [OF inv, of p]
  have good: "good_segment seg" using assms(3) by (rule decode_good)
  have i: "input p bs now (token, s) = input_syn p seg now (token, s)"
    using assms(3-7) by (simp add: input_def)
  consider (version) "\<not> supports_fips_version seg FIPS_VERSION"
    | (full) "supports_fips_version seg FIPS_VERSION" "\<not> admits p s"
    | (free) "supports_fips_version seg FIPS_VERSION" "admits p s" by blast
  then show ?thesis
  proof cases
    case version
    then show ?thesis using emit_reset_good [OF good, of p s] by (simp add: i input_syn_def)
  next
    case full
    then show ?thesis using cap by (simp add: i input_syn_def)
  next
    case free
    obtain c x where c: "conn_server p seg (fst (next_isn s)) now (config s) token = Some ((c, [x]), token + 1)"
      "conn_key c = tuple p (seg_dst_port seg) (seg_src_port seg)" "state c = SynReceived" "sends c x"
      using conn_accepted [OF stack_invD(1) [OF inv] good assms(2), of p "fst (next_isn s)" now] by auto
    have "input_syn p seg now (token, s) =
        Some (Inr (), (token + 1, sent c [x] (inserted c (snd (next_isn s)))))"
      using free cap by (intro input_syn_opens [OF _ _ c(2,1,4)]) simp_all
    moreover have "peer c = p" using c(2) by (simp add: conn_key_def)
    moreover have "get_conn cid (snd (next_isn s)) = get_conn cid s" for cid
      by (simp add: get_conn_def)
    moreover have "outbound (snd (next_isn s)) = outbound s" by (simp add: next_isn_def Let_def)
    ultimately show ?thesis
      using free c(2,3) by (auto simp: i sent_def inserted_def intro!: exI [of _ c])
  qed
qed

theorem syn_admission_witness:
  "\<exists>r t. input 7 (wire_bytes example_syn) 0 (1, listen_stack) = Some (r, t) \<and>
    (if \<not> supports_fips_version example_syn FIPS_VERSION
     then r = Inr () \<and> connections (snd t) = connections listen_stack \<and>
       outbound (snd t) = outbound listen_stack @ [packet 7 (reset_for example_syn)]
     else if \<not> admits 7 listen_stack then r = Inl ConnectionLimit \<and> t = (1, listen_stack)
     else r = Inr () \<and>
       (\<exists>c x. state c = SynReceived \<and> conn_key c = tuple 7 (seg_dst_port example_syn) (seg_src_port example_syn) \<and>
         outbound (snd t) = outbound listen_stack @ [packet 7 x] \<and>
         (\<forall>cid. get_conn cid (snd t) =
           (if cid = next_connection_id listen_stack then Some c else get_conn cid listen_stack))))"
proof -
  have "good_segment example_syn" by (simp add: good_segment_def example_syn_def segment_new_def)
  show ?thesis
    by (rule syn_admission [OF listen_stack_reach _ decode_wire_bytes [OF \<open>good_segment example_syn\<close>]])
      (simp_all add: u64_max_def example_syn_def segment_new_def)
qed

section \<open>Abort\<close>

text \<open>The packets of one tuple.\<close>

definition of_tuple :: "'p connection_key \<Rightarrow> 'p outbound \<Rightarrow> bool" where
  "of_tuple key x \<longleftrightarrow> out_peer x = key_peer key \<and>
     (case decode (out_bytes x) of
        Inl e \<Rightarrow> False
      | Inr seg \<Rightarrow> seg_src_port seg = key_local_port key \<and> seg_dst_port seg = key_remote_port key)"

lemma of_tuple_iff:
  "of_tuple (conn_key c) x \<longleftrightarrow> \<not> (out_peer x \<noteq> peer c \<or> (\<forall>seg. decode (out_bytes x) = Inr seg \<longrightarrow>
     seg_src_port seg \<noteq> local_port c \<or> seg_dst_port seg \<noteq> remote_port c))"
  by (cases "decode (out_bytes x)") (auto simp: of_tuple_def conn_key_def)

text \<open>
  C21: \<open>abort\<close> is final and exact: it removes the connection and frees its tuple, withdraws every
  packet of the tuple that is still queued, and leaves exactly one packet for it, a reset with the
  connection's next sequence number; every other connection and every packet of other tuples stay
  as they are. For an unknown identifier it reports \<open>UnknownConnection\<close> and changes nothing.
\<close>

theorem abort_exact:
  assumes "stack_reach (token, s)"
  shows "case get_conn cid s of
      None \<Rightarrow> abort cid s = (Inl UnknownConnection, s)
    | Some c \<Rightarrow> (\<exists>t. abort cid s = (Inr (), t) \<and> lookup t (conn_key c) = None \<and>
        (\<forall>cid'. get_conn cid' t = (if cid' = cid then None else get_conn cid' s)) \<and>
        filter (of_tuple (conn_key c)) (outbound t) = [packet (peer c) (reset_segment c)] \<and>
        filter (\<lambda>x. \<not> of_tuple (conn_key c) x) (outbound t) = filter (\<lambda>x. \<not> of_tuple (conn_key c) x) (outbound s))"
proof (cases "get_conn cid s")
  case None
  then show ?thesis using abort_effect(2) [OF reach_inv [OF assms]] by simp
next
  case (Some c)
  note inv = reach_inv [OF assms]
  note a = abort_effect(3) [OF inv Some]
  define t where "t = snd (abort cid s)"
  have "abort cid s = (Inr (), t)" using conjunct1 [OF a] by (simp add: t_def prod_eq_iff)
  moreover have "\<forall>cid'. get_conn cid' t = (if cid' = cid then None else get_conn cid' s)"
    unfolding t_def by (rule conjunct1 [OF conjunct2 [OF a]])
  moreover have "outbound t = filter (\<lambda>x. \<not> of_tuple (conn_key c) x) (outbound s) @
      [packet (peer c) (reset_segment c)]"
    unfolding t_def of_tuple_iff not_not by (rule conjunct2 [OF conjunct2 [OF a]])
  ultimately have t: "abort cid s = (Inr (), t)"
    "\<forall>cid'. get_conn cid' t = (if cid' = cid then None else get_conn cid' s)"
    "outbound t = filter (\<lambda>x. \<not> of_tuple (conn_key c) x) (outbound s) @ [packet (peer c) (reset_segment c)]"
    by blast+
  have inv': "stack_inv {} (token, t)" using abort_effect(1) [OF inv, of cid] t(1) by simp
  have "lookup t (conn_key c) = None"
  proof (cases "lookup t (conn_key c)")
    case (Some other)
    then obtain d where d: "get_conn other t = Some d" "conn_key d = conn_key c"
      using stack_inv_lookup [OF inv'] by blast
    then have "get_conn other s = Some d" "other \<noteq> cid" using t(2) by (auto split: if_splits)
    then show ?thesis
      using stack_inv_conn(3) [OF inv, of other d] stack_inv_conn(3) [OF inv \<open>get_conn cid s = Some c\<close>] d(2) by simp
  qed
  moreover have "sends c (reset_segment c)" by (rule sends_reset [OF stack_inv_conn(4) [OF inv Some]])
  then have "of_tuple (conn_key c) (packet (peer c) (reset_segment c))"
    by (auto simp: of_tuple_def conn_key_def sends_def packet_decodes) (simp add: packet_def)
  ultimately show ?thesis using t Some by simp
qed

theorem abort_exact_witness:
  "\<exists>t. abort 1 client_stack = (Inr (), t) \<and> lookup t (conn_key example_client) = None \<and>
    (\<forall>cid'. get_conn cid' t = (if cid' = 1 then None else get_conn cid' client_stack)) \<and>
    filter (of_tuple (conn_key example_client)) (outbound t) =
      [packet (peer example_client) (reset_segment example_client)]"
  using abort_exact [OF client_stack_reach, of 1] by auto

text \<open>
  \<open>abort_peer\<close> removes exactly the connections of one peer and reports how many there were;
  every connection of every other peer stays exactly as it is.
\<close>

theorem abort_peer_exact:
  assumes "stack_reach (token, s)"
  shows "\<exists>t. abort_peer p s = (Inr (peer_connections p s), t) \<and> peer_connections p t = 0 \<and>
    (\<forall>cid. get_conn cid t = (case get_conn cid s of None \<Rightarrow> None
       | Some c \<Rightarrow> if peer c = p then None else Some c))"
proof -
  obtain t where t: "abort_peer p s = (Inr (peer_connections p s), t)" "stack_inv {} (token, t)"
    "\<forall>cid. get_conn cid t = (case get_conn cid s of None \<Rightarrow> None
       | Some c \<Rightarrow> if peer c = p then None else Some c)"
    using abort_peer_effect [OF reach_inv [OF assms], of p] by blast
  have "distinct (map fst (connections t))" using stack_invD(5) [OF t(2)] by (simp add: table_ok_def)
  then have "peer c \<noteq> p" if "(cid, c) \<in> set (connections t)" for cid c
    using t(3) [rule_format, of cid] that filter_key_unique [of "connections t" cid c]
    by (auto simp: get_conn_def split: option.splits if_splits)
  then have "peer_connections p t = 0" by (auto simp: peer_connections_def filter_empty_conv)
  with t show ?thesis by blast
qed

theorem abort_peer_exact_witness:
  "\<exists>t. abort_peer 7 open_stack = (Inr (peer_connections 7 open_stack), t) \<and> peer_connections 7 t = 0 \<and>
    get_conn 1 t = None"
  using abort_peer_exact [OF open_stack_reach, of 7] by (force simp: example_open_eq)

section \<open>The byte streams\<close>

text \<open>
  C22: The application calls are exact. A write on an unknown identifier or in a state that cannot send
  is refused with the matching error and changes nothing; otherwise it accepts as many bytes as the
  send buffer has room for and appends exactly those to what the connection owes its peer. A read
  returns, in order, the oldest received bytes, as many as asked for and available, and leaves the
  rest.
\<close>

theorem stream_calls_exact:
  assumes "stack_reach (token, s)" "write_with_marker cid bs now s = Some (r, t)"
  shows "case get_conn cid s of
      None \<Rightarrow> r = Inl UnknownConnection \<and> t = s \<and> stack_read cid m now s = (Inl UnknownConnection, s)
    | Some c \<Rightarrow>
        (if writable c
         then \<exists>c' mark. r = Inr (write_room bs (config s) c, mark) \<and> get_conn cid t = Some c' \<and>
           pending c' = pending c @ take (write_room bs (config s) c) bs
         else r = Inl (InvalidState (state c)) \<and> t = s) \<and>
        (\<exists>out u c'. stack_read cid m now s = (Inr out, u) \<and> get_conn cid u = Some c' \<and>
           out @ recv_queue c' = recv_queue c \<and> length out = min m (length (recv_queue c)))"
proof -
  note inv = reach_inv [OF assms(1)]
  have w: "wrote cid bs s r t" using write_effect [OF inv assms(2)] by blast
  show ?thesis
  proof (cases "get_conn cid s")
    case None
    then show ?thesis using w stack_read_effect(2) [OF inv None] by (auto simp: wrote_def split: sum.splits)
  next
    case (Some c)
    have "if writable c then \<exists>c' mark. r = Inr (write_room bs (config s) c, mark) \<and> get_conn cid t = Some c' \<and>
           pending c' = pending c @ take (write_room bs (config s) c) bs
         else r = Inl (InvalidState (state c)) \<and> t = s"
      using w Some by (cases r) (auto simp: wrote_def)
    with stack_read_effect(3) [OF inv Some, of m now] Some show ?thesis by simp
  qed
qed

lemma example_write:
  "\<exists>segs c'. conn_write [7, 8, 9] 30 config_default example_open = Some (Inr (3, segs), c') \<and>
     send_progress c' = (send_progress example_open)\<lparr>accepted_payload_bytes := 3\<rparr>"
proof -
  have w: "writable example_open" "write_room [7, 8, 9] config_default example_open = 3"
    by (simp_all add: writable_def write_room_def buffered_bytes_def example_open_eq config_default_def)
  show ?thesis
    using conn_write_effect [OF example_open_inv w(1), of "[7, 8, 9]" 30] w(2)
    by (auto simp: example_open_eq u128_max_def)
qed

theorem stream_calls_exact_witness:
  "\<exists>r t. write_with_marker 1 [7, 8, 9] 30 open_stack = Some (r, t) \<and>
    (if writable example_open
     then \<exists>c' mark. r = Inr (write_room [7, 8, 9] (config open_stack) example_open, mark) \<and>
       get_conn 1 t = Some c' \<and>
       pending c' = pending example_open @ take (write_room [7, 8, 9] (config open_stack) example_open) [7, 8, 9]
     else r = Inl (InvalidState (state example_open)) \<and> t = open_stack) \<and>
    (\<exists>out u c'. stack_read 1 5 30 open_stack = (Inr out, u) \<and> get_conn 1 u = Some c' \<and>
       out @ recv_queue c' = recv_queue example_open \<and> length out = min 5 (length (recv_queue example_open)))"
proof -
  obtain segs c' where "conn_write [7, 8, 9] 30 config_default example_open = Some (Inr (3, segs), c')"
    using example_write by blast
  then have "\<exists>r t. write_with_marker 1 [7, 8, 9] 30 open_stack = Some (r, t)"
    by (auto simp: write_with_marker_def split: prod.split sum.split)
  then obtain r t where w: "write_with_marker 1 [7, 8, 9] 30 open_stack = Some (r, t)" by blast
  from stream_calls_exact [OF open_stack_reach this, of 5] w show ?thesis by auto
qed

section \<open>Send markers\<close>

lemma progress_acked:
  assumes "progress_inv c'" "acks_bytes n c c'"
  shows "progress_step\<^sup>*\<^sup>* (send_progress c) (send_progress c')"
proof -
  have "send_progress c' = (send_progress c)\<lparr>acked_payload_bytes := acked_payload_bytes (send_progress c) + n\<rparr>"
    using assms(2) by (simp add: acks_bytes_def)
  moreover have "acked_payload_bytes (send_progress c) + n \<le> u128_max"
    using assms by (simp add: acks_bytes_def progress_inv_def)
  ultimately have "progress_step (send_progress c) (send_progress c')"
    by (intro step_acknowledge [of n]) (simp add: progress_acknowledge_Some)
  then show ?thesis by blast
qed

lemma effect_progress: "effect cfg c out c' \<Longrightarrow> progress_step\<^sup>*\<^sup>* (send_progress c) (send_progress c')"
  using progress_acked by (auto simp: effect_def conn_inv_def phase_inv_def)

lemma conn_step_progress:
  assumes inv: "conn_inv cfg c" and step: "conn_step cfg c c'"
  shows "progress_step\<^sup>*\<^sup>* (send_progress c) (send_progress c')"
  using step
proof cases
  case (step_segment s now u)
  then show ?thesis using on_segment_effect [OF inv, of s now] effect_progress by auto
next
  case (step_write bs now r)
  from inv step_write show ?thesis
  proof (cases rule: conn_write_cases)
    case (accepted segs)
    then have "progress_step (send_progress c) (send_progress c')"
      by (intro step_accept [of "write_room bs cfg c"]) (simp add: progress_accept_Some)
    then show ?thesis by blast
  qed simp
next
  case (step_read m r)
  then show ?thesis using conn_read_effect(1) [OF inv, of m] effect_progress by auto
next
  case (step_close now u)
  then show ?thesis using conn_close_effect [OF inv, of now] effect_progress by auto
next
  case (step_poll now u)
  then show ?thesis using conn_poll_effect [OF inv, of now] effect_progress by auto
qed

lemma conn_steps_progress:
  assumes "(conn_step cfg)\<^sup>*\<^sup>* c c'" "conn_inv cfg c"
  shows "progress_step\<^sup>*\<^sup>* (send_progress c) (send_progress c') \<and> conn_inv cfg c'"
  using assms
proof (induction rule: rtranclp_induct)
  case (step d e)
  then have "progress_step\<^sup>*\<^sup>* (send_progress c) (send_progress d)" "conn_inv cfg d" by simp_all
  with conn_step_progress [OF this(2) step(2)] conn_step_effect [OF this(2) step(2)]
  show ?case by (meson rtranclp_trans)
qed simp

text \<open>Where the marker of a write stands: behind what was pending before the write and what it added.\<close>

lemma marker_boundary:
  assumes inv: "stack_inv {} (token, s)" and w: "write_with_marker cid bs now s = Some (Inr (n, m), s1)"
    and get: "get_conn cid s = Some c0"
  shows "marker_accepted m = acked_payload_bytes (send_progress c0) + length (pending c0) + n"
proof -
  note c0 = stack_inv_conn(1) [OF inv get]
  obtain segs c' where o: "conn_write bs now (config s) c0 = Some (Inr (n, segs), c')" "m = progress_marker cid (send_progress c')"
    using w get by (auto simp: write_with_marker_def split: option.splits prod.splits sum.splits)
  from c0 o(1) have "accepted_payload_bytes (send_progress c') = accepted_payload_bytes (send_progress c0) + n"
    by (cases rule: conn_write_cases) simp_all
  moreover have "accepted_payload_bytes (send_progress c0) = acked_payload_bytes (send_progress c0) + length (pending c0)"
    using c0 by (simp add: conn_inv_def phase_inv_def progress_inv_def)
  ultimately show ?thesis by (simp add: o(2) progress_marker_def)
qed

text \<open>What a marker reports later, from what it reports now.\<close>

fun status_after :: "marker_status \<Rightarrow> marker_status set" where
  "status_after Pending = {Pending, Acked, ConnectionGone}"
| "status_after Acked = {Acked, ConnectionGone}"
| "status_after ConnectionGone = {ConnectionGone}"

text \<open>
  C16: A send marker means what it says, whatever the stack goes through: as long as the connection
  exists it is \<open>Acked\<close> exactly when, since just before the write, the peer has acknowledged at least
  as many bytes as were then queued or in flight and the write has added, so exactly when the last
  byte of the write has been acknowledged, and \<open>Pending\<close> otherwise; it is \<open>ConnectionGone\<close> exactly when the connection is gone, an \<open>Acked\<close> marker
  never becomes pending again, and a gone one never comes back.
\<close>

theorem marker_meaning:
  assumes "stack_reach (token, s)" "write_with_marker cid bs now s = Some (Inr (n, m), s1)"
    and "stack_step\<^sup>*\<^sup>* (token, s1) (token', t)" "stack_step\<^sup>*\<^sup>* (token', t) (token'', u)"
    and "get_conn cid s = Some c0"
  shows "Stack.marker_status m t = (case get_conn cid t of
      None \<Rightarrow> ConnectionGone
    | Some c \<Rightarrow> if acked_payload_bytes (send_progress c0) + length (pending c0) + n \<le> acked_payload_bytes (send_progress c)
        then Acked else Pending) \<and>
    Stack.marker_status m u \<in> status_after (Stack.marker_status m t)"
proof -
  note inv = reach_inv [OF assms(1)]
  note w = write_effect [OF inv assms(2)]
  have inv1: "stack_inv {} (token, s1)" using w by blast
  obtain c1 where c1: "get_conn cid s1 = Some c1" "m = progress_marker cid (send_progress c1)"
    using w by (auto simp: wrote_def)
  have boundary: "marker_accepted m = acked_payload_bytes (send_progress c0) + length (pending c0) + n"
    using marker_boundary [OF inv assms(2,5)] .
  note c1_inv = stack_inv_conn(1,2) [OF inv1 c1(1)]
  have t: "stack_inv {} (token', t)" "evolves s1 t" using stack_steps_effect [OF assms(3) inv1] by simp_all
  have u: "evolves t u" using stack_steps_effect [OF assms(4) t(1)] by simp
  have cid: "marker_connection_id m = cid" by (simp add: c1(2) progress_marker_def)
  have live: "progress_step\<^sup>*\<^sup>* (send_progress c1) (send_progress c) \<and> conn_inv (config t) c"
    if c: "get_conn cid t = Some c" for c
    using evolvesD(3) [OF t(2) c c1_inv(2)] c1(1) conn_steps_progress [OF _ c1_inv(1)] evolvesD(1) [OF t(2)] by auto
  have status: "Stack.marker_status m t = (case get_conn cid t of None \<Rightarrow> ConnectionGone
      | Some c \<Rightarrow> if acked_payload_bytes (send_progress c0) + length (pending c0) + n \<le> acked_payload_bytes (send_progress c)
          then Acked else Pending)"
  proof (cases "get_conn cid t")
    case None
    then show ?thesis by (simp add: Stack.marker_status_def cid)
  next
    case (Some c)
    have "progress_status m (send_progress c) \<noteq> ConnectionGone"
      using marker.mark_never_gone [of "send_progress c1" "send_progress c" cid] live [OF Some] by (simp add: c1(2))
    then have "marker_token m = connection_token (send_progress c)"
      by (auto simp: progress_status_def split: if_splits)
    then show ?thesis using Some by (simp add: Stack.marker_status_def cid progress_status_def boundary)
  qed
  have older: "cid < next_connection_id t" using c1_inv(2) evolvesD(2) [OF t(2)] by simp
  have "Stack.marker_status m u \<in> status_after (Stack.marker_status m t)"
  proof (cases "get_conn cid u")
    case None
    then have "Stack.marker_status m u = ConnectionGone" by (simp add: Stack.marker_status_def cid)
    then show ?thesis by (cases "Stack.marker_status m t") simp_all
  next
    case (Some d)
    obtain c where c: "get_conn cid t = Some c" "(conn_step (config t))\<^sup>*\<^sup>* c d"
      using evolvesD(3) [OF u Some older] by blast
    have p: "progress_step\<^sup>*\<^sup>* (send_progress c) (send_progress d)"
      using conn_steps_progress [OF c(2)] live [OF c(1)] by blast
    have "progress_status m (send_progress c) \<noteq> ConnectionGone"
      using marker.mark_never_gone [of "send_progress c1" "send_progress c" cid] live [OF c(1)] by (simp add: c1(2))
    moreover have "progress_status m (send_progress d) \<noteq> ConnectionGone"
      using marker.mark_never_gone [OF rtranclp_trans [OF conjunct1 [OF live [OF c(1)]] p], of cid]
      by (simp add: c1(2))
    moreover have "progress_status m (send_progress c) = Acked \<Longrightarrow> progress_status m (send_progress d) = Acked"
      by (rule marker.acked_stable [OF p])
    ultimately show ?thesis
      using Some c(1)
      by (cases "progress_status m (send_progress c)"; cases "progress_status m (send_progress d)")
        (simp_all add: Stack.marker_status_def cid)
  qed
  with status show ?thesis by blast
qed

text \<open>The marker of a write of three bytes, before anything is acknowledged.\<close>

theorem marker_meaning_witness:
  "\<exists>m s1. write_with_marker 1 [7, 8, 9] 30 open_stack = Some (Inr (3, m), s1) \<and>
    Stack.marker_status m s1 = Pending \<and> Stack.marker_status m s1 \<in> status_after Pending"
proof -
  obtain segs c' where c': "conn_write [7, 8, 9] 30 config_default example_open = Some (Inr (3, segs), c')"
    "send_progress c' = (send_progress example_open)\<lparr>accepted_payload_bytes := 3\<rparr>"
    using example_write by blast
  note oinv = reach_inv [OF open_stack_reach]
  have get: "get_conn 1 open_stack = Some example_open" by simp
  have segs: "\<forall>x \<in> set segs. sends example_open x"
    using talks_conn_write [OF stack_inv_conn(4) [OF oinv get] c'(1)] by (simp add: talks_def)
  have step: "conn_step (config open_stack) example_open c'" using step_write [OF c'(1)] by simp
  note e = stored(1) [OF oinv get step segs]
  let ?m = "progress_marker 1 (send_progress c')" and ?s = "sent example_open segs (put_conn 1 c' open_stack)"
  have wr: "write_with_marker 1 [7, 8, 9] 30 open_stack = Some (Inr (3, ?m), ?s)"
    using c'(1) e by (simp add: write_with_marker_def)
  have "get_conn 1 ?s = Some c'" by simp
  moreover have "acked_payload_bytes (send_progress c') = 0" "acked_payload_bytes (send_progress example_open) = 0"
    "pending example_open = []"
    by (simp_all add: c'(2) example_open_eq pending_def)
  ultimately have "Stack.marker_status ?m ?s = Pending \<and> Stack.marker_status ?m ?s \<in> status_after Pending"
    using marker_meaning [OF open_stack_reach wr rtranclp.rtrancl_refl rtranclp.rtrancl_refl get] by simp
  with wr show ?thesis by blast
qed

section \<open>Timers of the whole stack\<close>

lemma later_simps: "later now None" "later now (Some d) \<longleftrightarrow> now < d"
  by (simp_all add: later_def)

lemma later_min_list: "later now (min_list_opt xs) \<longleftrightarrow> (\<forall>x \<in> set xs. now < x)"
  by (induction xs) (simp_all add: later_opt_min later_simps)

lemma poll_one_later:
  assumes inv: "stack_inv H (token, s)" and time: "now + max_rto_ms (config s) \<le> u64_max"
  shows "\<exists>t. poll_one now cid s = Some t \<and> stack_inv H (token, t) \<and> config t = config s \<and>
    (\<forall>other. other \<noteq> cid \<longrightarrow> get_conn other t = get_conn other s) \<and>
    (get_conn cid s = None \<longrightarrow> get_conn cid t = None) \<and>
    (\<forall>c. get_conn cid t = Some c \<longrightarrow> later now (conn_next_poll_at now (config s) c))"
proof -
  obtain t where t: "poll_one now cid s = Some t" "stack_inv H (token, t)" "evolves s t"
    using poll_one_effect [OF inv] by blast
  have cfg: "config t = config s" using evolvesD(1) [OF t(3)] .
  show ?thesis
  proof (cases "get_conn cid s")
    case None
    then show ?thesis using t cfg by (auto simp: poll_one_def)
  next
    case (Some c)
    note c = stack_inv_conn [OF inv Some]
    obtain u c' where o: "conn_poll now (config s) c = Some (u, c')"
      using conn_poll_effect [OF c(1), of now] by blast
    obtain r s1 where e: "emit cid (upd_segments u) (put_conn cid c' s) = (r, s1)" by force
    have "touches (peer c') (Some cid) s (put_conn cid c' s)" by (rule put_touches)
    moreover have "touches (peer c') (Some cid) (put_conn cid c' s) s1"
      using emit_touches [of cid "put_conn cid c' s" "peer c'" "Some cid" "upd_segments u"] e by simp
    ultimately have touch: "touches (peer c') (Some cid) s s1" by (rule touches_trans)
    have t_eq: "t = (if upd_closed u then remove_connection cid s1 else s1)"
      using t(1) Some o e by (simp add: poll_one_def)
    have others: "get_conn other t = get_conn other s" if "other \<noteq> cid" for other
      using touch that by (simp add: t_eq touches_def remove_connection_table(3))
    have "later now (conn_next_poll_at now (config s) d)" if "get_conn cid t = Some d" for d
    proof (cases "upd_closed u")
      case True
      then show ?thesis using that by (simp add: t_eq remove_connection_table(3))
    next
      case False
      have segs: "\<forall>x \<in> set (upd_segments u). sends c x"
        using talks_conn_poll [OF c(4) o] by (simp add: talks_def)
      have "s1 = sent c (upd_segments u) (put_conn cid c' s)"
        using stored(1) [OF inv Some step_poll [OF o False] segs] e by simp
      then have "d = c'" using that False by (simp add: t_eq)
      then show ?thesis
        using poll_advances_deadline [OF c(1) stack_invD(1) [OF inv] time o] False by simp
    qed
    then show ?thesis using t cfg others Some by auto
  qed
qed

lemma poll_ids_later:
  assumes "stack_inv H (token, s)" "now + max_rto_ms (config s) \<le> u64_max"
    "\<forall>cid c. get_conn cid s = Some c \<longrightarrow> cid \<in> set ids \<or> later now (conn_next_poll_at now (config s) c)"
  shows "\<exists>t. poll_ids now ids s = Some t \<and> stack_inv H (token, t) \<and> config t = config s \<and>
    (\<forall>cid c. get_conn cid t = Some c \<longrightarrow> later now (conn_next_poll_at now (config s) c))"
  using assms
proof (induction ids arbitrary: s)
  case (Cons cid ids)
  obtain s1 where s1: "poll_one now cid s = Some s1" "stack_inv H (token, s1)" "config s1 = config s"
    "\<forall>other. other \<noteq> cid \<longrightarrow> get_conn other s1 = get_conn other s"
    "\<forall>c. get_conn cid s1 = Some c \<longrightarrow> later now (conn_next_poll_at now (config s) c)"
    using poll_one_later [OF Cons.prems(1,2), of cid] by blast
  have "\<forall>cid' c. get_conn cid' s1 = Some c \<longrightarrow> cid' \<in> set ids \<or> later now (conn_next_poll_at now (config s1) c)"
    using Cons.prems(3) s1(3,4,5) by (metis set_ConsD)
  from Cons.IH [OF s1(2) _ this] Cons.prems(2) s1(1,3) show ?case by simp
qed simp

text \<open>
  C15: The clock of the whole stack advances: \<open>poll\<close> always returns, whatever state the connections
  are in, and afterwards \<open>next_poll_at\<close> is a strictly later moment or none, so that a host that
  sleeps until then never spins.
\<close>

theorem poll_never_spins:
  assumes "stack_reach (token, s)" "now + max_rto_ms (config s) \<le> u64_max"
  shows "\<exists>t. poll now s = Some t \<and> stack_inv {} (token, t) \<and> later now (next_poll_at now t)"
proof -
  have "\<forall>cid c. get_conn cid s = Some c \<longrightarrow> cid \<in> set (map fst (connections s)) \<or>
      later now (conn_next_poll_at now (config s) c)"
    by (auto simp: get_conn_def dest: map_of_SomeD intro: rev_image_eqI)
  from poll_ids_later [OF reach_inv [OF assms(1)] assms(2) this]
  obtain t where t: "poll now s = Some t" "stack_inv {} (token, t)" "config t = config s"
    "\<forall>cid c. get_conn cid t = Some c \<longrightarrow> later now (conn_next_poll_at now (config s) c)"
    by (auto simp: poll_def)
  have "distinct (map fst (connections t))" using stack_invD(5) [OF t(2)] by (simp add: table_ok_def)
  then have all: "later now (conn_next_poll_at now (config t) c)" if "(cid, c) \<in> set (connections t)" for cid c
    using t(3,4) filter_key_unique [OF _ that] by (simp add: get_conn_def)
  have "later now (next_poll_at now t)"
    unfolding next_poll_at_def later_min_list
  proof
    fix x
    assume "x \<in> set (List.map_filter (\<lambda>(cid, c). conn_next_poll_at now (config t) c) (connections t))"
    then obtain cid c where "(cid, c) \<in> set (connections t)" "conn_next_poll_at now (config t) c = Some x"
      by (auto simp: List.map_filter_def)
    with all show "now < x" by (metis later_simps(2))
  qed
  with t show ?thesis by blast
qed

theorem poll_never_spins_witness:
  "\<exists>t. poll 1000 client_stack = Some t \<and> stack_inv {} (2, t) \<and> later 1000 (next_poll_at 1000 t)"
  by (rule poll_never_spins [OF client_stack_reach]) (simp add: config_default_def u64_max_def)

section \<open>Forged resets\<close>

text \<open>When a reset is believed: RFC 5961 for an open connection, the acknowledged SYN before.\<close>

definition reset_acceptable :: "segment \<Rightarrow> 'p connection \<Rightarrow> bool" where
  "reset_acceptable seg c \<longleftrightarrow>
     (if state c = SynSent
      then (case seg_ack seg of None \<Rightarrow> False | Some a \<Rightarrow> after a (send_una c) \<and> \<not> after a (send_nxt c))
      else seg_seq seg = recv_nxt c)"

definition reset_challenged :: "segment \<Rightarrow> 'p connection \<Rightarrow> bool" where
  "reset_challenged seg c \<longleftrightarrow> state c \<noteq> SynSent \<and> seg_seq seg \<noteq> recv_nxt c \<and>
     distance (recv_nxt c) (seg_seq seg) < available_window c"

lemma on_reset_cases:
  "upd_closed (on_reset seg c) \<longleftrightarrow> reset_acceptable seg c"
  "upd_segments (on_reset seg c) = (if reset_challenged seg c then [ack_segment c] else [])"
  by (auto simp: on_reset_def reset_acceptable_def reset_challenged_def update_close_def update_open_def
      Let_def split: option.split)

text \<open>
  C14: A reset ends a connection only when it proves knowledge of it: it must acknowledge the SYN in
  SYN-SENT, and carry exactly the next expected sequence number in every other state. A reset that
  is merely inside the window is answered with one challenge ACK, any other is ignored, and in both
  cases the connection, like every other one, is exactly what it was.
\<close>

theorem forged_reset:
  assumes "stack_reach (token, s)" "decode bs = Inr seg" "contains (seg_flags seg) RST"
    "get_conn cid s = Some c" "conn_key c = tuple p (seg_dst_port seg) (seg_src_port seg)"
  shows "\<exists>t. input p bs now (token, s) = Some (Inr (), (token, t)) \<and>
    (\<forall>cid'. get_conn cid' t = (if cid' = cid \<and> reset_acceptable seg c then None else get_conn cid' s)) \<and>
    outbound t = outbound s @ (if reset_challenged seg c then [packet p (ack_segment c)] else [])"
proof -
  note inv = reach_inv [OF assms(1)]
  let ?u = "on_reset seg c"
  have peer: "peer c = p" using assms(5) by (simp add: conn_key_def)
  have key: "lookup s (tuple p (seg_dst_port seg) (seg_src_port seg)) = Some cid"
    using stack_inv_conn(3) [OF inv assms(4)] assms(5) by simp
  have same: "put_conn cid c s = s"
    using assms(4) by (simp add: put_conn_def get_conn_def update_triv)
  have "ready c" by (rule stack_inv_conn(4) [OF inv assms(4)])
  then have "good_segment (ack_segment c)"
    by (simp add: ack_segment_def build_segment_good ready_def)
  then have e: "emit cid (upd_segments ?u) s = (Inr (), sent c (upd_segments ?u) s)"
    using assms(4) by (simp add: emit_def emit_all_good on_reset_cases sent_def)
  have "input_existing p cid seg now s = Some (apply_update cid ?u s)"
    using assms(3,4) same
    by (simp add: input_existing_def stale_handshake_ack_def unexpected_syn_def on_segment_def on_reset_shape(1))
  moreover have "apply_update cid ?u s = (Inr (), if reset_acceptable seg c
      then remove_connection cid (sent c (upd_segments ?u) s) else sent c (upd_segments ?u) s)"
    using e by (simp add: apply_update_def on_reset_cases)
  ultimately have i: "input p bs now (token, s) = Some (Inr (), (token, if reset_acceptable seg c
      then remove_connection cid (sent c (upd_segments ?u) s) else sent c (upd_segments ?u) s))"
    using assms(2) key by (simp add: input_def)
  have "outbound (sent c (upd_segments ?u) s) =
      outbound s @ (if reset_challenged seg c then [packet p (ack_segment c)] else [])"
    by (simp add: sent_def on_reset_cases peer)
  then show ?thesis
    unfolding i by (auto simp: remove_connection_table(3))
qed

text \<open>A reset one byte off the expected number.\<close>

theorem forged_reset_witness:
  "\<exists>t. input 7 (wire_bytes ((segment_new 80 49152 5002)\<lparr>seg_flags := RST\<rparr>)) 30 (2, open_stack) =
      Some (Inr (), (2, t)) \<and> get_conn 1 t = Some example_open \<and>
    outbound t = outbound open_stack @ [packet 7 (ack_segment example_open)]"
proof -
  let ?s = "(segment_new 80 49152 5002)\<lparr>seg_flags := RST\<rparr>"
  have good: "good_segment ?s" by (simp add: good_segment_def segment_new_def)
  have key: "conn_key example_open = tuple 7 (seg_dst_port ?s) (seg_src_port ?s)"
    by (simp add: conn_key_def example_open_eq segment_new_def)
  have no: "\<not> reset_acceptable ?s example_open"
    by (simp add: reset_acceptable_def example_open_eq segment_new_def)
  have yes: "reset_challenged ?s example_open"
    by (simp add: reset_challenged_def example_open_eq segment_new_def distance_def available_window_def
        sat_add64_def u64_max_def)
  have "get_conn 1 open_stack = Some example_open" by simp
  from forged_reset [OF open_stack_reach decode_wire_bytes [OF good] _ this key, of 30] no yes
  show ?thesis by auto
qed

end
