(* ===== verification/Stack_Ghost.thy ===== *)
theory Stack_Ghost
  imports Stack_Calls Conversation
begin

text \<open>
  Two whole stacks that exchange encoded datagrams over a network that may lose, repeat, delay and
  reorder them, while each serves other peers and other connections. One connection of each, of
  one tuple, is followed: a ghost \<open>endpoint\<close> of theory \<open>Conversation\<close> shows what the stack holds of
  it, every call of the stack moves the ghost by the steps of that theory, and so the bytes that
  \<open>read\<close> returns on one stack are a prefix of those that \<open>write\<close> accepted on the other.
\<close>

section \<open>The packets of a tuple\<close>

text \<open>Every datagram of the tuple is one of the segments in \<open>S\<close>.\<close>

definition carries :: "'p connection_key \<Rightarrow> segment set \<Rightarrow> bytes \<Rightarrow> bool" where
  "carries key S bs \<longleftrightarrow> (\<forall>seg. decode bs = Inr seg \<longrightarrow>
     seg_src_port seg = key_local_port key \<longrightarrow> seg_dst_port seg = key_remote_port key \<longrightarrow> seg \<in> S)"

definition queue_carries :: "'p connection_key \<Rightarrow> segment set \<Rightarrow> 'p outbound list \<Rightarrow> bool" where
  "queue_carries key S xs \<longleftrightarrow> (\<forall>x \<in> set xs. out_peer x = key_peer key \<longrightarrow> carries key S (out_bytes x))"

lemma carries_mono: "carries key S bs \<Longrightarrow> S \<subseteq> T \<Longrightarrow> carries key T bs"
  by (auto simp: carries_def)

lemma queue_carries_mono: "queue_carries key S xs \<Longrightarrow> S \<subseteq> T \<Longrightarrow> queue_carries key T xs"
  by (auto simp: queue_carries_def intro: carries_mono)

lemma queue_carries_simps [simp]:
  "queue_carries key S []"
  "queue_carries key S (xs @ ys) \<longleftrightarrow> queue_carries key S xs \<and> queue_carries key S ys"
  "queue_carries key S (x # xs) \<longleftrightarrow>
     (out_peer x = key_peer key \<longrightarrow> carries key S (out_bytes x)) \<and> queue_carries key S xs"
  by (auto simp: queue_carries_def)

lemma queue_carries_subset: "queue_carries key S xs \<Longrightarrow> set ys \<subseteq> set xs \<Longrightarrow> queue_carries key S ys"
  by (auto simp: queue_carries_def)

lemma carries_packet: "good_segment x \<Longrightarrow> x \<in> S \<Longrightarrow> carries key S (wire_bytes x)"
  by (simp add: carries_def decode_wire_bytes)

text \<open>What a connection sends belongs to its own tuple.\<close>

lemma queue_carries_sends:
  assumes "\<forall>x \<in> set segs. sends c x" "conn_key c = key \<Longrightarrow> set segs \<subseteq> S"
  shows "queue_carries key S (map (packet (peer c)) segs)"
proof -
  have "carries key S (wire_bytes x)" if x: "x \<in> set segs" and p: "peer c = key_peer key" for x
  proof -
    have s: "good_segment x" "seg_src_port x = local_port c" "seg_dst_port x = remote_port c"
      using assms(1) x by (simp_all add: sends_def)
    show ?thesis
    proof (cases "conn_key c = key")
      case True
      then show ?thesis using assms(2) x s(1) by (intro carries_packet) auto
    next
      case False
      then have "local_port c \<noteq> key_local_port key \<or> remote_port c \<noteq> key_remote_port key"
        using p by (auto simp: conn_key_def)
      then show ?thesis using s by (auto simp: carries_def decode_wire_bytes)
    qed
  qed
  then show ?thesis by (auto simp: queue_carries_def packet_def)
qed

section \<open>The ghost endpoint\<close>

text \<open>
  \<open>plain\<close> segments carry nothing of a stream: the resets a stack sends for a tuple without a
  connection, and the acknowledgments that challenge an unexpected SYN.
\<close>

definition plain :: "segment \<Rightarrow> bool" where
  "plain s \<longleftrightarrow> seg_payload s = [] \<and> \<not> contains (seg_flags s) SYN \<and> \<not> contains (seg_flags s) FIN"

lemma plain_sent_ok: "plain s \<Longrightarrow> sent_ok b S e s"
  by (simp add: plain_def sent_ok_def)

inductive quiet_step :: "config \<Rightarrow> segment set \<Rightarrow> 'p endpoint \<Rightarrow> 'p endpoint \<Rightarrow> bool" for cfg net where
  quiet_conn: "endpoint_step cfg net x x' \<Longrightarrow> ep_written x' = ep_written x \<Longrightarrow> ep_read x' = ep_read x \<Longrightarrow>
     quiet_step cfg net x x'"
| quiet_reply: "\<forall>s \<in> S. plain s \<Longrightarrow> quiet_step cfg net x (x\<lparr>ep_sent := ep_sent x \<union> S\<rparr>)"
| quiet_gone: "quiet_step cfg net x (x\<lparr>ep_live := False\<rparr>)"

abbreviation quiet_steps :: "config \<Rightarrow> segment set \<Rightarrow> 'p endpoint \<Rightarrow> 'p endpoint \<Rightarrow> bool" where
  "quiet_steps cfg net \<equiv> (quiet_step cfg net)\<^sup>*\<^sup>*"

lemma quiet_steps_streams: "quiet_steps cfg net x x' \<Longrightarrow> ep_written x' = ep_written x \<and> ep_read x' = ep_read x \<and> ep_sent x \<subseteq> ep_sent x'"
proof (induction rule: rtranclp_induct)
  case (step y z)
  from step(2) have "ep_written z = ep_written y \<and> ep_read z = ep_read y \<and> ep_sent y \<subseteq> ep_sent z"
    by cases (auto elim: endpoint_step.cases)
  then show ?case using step(3) by auto
qed simp

text \<open>The stack \<open>s\<close> holds what the ghost \<open>e\<close> says: \<open>cid\<close> is the one connection of the tuple.\<close>

definition follows :: "'p connection_key \<Rightarrow> connection_id \<Rightarrow> 'p stack \<Rightarrow> bool" where
  "follows key cid s \<longleftrightarrow> (\<forall>i c. get_conn i s = Some c \<longrightarrow> (conn_key c = key \<longleftrightarrow> i = cid))"

definition shows_conn :: "'p connection_key \<Rightarrow> connection_id \<Rightarrow> 'p endpoint \<Rightarrow> 'p stack \<Rightarrow> bool" where
  "shows_conn key cid e s \<longleftrightarrow>
     (case get_conn cid s of None \<Rightarrow> \<not> ep_live e | Some c \<Rightarrow> ep_live e \<and> ep_conn e = c) \<and>
     queue_carries key (ep_sent e) (outbound s)"

text \<open>A part of a call that does not create the connection: the ghost moves along.\<close>

definition moves ::
  "config \<Rightarrow> segment set \<Rightarrow> 'p connection_key \<Rightarrow> connection_id \<Rightarrow> 'p stack \<Rightarrow> 'p stack \<Rightarrow> bool" where
  "moves cfg net key cid s t \<longleftrightarrow> (follows key cid s \<longrightarrow> follows key cid t \<and>
     (cid < next_connection_id t \<longleftrightarrow> cid < next_connection_id s) \<and>
     (\<forall>e. shows_conn key cid e s \<longrightarrow> (\<exists>e'. quiet_steps cfg net e e' \<and> shows_conn key cid e' t)))"

lemma moves_refl: "moves cfg net key cid s s"
  by (auto simp: moves_def)

lemma moves_trans: "moves cfg net key cid s t \<Longrightarrow> moves cfg net key cid t u \<Longrightarrow> moves cfg net key cid s u"
  unfolding moves_def by (meson rtranclp_trans)

lemma moves_one:
  assumes "next_connection_id t = next_connection_id s" "follows key cid s \<Longrightarrow> follows key cid t"
    and "\<And>e. follows key cid s \<Longrightarrow> shows_conn key cid e s \<Longrightarrow> \<exists>e'. quiet_steps cfg net e e' \<and> shows_conn key cid e' t"
  shows "moves cfg net key cid s t"
  using assms by (simp add: moves_def)

lemma moves_same:
  assumes "\<And>i. get_conn i t = get_conn i s" "set (outbound t) \<subseteq> set (outbound s)"
    "next_connection_id t = next_connection_id s"
  shows "moves cfg net key cid s t"
proof (rule moves_one [OF assms(3)])
  show "follows key cid s \<Longrightarrow> follows key cid t" by (simp add: follows_def assms(1))
  show "\<exists>e'. quiet_steps cfg net e e' \<and> shows_conn key cid e' t" if "shows_conn key cid e s" for e
    using that assms by (intro exI [of _ e]) (auto simp: shows_conn_def intro: queue_carries_subset)
qed

lemma moves_reply:
  assumes x: "good_segment x" "plain x" and t: "t = s\<lparr>outbound := outbound s @ [packet p x]\<rparr>"
  shows "moves cfg net key cid s t"
proof (rule moves_one)
  show "next_connection_id t = next_connection_id s" by (simp add: t)
  show "follows key cid s \<Longrightarrow> follows key cid t" by (simp add: follows_def t)
  show "\<exists>e'. quiet_steps cfg net e e' \<and> shows_conn key cid e' t" if "shows_conn key cid e s" for e
  proof (intro exI conjI)
    show "quiet_steps cfg net e (e\<lparr>ep_sent := ep_sent e \<union> {x}\<rparr>)"
      using quiet_reply [of "{x}" cfg net e] x(2) by auto
    show "shows_conn key cid (e\<lparr>ep_sent := ep_sent e \<union> {x}\<rparr>) t"
      using that x(1) by (auto simp: shows_conn_def t packet_def carries_packet
          intro: queue_carries_mono split: option.splits)
  qed
qed

lemma moves_removed: "moves cfg net key cid s (remove_connection i s)"
proof (rule moves_one)
  show "next_connection_id (remove_connection i s) = next_connection_id s" by simp
  show "follows key cid s \<Longrightarrow> follows key cid (remove_connection i s)"
    by (simp add: follows_def remove_connection_table(3))
  show "\<exists>e'. quiet_steps cfg net e e' \<and> shows_conn key cid e' (remove_connection i s)"
    if e: "shows_conn key cid e s" for e
  proof (cases "i = cid")
    case True
    have "quiet_steps cfg net e (e\<lparr>ep_live := False\<rparr>)" by (blast intro: quiet_gone)
    moreover have "shows_conn key cid (e\<lparr>ep_live := False\<rparr>) (remove_connection i s)"
      using e by (simp add: shows_conn_def remove_connection_table(3) True)
    ultimately show ?thesis by blast
  next
    case False
    then have "shows_conn key cid e (remove_connection i s)"
      using e by (simp add: shows_conn_def remove_connection_table(3))
    then show ?thesis by blast
  qed
qed

text \<open>
  A step of a connection, stored and emitted as every call of the stack does it. For the followed
  connection it is a step of the ghost.
\<close>

definition advances ::
  "connection_id \<Rightarrow> 'p connection \<Rightarrow> 'p connection \<Rightarrow> segment list \<Rightarrow> bool \<Rightarrow> 'p stack \<Rightarrow> 'p stack \<Rightarrow> bool" where
  "advances i c c' segs closed s t \<longleftrightarrow>
     (\<forall>j. get_conn j t = (if j = i then if closed then None else Some c' else get_conn j s)) \<and>
     outbound t = outbound s @ map (packet (peer c)) segs \<and> next_connection_id t = next_connection_id s"

lemma advances_emit:
  assumes "\<forall>x \<in> set segs. sends c x" "identity c' = identity c"
    and "emit i segs (put_conn i c' s) = (r, q)"
  shows "r = Inr ()" "advances i c c' segs closed s (if closed then remove_connection i q else q)"
  using assms emit_sends [of i "put_conn i c' s" c' segs c] conn_key_identity [OF assms(2)]
  by (auto simp: advances_def sent_def remove_connection_table(3))

lemma follows_advances:
  assumes "advances i c c' segs closed s t" "get_conn i s = Some c" "identity c' = identity c" "follows key cid s"
  shows "follows key cid t"
proof -
  have "conn_key c' = conn_key c" using conn_key_identity [OF assms(3)] by simp
  moreover have "conn_key c = key \<longleftrightarrow> i = cid" using assms(2,4) by (auto simp: follows_def)
  ultimately show ?thesis using assms(1,4) by (auto simp: follows_def advances_def split: if_splits)
qed

lemma shows_advances:
  assumes "advances cid c c' segs closed s t" "\<forall>x \<in> set segs. sends c x" "shows_conn key cid e s"
    and "ep_conn e' = c'" "ep_sent e' = ep_sent e \<union> set segs" "ep_live e' = (\<not> closed)"
  shows "shows_conn key cid e' t"
proof -
  have "queue_carries key (ep_sent e \<union> set segs) (outbound s @ map (packet (peer c)) segs)"
    using assms(3) queue_carries_sends [OF assms(2), of key "ep_sent e \<union> set segs"]
    by (auto simp: shows_conn_def intro: queue_carries_mono)
  then show ?thesis using assms by (simp add: shows_conn_def advances_def)
qed

lemma moves_advances:
  assumes t: "advances i c c' segs closed s t" and get: "get_conn i s = Some c"
    and id: "identity c' = identity c" and segs: "\<forall>x \<in> set segs. sends c x"
    and ghost: "\<And>e. i = cid \<Longrightarrow> conn_key c = key \<Longrightarrow> ep_live e \<Longrightarrow> ep_conn e = c \<Longrightarrow>
      quiet_step cfg net e (e\<lparr>ep_conn := c', ep_sent := ep_sent e \<union> set segs, ep_live := \<not> closed\<rparr>)"
  shows "moves cfg net key cid s t"
  unfolding moves_def
proof (intro impI conjI allI)
  assume fol: "follows key cid s"
  have own: "conn_key c = key \<longleftrightarrow> i = cid" using fol get by (auto simp: follows_def)
  show "follows key cid t" using follows_advances [OF t get id fol] .
  show "cid < next_connection_id t \<longleftrightarrow> cid < next_connection_id s"
    using t by (simp add: advances_def)
  fix e
  assume e: "shows_conn key cid e s"
  show "\<exists>e'. quiet_steps cfg net e e' \<and> shows_conn key cid e' t"
  proof (cases "i = cid")
    case True
    let ?e = "e\<lparr>ep_conn := c', ep_sent := ep_sent e \<union> set segs, ep_live := \<not> closed\<rparr>"
    have "ep_live e" "ep_conn e = c" using e get True by (simp_all add: shows_conn_def)
    then have "quiet_step cfg net e ?e" using ghost True own by simp
    moreover have "shows_conn key cid ?e t"
      using t True by (intro shows_advances [OF _ segs e]) simp_all
    ultimately show ?thesis by blast
  next
    case False
    then have "shows_conn key cid e t"
      using e t own queue_carries_sends [OF segs, of key "ep_sent e"]
      by (simp add: shows_conn_def advances_def)
    then show ?thesis by blast
  qed
qed

section \<open>The calls of the stack\<close>

text \<open>The replies that are not a connection's own.\<close>

lemma reset_for_plain: "plain (reset_for seg)"
  by (auto simp: plain_def reset_for_def Let_def segment_new_def flags_union_def split: option.split)

lemma moves_reset: "good_segment seg \<Longrightarrow> moves cfg net key cid s (snd (emit_reset p seg s))"
  by (rule moves_reply [OF reset_for_good reset_for_plain]) (simp_all add: emit_reset_good)

lemma ack_segment_plain: "plain (ack_segment c)"
  by (simp add: plain_def ack_segment_def)

text \<open>How the calls on an existing connection advance it.\<close>

lemma deliver_advances:
  assumes inv: "stack_inv H (token, s)" and get: "get_conn i s = Some c"
    and pass: "\<not> stale_handshake_ack seg c" "\<not> unexpected_syn seg c"
    and o: "on_segment seg now (config s) c = Some (u, c')"
    and r: "input_existing p i seg now s = Some (r, t)"
  shows "identity c' = identity c" "\<forall>x \<in> set (upd_segments u). sends c x"
    "advances i c c' (upd_segments u) (upd_closed u) s t"
proof -
  note c = stack_inv_conn [OF inv get]
  have "if upd_closed u
     then contains (seg_flags seg) RST \<and> c' = c \<and> upd_segments u = [] \<or> finished c (upd_segments u) c'
     else effect (config s) c (upd_segments u) c'"
    using on_segment_effect [OF c(1), of seg now] o by auto
  then show id: "identity c' = identity c"
    by (auto simp: finished_def effect_def split: if_splits)
  show segs: "\<forall>x \<in> set (upd_segments u). sends c x"
    using talks_on_segment [OF c(4) o] by (simp add: talks_def)
  show "advances i c c' (upd_segments u) (upd_closed u) s t"
    using r get pass o emit_sends [of i "push_accept (local_port c') i (put_conn i c' s)" c' "upd_segments u" c]
      emit_sends [of i "put_conn i c' s" c' "upd_segments u" c] segs conn_key_identity [OF id]
    by (cases "upd_accepted u") (auto simp: input_existing_def apply_update_def Let_def push_accept_def
        sent_def advances_def remove_connection_table(3))
qed

lemma write_advances:
  assumes inv: "stack_inv H (token, s)" and r: "write_with_marker i bs now s = Some (Inr (n, m), t)"
  obtains c segs c' where "get_conn i s = Some c" "conn_write bs now (config s) c = Some (Inr (n, segs), c')"
    "identity c' = identity c" "\<forall>x \<in> set segs. sends c x" "advances i c c' segs False s t"
proof -
  obtain c where get: "get_conn i s = Some c"
    using write_effect [OF inv r] by (auto simp: wrote_def)
  note c = stack_inv_conn [OF inv get]
  obtain segs c' q where o: "conn_write bs now (config s) c = Some (Inr (n, segs), c')"
    and q: "emit i segs (put_conn i c' s) = (q, t)"
    using r get by (auto simp: write_with_marker_def split: option.splits sum.splits prod.splits)
  have segs: "\<forall>x \<in> set segs. sends c x"
    using talks_conn_write [OF c(4) o] by (simp add: talks_def)
  have id: "identity c' = identity c"
    using conn_step_effect [OF c(1) step_write [OF o]] by simp
  show thesis
    using advances_emit(2) [OF segs id q, of False] by (intro that [OF get o id segs]) simp
qed

lemma read_advances:
  assumes inv: "stack_inv H (token, s)" and r: "stack_read i m now s = (Inr bs, t)"
  obtains c segs c' where "get_conn i s = Some c" "conn_read m c = ((bs, segs), c')"
    "identity c' = identity c" "\<forall>x \<in> set segs. sends c x" "advances i c c' segs False s t"
proof -
  obtain c where get: "get_conn i s = Some c"
    using r by (auto simp: stack_read_def split: option.splits)
  note c = stack_inv_conn [OF inv get]
  obtain bs' segs c' where o: "conn_read m c = ((bs', segs), c')" by (metis surj_pair)
  have segs: "\<forall>x \<in> set segs. sends c x"
    using talks_conn_read [OF c(4), of m] o by (simp add: talks_def)
  have id: "identity c' = identity c"
    using conn_step_effect [OF c(1) step_read [OF o]] by simp
  obtain q q' where q: "emit i segs (put_conn i c' s) = (q, q')" by force
  have "t = q'" "bs' = bs" using r get o q advances_emit(1) [OF segs id q] by (auto simp: stack_read_def)
  then show thesis
    using o advances_emit(2) [OF segs id q, of False] by (intro that [OF get _ id segs]) simp_all
qed

lemma moves_input_existing:
  assumes inv: "stack_inv H (token, s)" and get: "get_conn i s = Some c" and good: "good_segment seg"
    and r: "input_existing p i seg now s = Some (r, t)" and net: "conn_key c = key \<Longrightarrow> seg \<in> net"
  shows "moves (config s) net key cid s t"
proof -
  note c = stack_inv_conn [OF inv get]
  consider (stale) "stale_handshake_ack seg c" | (syn) "\<not> stale_handshake_ack seg c" "unexpected_syn seg c"
    | (deliver) "\<not> stale_handshake_ack seg c" "\<not> unexpected_syn seg c" by blast
  then show ?thesis
  proof cases
    case stale
    then show ?thesis
      using r get moves_reset [OF good] by (auto simp: input_existing_def emit_reset_good [OF good])
  next
    case syn
    then have "t = s\<lparr>outbound := outbound s @ [packet (peer c) (ack_segment c)]\<rparr>"
      using r get emit_sends [OF get, of "[ack_segment c]" c] sends_ack [OF c(4)]
      by (simp add: input_existing_def sent_def)
    then show ?thesis
      using sends_ack [OF c(4)] by (intro moves_reply [OF _ ack_segment_plain]) (simp_all add: sends_def)
  next
    case deliver
    obtain u c' where o: "on_segment seg now (config s) c = Some (u, c')"
      using on_segment_effect [OF c(1), of seg now] by blast
    note adv = deliver_advances [OF inv get deliver o r]
    show ?thesis
    proof (rule moves_advances [OF adv(3) get adv(1,2)])
      fix e :: "'a endpoint"
      assume e: "conn_key c = key" "ep_live e" "ep_conn e = c"
      show "quiet_step (config s) net e (e\<lparr>ep_conn := c', ep_sent := ep_sent e \<union> set (upd_segments u),
          ep_live := \<not> upd_closed u\<rparr>)"
        using ep_deliver [OF e(2) net [OF e(1)], of now "config s" u c'] o e(3)
        by (intro quiet_conn) simp_all
    qed
  qed
qed

lemma moves_poll_one:
  assumes inv: "stack_inv H (token, s)" and r: "poll_one now i s = Some t"
  shows "moves (config s) net key cid s t"
proof (cases "get_conn i s")
  case None
  then show ?thesis using r by (simp add: poll_one_def moves_refl)
next
  case (Some c)
  note c = stack_inv_conn [OF inv Some]
  obtain u c' where o: "conn_poll now (config s) c = Some (u, c')" "effect (config s) c (upd_segments u) c'"
    using conn_poll_effect [OF c(1), of now] by blast
  have segs: "\<forall>x \<in> set (upd_segments u). sends c x"
    using talks_conn_poll [OF c(4) o(1)] by (simp add: talks_def)
  have id: "identity c' = identity c" using o(2) by (simp add: effect_def)
  obtain q q' where q: "emit i (upd_segments u) (put_conn i c' s) = (q, q')" by force
  have "t = (if upd_closed u then remove_connection i q' else q')"
    using r Some o(1) q by (simp add: poll_one_def)
  then have "advances i c c' (upd_segments u) (upd_closed u) s t"
    using advances_emit(2) [OF segs id q] by simp
  then show ?thesis
  proof (rule moves_advances [OF _ Some id segs])
    fix e :: "'a endpoint"
    assume e: "ep_live e" "ep_conn e = c"
    show "quiet_step (config s) net e (e\<lparr>ep_conn := c', ep_sent := ep_sent e \<union> set (upd_segments u),
        ep_live := \<not> upd_closed u\<rparr>)"
      using ep_poll [OF e(1), of now "config s" u c' net] o(1) e(2) by (intro quiet_conn) simp_all
  qed
qed

lemma moves_poll:
  assumes "stack_inv H (token, s)" "poll_ids now ids s = Some t"
  shows "moves (config s) net key cid s t"
  using assms
proof (induction ids arbitrary: s)
  case Nil
  then show ?case by (simp add: moves_refl)
next
  case (Cons i ids)
  obtain s1 where s1: "poll_one now i s = Some s1" "poll_ids now ids s1 = Some t"
    using Cons.prems(2) by (auto split: option.splits)
  have e: "stack_inv H (token, s1)" "config s1 = config s"
    using poll_one_effect [OF Cons.prems(1), of now i] s1(1) by (auto simp: evolves_def)
  show ?case
    using moves_trans [OF moves_poll_one [OF Cons.prems(1) s1(1)]] Cons.IH [OF e(1) s1(2)] e(2) by simp
qed

lemma moves_close:
  assumes inv: "stack_inv H (token, s)" and r: "stack_close i now s = Some (r, t)"
  shows "moves (config s) net key cid s t"
proof (cases "get_conn i s")
  case None
  then show ?thesis using r by (simp add: stack_close_def moves_refl)
next
  case (Some c)
  note c = stack_inv_conn [OF inv Some]
  obtain u c' where o: "conn_close now c = Some (u, c')" "effect (config s) c (upd_segments u) c'"
    using conn_close_effect [OF c(1), of now] by blast
  have segs: "\<forall>x \<in> set (upd_segments u). sends c x"
    using talks_conn_close [OF c(4) o(1)] by (simp add: talks_def)
  have id: "identity c' = identity c" using o(2) by (simp add: effect_def)
  obtain q q' where q: "emit i (upd_segments u) (put_conn i c' s) = (q, q')" by force
  have "t = (if upd_closed u then remove_connection i q' else q')"
    using r Some o(1) q advances_emit(1) [OF segs id q] by (auto simp: stack_close_def apply_update_def)
  then have "advances i c c' (upd_segments u) (upd_closed u) s t"
    using advances_emit(2) [OF segs id q] by simp
  then show ?thesis
  proof (rule moves_advances [OF _ Some id segs])
    fix e :: "'a endpoint"
    assume e: "ep_live e" "ep_conn e = c"
    show "quiet_step (config s) net e (e\<lparr>ep_conn := c', ep_sent := ep_sent e \<union> set (upd_segments u),
        ep_live := \<not> upd_closed u\<rparr>)"
      using ep_close [OF e(1), of now u c' "config s" net] o(1) e(2) by (intro quiet_conn) simp_all
  qed
qed

text \<open>A read or a write of another connection.\<close>

lemma moves_other_write:
  assumes inv: "stack_inv H (token, s)" and r: "write_with_marker i bs now s = Some (r, t)" and i: "i \<noteq> cid"
  shows "moves (config s) net key cid s t"
proof (cases r)
  case (Inl err)
  then have "t = s" using write_effect [OF inv r] by (simp add: wrote_def)
  then show ?thesis by (simp add: moves_refl)
next
  case (Inr w)
  then have "write_with_marker i bs now s = Some (Inr (fst w, snd w), t)" using r by simp
  from inv this show ?thesis
  proof (rule write_advances)
    fix c segs c'
    assume "get_conn i s = Some c" "identity c' = identity c" "\<forall>x \<in> set segs. sends c x"
      "advances i c c' segs False s t"
    then show ?thesis using i by (intro moves_advances [where c = c and c' = c' and closed = False]) blast+
  qed
qed

lemma moves_other_read:
  assumes inv: "stack_inv H (token, s)" and r: "stack_read i m now s = (r, t)" and i: "i \<noteq> cid"
  shows "moves (config s) net key cid s t"
proof (cases "get_conn i s")
  case None
  then show ?thesis using r by (simp add: stack_read_def moves_refl)
next
  case (Some c)
  then obtain bs where "stack_read i m now s = (Inr bs, t)"
    using stack_read_effect(3) [OF inv Some, of m now] r by auto
  from inv this show ?thesis
  proof (rule read_advances)
    fix c segs c'
    assume "get_conn i s = Some c" "identity c' = identity c" "\<forall>x \<in> set segs. sends c x"
      "advances i c c' segs False s t"
    then show ?thesis using i by (intro moves_advances [where c = c and c' = c' and closed = False]) blast+
  qed
qed

lemma moves_abort:
  assumes inv: "stack_inv H (token, s)" and r: "abort i s = (r, t)"
  shows "moves cfg net key cid s t"
proof (cases "get_conn i s")
  case None
  then show ?thesis using r by (simp add: abort_def moves_refl)
next
  case (Some c)
  have good: "good_segment (reset_segment c)"
    using sends_reset [OF stack_inv_conn(4) [OF inv Some]] by (simp add: sends_def)
  have "plain (reset_segment c)" by (simp add: plain_def reset_segment_def)
  note reply = moves_reply [OF good this refl, of cfg net key cid _ "peer c"]
  note a = abort_effect(3) [OF inv Some, unfolded r snd_conv]
  obtain xs where xs: "outbound t = xs @ [packet (peer c) (reset_segment c)]" "set xs \<subseteq> set (outbound s)"
    using a by auto
  let ?s1 = "s\<lparr>outbound := xs\<rparr>"
  let ?s2 = "?s1\<lparr>outbound := outbound ?s1 @ [packet (peer c) (reset_segment c)]\<rparr>"
  have "moves cfg net key cid s ?s1" using xs(2) by (intro moves_same) simp_all
  from moves_trans [OF moves_trans [OF this reply] moves_removed [of cfg net key cid _ i]]
  have "moves cfg net key cid s (remove_connection i ?s2)" by simp
  moreover have "moves cfg net key cid (remove_connection i ?s2) t"
  proof (rule moves_same)
    have "next_connection_id t = next_connection_id s"
      using r Some encode_good [OF good] by (auto simp: abort_def Let_def)
    then show "next_connection_id t = next_connection_id (remove_connection i ?s2)" by simp
  qed (use a xs(1) in \<open>simp_all add: remove_connection_table(3)\<close>)
  ultimately show ?thesis by (rule moves_trans)
qed

lemma moves_abort_ids:
  assumes "stack_inv H (token, s)" "abort_ids ids s = (r, t)"
  shows "moves cfg net key cid s t"
  using assms
proof (induction ids arbitrary: s)
  case Nil
  then show ?case by (simp add: moves_refl)
next
  case (Cons i ids)
  obtain r1 s1 where s1: "abort i s = (r1, s1)" by force
  have "stack_inv H (token, s1)" using abort_effect(1) [OF Cons.prems(1), of i] s1 by simp
  then show ?case
    using moves_trans [OF moves_abort [OF Cons.prems(1) s1]] moves_abort [OF Cons.prems(1) s1]
      Cons.IH [of s1] Cons.prems(2) s1
    by (auto split: sum.splits)
qed

section \<open>New connections\<close>

text \<open>
  A call that creates a connection: a client with its SYN, or a server that answers a SYN. If the new
  connection is the followed one, the SYN is one of the segments in \<open>net\<close>.
\<close>

definition newly :: "config \<Rightarrow> segment set \<Rightarrow> 'p connection_key \<Rightarrow> 'p connection \<Rightarrow> segment \<Rightarrow> u32 \<Rightarrow> bool" where
  "newly cfg net key c seg isn \<longleftrightarrow>
     (\<exists>st fs rcv who. created cfg st fs isn rcv who c seg \<and> contains fs SYN \<and> phase st = Opening \<and>
        (st = SynSent \<or> (\<exists>syn. contains (seg_flags syn) SYN \<and> rcv = seg_seq syn + 1 \<and>
           (conn_key c = key \<longrightarrow> syn \<in> net))))"

lemma newly_client: "created cfg SynSent SYN isn rcv who c seg \<Longrightarrow> newly cfg net key c seg isn"
  unfolding newly_def by (intro exI conjI, assumption) simp_all

lemma newly_server:
  "created cfg SynReceived (SYN OR ACK) isn (seg_seq syn + 1) who c seg \<Longrightarrow> contains (seg_flags syn) SYN \<Longrightarrow>
   (conn_key c = key \<Longrightarrow> syn \<in> net) \<Longrightarrow> newly cfg net key c seg isn"
  unfolding newly_def by (intro exI conjI disjI2, assumption) auto

definition creates :: "segment set \<Rightarrow> 'p connection_key \<Rightarrow> 'p stack \<Rightarrow> 'p stack \<Rightarrow> 'p connection \<Rightarrow> segment \<Rightarrow> u32 \<Rightarrow> bool" where
  "creates net key s t c seg isn \<longleftrightarrow>
     (\<forall>i. get_conn i t = (if i = next_connection_id s then Some c else get_conn i s)) \<and>
     outbound t = outbound s @ [packet (peer c) seg] \<and>
     next_connection_id t = Suc (next_connection_id s) \<and> sends c seg \<and> newly (config s) net key c seg isn"

lemma creates_inserted:
  assumes inv: "stack_inv H (token, s)" and token: "token < u64_max" and seg: "sends c seg"
    and same: "connections s1 = connections s" "outbound s1 = outbound s"
      "next_connection_id s1 = next_connection_id s"
    and new: "newly (config s) net key c seg isn"
  shows "creates net key s (sent c [seg] (inserted c s1)) c seg isn"
proof -
  have "max (wrap64 (next_connection_id s + 1)) 1 = Suc (next_connection_id s)"
    using stack_invD(3) [OF inv] token by simp
  moreover have "get_conn i s1 = get_conn i s" for i by (simp add: get_conn_def same(1))
  ultimately show ?thesis
    using seg new same by (simp add: creates_def inserted_def) (auto simp: sent_def)
qed

lemma creates_key:
  assumes "creates net key s t c seg isn" "follows key cid t"
  shows "conn_key c = key \<longleftrightarrow> cid = next_connection_id s"
proof -
  have "get_conn (next_connection_id s) t = Some c" using assms(1) by (simp add: creates_def)
  then show ?thesis using assms(2) unfolding follows_def by blast
qed

text \<open>A new connection of another tuple moves nothing.\<close>

lemma creates_other:
  assumes c: "creates net key s t c seg isn" and t: "follows key cid t" and key: "conn_key c \<noteq> key"
  shows "moves cfg net key cid s t"
  unfolding moves_def
proof (intro impI conjI allI)
  note d = c [unfolded creates_def]
  have cid: "cid \<noteq> next_connection_id s" using creates_key [OF c t] key by simp
  show "follows key cid t" by (rule t)
  show "cid < next_connection_id t \<longleftrightarrow> cid < next_connection_id s" using d cid by auto
  fix e
  assume e: "shows_conn key cid e s"
  have "queue_carries key (ep_sent e) (map (packet (peer c)) [seg])"
    using d key by (intro queue_carries_sends) simp_all
  then have "shows_conn key cid e t"
    using e d cid by (simp add: shows_conn_def)
  then show "\<exists>e'. quiet_steps cfg net e e' \<and> shows_conn key cid e' t" by blast
qed

lemma creates_own:
  assumes c: "creates net key s t c seg isn" and t: "follows key cid t" and key: "conn_key c = key"
    and e: "shows_conn key cid e s"
  shows "cid = next_connection_id s"
    "shows_conn key cid (e\<lparr>ep_conn := c, ep_sent := ep_sent e \<union> {seg}, ep_live := True\<rparr>) t"
proof -
  note d = c [unfolded creates_def]
  show cid: "cid = next_connection_id s" using creates_key [OF c t] key by simp
  have "queue_carries key (ep_sent e \<union> {seg}) (map (packet (peer c)) [seg])"
    using d key by (intro queue_carries_sends) simp_all
  moreover have "queue_carries key (ep_sent e \<union> {seg}) (outbound s)"
    using e by (auto simp: shows_conn_def intro: queue_carries_mono)
  ultimately show "shows_conn key cid (e\<lparr>ep_conn := c, ep_sent := ep_sent e \<union> {seg}, ep_live := True\<rparr>) t"
    using d by (simp add: shows_conn_def cid)
qed

text \<open>Whatever a call does, it either moves the ghost or creates one connection.\<close>

definition proceeds :: "segment set \<Rightarrow> 'p connection_key \<Rightarrow> connection_id \<Rightarrow> 'p stack \<Rightarrow> 'p stack \<Rightarrow> bool" where
  "proceeds net key cid s t \<longleftrightarrow>
     moves (config s) net key cid s t \<or> (\<exists>c seg isn. creates net key s t c seg isn)"

lemma proceeds_reset: "good_segment seg \<Longrightarrow> proceeds net key cid s (snd (emit_reset p seg s))"
  unfolding proceeds_def by (rule disjI1, rule moves_reset)

lemma proceeds_connect_from:
  assumes inv: "stack_inv H (token, s)"
    and r: "connect_from_with_isn p lport rport isn now (token, s) = Some (r, (token', t))"
  shows "proceeds net key cid s t"
proof (cases "lport = 0 \<or> rport = 0 \<or> ensure_connection_capacity p s \<noteq> Inr () \<or>
    lookup s \<lparr>key_peer = p, key_local_port = lport, key_remote_port = rport\<rparr> \<noteq> None")
  case True
  then have "t = s"
    using r by (auto simp: connect_from_with_isn_def Let_def split: sum.splits if_splits)
  then show ?thesis by (simp add: proceeds_def moves_refl)
next
  case False
  then have ports: "lport \<noteq> 0" "rport \<noteq> 0" by simp_all
  have token: "token < u64_max"
    using r False by (cases "conn_client p lport rport isn now (config s) token")
      (auto simp: connect_from_with_isn_def allocate_connection_id_def Let_def dest: create_needs_token(1)
        split: sum.splits)
  obtain c seg where c: "conn_client p lport rport isn now (config s) token = Some ((c, [seg]), token + 1)"
    "conn_key c = \<lparr>key_peer = p, key_local_port = lport, key_remote_port = rport\<rparr>" "sends c seg"
    using conn_created [OF stack_invD(1) [OF inv] ports token, of p isn now] by auto
  have new: "created (config s) SynSent SYN isn 0 (p, lport, rport, token) c seg"
    using conn_client_effect [OF stack_invD(1) [OF inv] ports token, of p isn now] c(1) by auto
  have "t = sent c [seg] (inserted c s)"
    using connect_from_opens [of lport rport p s c isn now token seg "token + 1"] False c r by simp
  then show ?thesis
    using creates_inserted [OF inv token c(3) refl refl refl newly_client [OF new]]
    unfolding proceeds_def by blast
qed

lemma proceeds_same:
  assumes "proceeds net key cid s1 t" "connections s1 = connections s" "outbound s1 = outbound s"
    "next_connection_id s1 = next_connection_id s" "config s1 = config s"
  shows "proceeds net key cid s t"
proof -
  have g: "get_conn i s1 = get_conn i s" for i by (simp add: get_conn_def assms(2))
  have "moves (config s) net key cid s s1" using assms(3,4) g by (intro moves_same) simp_all
  then show ?thesis
    using assms(1,3-5) g moves_trans unfolding proceeds_def creates_def by (metis (full_types))
qed

lemma proceeds_connect:
  assumes inv: "stack_inv H (token, s)" and r: "connect p rport now (token, s) = Some (r, (token', t))"
  shows "proceeds net key cid s t"
proof -
  obtain q s1 where a: "allocate_ephemeral_port p rport s = (q, s1)" by force
  note al = allocate_ephemeral_effect [OF inv a]
  have "49152 \<le> next_ephemeral_port s"
    using inv by (simp add: stack_inv_def generators_ok_def)
  from allocate_port_effect [OF this a [unfolded allocate_ephemeral_port_def]]
  have out: "outbound s1 = outbound s" by auto
  show ?thesis
  proof (cases q)
    case (Inl e)
    then have "t = s1" using a r by (simp add: connect_def)
    moreover have "moves (config s) net key cid s s1"
      using al(2,6) out by (intro moves_same) (simp_all add: get_conn_def)
    ultimately show ?thesis by (simp add: proceeds_def)
  next
    case (Inr port)
    let ?s2 = "snd (next_isn s1)"
    have "stack_inv H (token, ?s2)" using al(1) by (rule next_isn_inv)
    moreover have "connect_from_with_isn p port rport (fst (next_isn s1)) now (token, ?s2) = Some (r, (token', t))"
      using a r Inr by (simp add: connect_def split_beta)
    ultimately have "proceeds net key cid ?s2 t" by (rule proceeds_connect_from)
    then show ?thesis
      by (rule proceeds_same) (use al(2,5,6) out in \<open>simp_all add: next_isn_def Let_def\<close>)
  qed
qed

lemma proceeds_input_syn:
  assumes inv: "stack_inv H (token, s)" and good: "good_segment seg" and syn: "contains (seg_flags seg) SYN"
    and r: "input_syn p seg now (token, s) = Some (r, (token', t))"
    and net: "key = \<lparr>key_peer = p, key_local_port = seg_dst_port seg, key_remote_port = seg_src_port seg\<rparr> \<Longrightarrow> seg \<in> net"
  shows "proceeds net key cid s t"
proof (cases "supports_fips_version seg FIPS_VERSION")
  case False
  then have "t = snd (emit_reset p seg s)" using r by (auto simp: input_syn_def split: prod.splits)
  then show ?thesis using proceeds_reset [OF good] by simp
next
  case True
  show ?thesis
  proof (cases "ensure_connection_capacity p s = Inr ()")
    case False
    then have "t = s" using r True by (auto simp: input_syn_def split: sum.splits)
    then show ?thesis by (simp add: proceeds_def moves_refl)
  next
    case room: True
    have ports: "seg_dst_port seg \<noteq> 0" "seg_src_port seg \<noteq> 0"
      using good by (simp_all add: good_segment_def)
    let ?isn = "fst (next_isn s)"
    have token: "token < u64_max"
      using r True room by (cases "conn_server p seg ?isn now (config s) token")
        (auto simp: input_syn_def allocate_connection_id_def next_isn_def Let_def dest: create_needs_token(2))
    obtain c x where c: "conn_server p seg ?isn now (config s) token = Some ((c, [x]), token + 1)"
      "conn_key c = \<lparr>key_peer = p, key_local_port = seg_dst_port seg, key_remote_port = seg_src_port seg\<rparr>"
      "sends c x"
      using conn_accepted [OF stack_invD(1) [OF inv] good token, of p ?isn now] by auto
    have new: "created (config s) SynReceived (SYN OR ACK) ?isn (seg_seq seg + 1)
        (p, seg_dst_port seg, seg_src_port seg, token) c x"
      using conn_server_effect [OF stack_invD(1) [OF inv] ports token, of p ?isn now] c(1) by auto
    have "t = sent c [x] (inserted c (snd (next_isn s)))"
      using input_syn_opens [OF True room c(2,1,3)] r by simp
    moreover have "creates net key s (sent c [x] (inserted c (snd (next_isn s)))) c x ?isn"
    proof (rule creates_inserted [OF inv token c(3)])
      show "newly (config s) net key c x ?isn"
        using net c(2) by (intro newly_server [OF new syn]) simp
    qed (simp_all add: next_isn_def Let_def)
    ultimately show ?thesis by (auto simp: proceeds_def)
  qed
qed

lemma proceeds_input:
  assumes inv: "stack_inv H (token, s)" and r: "input p bs now (token, s) = Some (r, (token', t))"
    and net: "p = key_peer key \<Longrightarrow> carries \<lparr>key_peer = q, key_local_port = key_remote_port key,
      key_remote_port = key_local_port key\<rparr> net bs"
  shows "proceeds net key cid s t"
proof (cases "decode bs")
  case (Inl e)
  then have "t = s" using r by (simp add: input_def)
  then show ?thesis by (simp add: proceeds_def moves_refl)
next
  case (Inr seg)
  then have good: "good_segment seg" by (rule decode_good)
  let ?key = "\<lparr>key_peer = p, key_local_port = seg_dst_port seg, key_remote_port = seg_src_port seg\<rparr>"
  have net': "key = ?key \<Longrightarrow> seg \<in> net" using net Inr by (auto simp: carries_def)
  show ?thesis
  proof (cases "lookup s ?key")
    case (Some i)
    then obtain c where c: "get_conn i s = Some c" "conn_key c = ?key"
      using stack_inv_lookup [OF inv] by blast
    have "input_existing p i seg now s = Some (r, t)"
      using r Inr Some by (auto simp: input_def split: option.splits)
    from moves_input_existing [OF inv c(1) good this] net' c(2)
    show ?thesis by (auto simp: proceeds_def)
  next
    case None
    then consider "contains (seg_flags seg) SYN" "input_syn p seg now (token, s) = Some (r, (token', t))"
      | "t = snd (emit_reset p seg s)" | "t = s"
      using r Inr by (auto simp: input_def split: if_splits prod.splits)
    then show ?thesis
    proof cases
      case 1
      then show ?thesis using proceeds_input_syn [OF inv good] net' by blast
    next
      case 2
      then show ?thesis using proceeds_reset [OF good] by simp
    next
      case 3
      then show ?thesis by (simp add: proceeds_def moves_refl)
    qed
  qed
qed

section \<open>A side\<close>

text \<open>
  A side is a stack with its process's token counter and the history of the followed connection:
  what \<open>write\<close> accepted, what \<open>read\<close> returned, and the datagrams its adapter has taken from the
  outbound queue for the other side. A datagram stays in that set, so it may arrive any number of
  times and at any moment, or never.
\<close>

record 'p side =
  sd_token :: nat
  sd_stack :: "'p stack"
  sd_written :: bytes
  sd_read :: bytes
  sd_wire :: "bytes set"

text \<open>The calls that are not recorded: all but the input, the drain, and reads and writes of \<open>cid\<close>.\<close>

inductive other_call :: "connection_id \<Rightarrow> nat \<times> 'p stack \<Rightarrow> nat \<times> 'p stack \<Rightarrow> bool" for cid where
  call_connect_from: "connect_from_with_isn p lport rport isn now ts = Some (r2, ts') \<Longrightarrow> other_call cid ts ts'"
| call_connect: "connect p rport now ts = Some (r2, ts') \<Longrightarrow> other_call cid ts ts'"
| call_listen: "listen port s = (r1, s') \<Longrightarrow> other_call cid (token, s) (token, s')"
| call_close_listener: "other_call cid (token, s) (token, close_listener port s)"
| call_accept: "accept port s = (found, s') \<Longrightarrow> other_call cid (token, s) (token, s')"
| call_poll: "poll now s = Some s' \<Longrightarrow> other_call cid (token, s) (token, s')"
| call_write: "write_with_marker i bs now s = Some (r3, s') \<Longrightarrow> i \<noteq> cid \<Longrightarrow> other_call cid (token, s) (token, s')"
| call_plain_write: "stack_write i bs now s = Some (r4, s') \<Longrightarrow> i \<noteq> cid \<Longrightarrow> other_call cid (token, s) (token, s')"
| call_read: "stack_read i m now s = (r5, s') \<Longrightarrow> i \<noteq> cid \<Longrightarrow> other_call cid (token, s) (token, s')"
| call_close: "stack_close i now s = Some (r1, s') \<Longrightarrow> other_call cid (token, s) (token, s')"
| call_abort: "abort i s = (r1, s') \<Longrightarrow> other_call cid (token, s) (token, s')"
| call_abort_peer: "abort_peer p s = (r4, s') \<Longrightarrow> other_call cid (token, s) (token, s')"
| call_reservation: "set_connection_reservation slots eligible s = (r1, s') \<Longrightarrow>
     other_call cid (token, s) (token, s')"
| call_tokens: "token \<le> token' \<Longrightarrow> token' \<le> u64_max \<Longrightarrow> other_call cid (token, s) (token', s)"

lemma other_call_step: "other_call cid ts ts' \<Longrightarrow> stack_step ts ts'"
  by (induction rule: other_call.induct) (auto intro: stack_step.intros)

lemma proceeds_moves: "moves (config s) net key cid s t \<Longrightarrow> proceeds net key cid s t"
  by (simp add: proceeds_def)

lemma proceeds_call:
  assumes inv: "stack_inv H (token, s)" and call: "other_call cid (token, s) (token', t)"
  shows "proceeds net key cid s t"
  using call
proof cases
  case (call_connect_from p lport rport isn now r)
  then show ?thesis by (intro proceeds_connect_from [OF inv])
next
  case (call_connect p rport now r)
  then show ?thesis by (intro proceeds_connect [OF inv])
next
  case (call_listen port r)
  then show ?thesis
    by (intro proceeds_moves moves_same) (auto simp: listen_def split: if_splits)
next
  case (call_close_listener port)
  then show ?thesis
    by (intro proceeds_moves moves_same) (auto simp: close_listener_def get_conn_def)
next
  case (call_accept port found)
  then show ?thesis
    by (intro proceeds_moves moves_same) (auto simp: accept_def split: option.splits prod.splits)
next
  case (call_poll now)
  then show ?thesis by (intro proceeds_moves moves_poll [OF inv]) (simp add: poll_def)
next
  case (call_write i bs now r)
  then show ?thesis by (intro proceeds_moves moves_other_write [OF inv])
next
  case (call_plain_write i bs now r)
  then obtain r' where "write_with_marker i bs now s = Some (r', t)"
    by (auto simp: stack_write_def call_bind_Some)
  with call_plain_write show ?thesis by (intro proceeds_moves moves_other_write [OF inv])
next
  case (call_read i m now r)
  then show ?thesis by (intro proceeds_moves moves_other_read [OF inv])
next
  case (call_close i now r)
  then show ?thesis by (intro proceeds_moves moves_close [OF inv])
next
  case (call_abort i r)
  then show ?thesis by (intro proceeds_moves moves_abort [OF inv])
next
  case (call_abort_peer p r)
  then obtain r' where "abort_ids (map fst (filter (\<lambda>(cid, c). peer c = p) (connections s))) s = (r', t)"
    by (auto simp: abort_peer_def Let_def split: prod.splits sum.splits)
  then show ?thesis by (intro proceeds_moves moves_abort_ids [OF inv])
next
  case (call_reservation slots eligible r)
  then show ?thesis
    by (intro proceeds_moves moves_same) (auto simp: set_connection_reservation_def split: if_splits)
next
  case call_tokens
  then show ?thesis by (intro proceeds_moves) (simp add: moves_refl)
qed

end
