(* ===== verification/Dialogue.thy ===== *)
theory Dialogue
  imports Stack_Ghost
begin

text \<open>
  The dialogue of two stacks over one connection: the steps of a side and of both, the invariant that
  couples the two ghosts by the contract \<open>link_ok\<close> of theory \<open>Conversation\<close>, and the theorem that the
  byte streams of the two applications agree.
\<close>

section \<open>Steps\<close>

inductive side_step :: "'p connection_key \<Rightarrow> connection_id \<Rightarrow> bytes set \<Rightarrow> 'p side \<Rightarrow> 'p side \<Rightarrow> bool"
  for key cid net where
  side_input: "(p = key_peer key \<longrightarrow> bs \<in> net) \<Longrightarrow>
     input p bs now (sd_token x, sd_stack x) = Some (r, (token', s')) \<Longrightarrow> follows key cid s' \<Longrightarrow>
     side_step key cid net x (x\<lparr>sd_token := token', sd_stack := s'\<rparr>)"
| side_call: "other_call cid (sd_token x, sd_stack x) (token', s') \<Longrightarrow> follows key cid s' \<Longrightarrow>
     side_step key cid net x (x\<lparr>sd_token := token', sd_stack := s'\<rparr>)"
| side_write: "write_with_marker cid bs now (sd_stack x) = Some (r, s') \<Longrightarrow>
     side_step key cid net x (x\<lparr>sd_stack := s', sd_written := sd_written x @
       (case r of Inl e \<Rightarrow> [] | Inr (n, m) \<Rightarrow> take n bs)\<rparr>)"
| side_plain_write: "stack_write cid bs now (sd_stack x) = Some (r4, s') \<Longrightarrow>
     side_step key cid net x (x\<lparr>sd_stack := s', sd_written := sd_written x @
       (case r4 of Inl e \<Rightarrow> [] | Inr n \<Rightarrow> take n bs)\<rparr>)"
| side_read: "stack_read cid m now (sd_stack x) = (r5, s') \<Longrightarrow>
     side_step key cid net x (x\<lparr>sd_stack := s', sd_read := sd_read x @
       (case r5 of Inl e \<Rightarrow> [] | Inr bs \<Rightarrow> bs)\<rparr>)"
| side_drain: "drain_outbound (sd_stack x) = (out, s') \<Longrightarrow>
     side_step key cid net x (x\<lparr>sd_stack := s', sd_wire := sd_wire x \<union>
       {out_bytes o1 | o1. o1 \<in> set out \<and> out_peer o1 = key_peer key}\<rparr>)"

text \<open>
  The two sides: the first knows the other as \<open>key_peer key\<close> and is known to it as \<open>p\<close>. At the start
  neither has a connection or a queued datagram of the tuple; the identifiers that the connections
  of the tuple will have, if they are ever created, are \<open>i\<close> and \<open>j\<close>.
\<close>

definition far :: "'p \<Rightarrow> 'p connection_key \<Rightarrow> 'p connection_key" where
  "far p key = \<lparr>key_peer = p, key_local_port = key_remote_port key, key_remote_port = key_local_port key\<rparr>"

type_synonym 'p dialogue = "'p side \<times> 'p side"

definition side_start :: "'p connection_key \<Rightarrow> connection_id \<Rightarrow> 'p side \<Rightarrow> bool" where
  "side_start key cid x \<longleftrightarrow> stack_reach (sd_token x, sd_stack x) \<and>
     lookup (sd_stack x) key = None \<and> next_connection_id (sd_stack x) \<le> cid \<and>
     (\<forall>o1 \<in> set (outbound (sd_stack x)). \<not> of_tuple key o1) \<and>
     sd_written x = [] \<and> sd_read x = [] \<and> sd_wire x = {}"

definition dialogue_start ::
  "'p \<Rightarrow> 'p connection_key \<Rightarrow> connection_id \<Rightarrow> connection_id \<Rightarrow> 'p dialogue \<Rightarrow> bool" where
  "dialogue_start p key i j xy \<longleftrightarrow> side_start key i (fst xy) \<and> side_start (far p key) j (snd xy)"

inductive dialogue_step ::
  "'p \<Rightarrow> 'p connection_key \<Rightarrow> connection_id \<Rightarrow> connection_id \<Rightarrow> 'p dialogue \<Rightarrow> 'p dialogue \<Rightarrow> bool"
  for p key i j where
  near_step: "side_step key i (sd_wire y) x x' \<Longrightarrow> dialogue_step p key i j (x, y) (x', y)"
| far_step: "side_step (far p key) j (sd_wire x) y y' \<Longrightarrow> dialogue_step p key i j (x, y) (x, y')"

section \<open>The coupling\<close>

text \<open>Before its connection exists, a side has sent nothing but plain segments.\<close>

definition blank :: "'p endpoint \<Rightarrow> bool" where
  "blank e \<longleftrightarrow> \<not> ep_live e \<and> ep_written e = [] \<and> ep_read e = [] \<and> (\<forall>s \<in> ep_sent e. plain s) \<and>
     state (ep_conn e) = SynSent \<and> recv_queue (ep_conn e) = [] \<and> reassembly (ep_conn e) = [] \<and>
     \<not> read_closed (ep_conn e)"

lemma blank_sender: "blank e \<Longrightarrow> sender_ok cfg b e"
  by (simp add: blank_def sender_ok_def plain_sent_ok)

lemma blank_receiver: "blank e \<Longrightarrow> receiver_ok b S d (ep_read e) (ep_conn e)"
  by (simp add: blank_def receiver_ok_def)

lemma quiet_blank: "quiet_step cfg net e e' \<Longrightarrow> blank e \<Longrightarrow> blank e'"
  by (erule quiet_step.cases) (auto simp: blank_def elim: endpoint_step.cases)

text \<open>
  \<open>B\<close> holds the possible bases of the stream a side sends: any number before its connection exists,
  one afterwards.
\<close>

definition bases :: "bool \<Rightarrow> 'p endpoint \<Rightarrow> u32 set \<Rightarrow> bool" where
  "bases made e B \<longleftrightarrow> (if made then \<exists>b. B = {b} else B = UNIV \<and> blank e)"

definition coupled :: "config \<Rightarrow> config \<Rightarrow> u32 set \<Rightarrow> u32 set \<Rightarrow> 'p endpoint \<Rightarrow> 'p endpoint \<Rightarrow> bool" where
  "coupled cx cy B D e f \<longleftrightarrow> (\<forall>b \<in> B. link_ok cx b e f) \<and> (\<forall>d \<in> D. link_ok cy d f e)"

lemma coupled_sym: "coupled cx cy B D e f \<Longrightarrow> coupled cy cx D B f e"
  by (simp add: coupled_def)

lemma bases_nonempty: "bases made e B \<Longrightarrow> B \<noteq> {}"
  by (auto simp: bases_def split: if_splits)

lemma link_quiet:
  assumes "quiet_step cx (ep_sent f) e e'" "link_ok cx b e f" "link_ok cy d f e" "stream_short f"
  shows "link_ok cx b e' f \<and> link_ok cy d f e'"
  using assms(1)
proof cases
  case quiet_conn
  then show ?thesis using link_step assms by blast
next
  case (quiet_reply S)
  then show ?thesis using assms(2,3) by (auto simp: link_ok_def sender_ok_def ep_ended_def plain_sent_ok)
next
  case quiet_gone
  then show ?thesis using assms(2,3) by (simp add: link_ok_def sender_ok_def ep_ended_def)
qed

lemma coupled_step:
  assumes "\<And>b d. link_ok cx b e f \<Longrightarrow> link_ok cy d f e \<Longrightarrow> link_ok cx b e' f \<and> link_ok cy d f e'"
    and "coupled cx cy B D e f" "B \<noteq> {}" "D \<noteq> {}"
  shows "coupled cx cy B D e' f"
  using assms unfolding coupled_def by blast

lemma coupled_quiet:
  assumes "quiet_steps cx (ep_sent f) e e'" "coupled cx cy B D e f" "B \<noteq> {}" "D \<noteq> {}" "stream_short f"
  shows "coupled cx cy B D e' f"
  using assms(1,2)
proof (induction rule: rtranclp_induct)
  case (step e1 e2)
  have "coupled cx cy B D e1 f" using step by blast
  then show ?case using link_quiet [OF step(2) _ _ assms(5)] assms(3,4) by (rule_tac coupled_step)
qed

lemma quiet_steps_blank: "quiet_steps cfg net e e' \<Longrightarrow> blank e \<Longrightarrow> blank e'"
  by (induction rule: rtranclp_induct) (auto intro: quiet_blank)

text \<open>A connection that has just been created.\<close>

lemma newly_sender:
  assumes "newly cfg net key c seg isn" "ep_written e = []" "\<forall>s \<in> ep_sent e. plain s"
  shows "sender_ok cfg (isn + 1) (e\<lparr>ep_conn := c, ep_sent := ep_sent e \<union> {seg}, ep_live := True\<rparr>)"
proof -
  obtain st fs rcv who where x: "created cfg st fs isn rcv who c seg" "phase st = Opening"
    using assms(1) by (auto simp: newly_def)
  have c: "emits (phase (state c)) c seg" "out_base c = isn + 1" "seg_seq seg = isn" "pending c = []"
      "progress_inv c" "accepted_payload_bytes (send_progress c) = 0"
    using x by (auto simp: created_def conn_inv_def phase_inv_def)
  moreover from this have "acked_payload_bytes (send_progress c) = 0"
    by (simp add: progress_inv_def)
  moreover have "sent_ok (isn + 1) [] False seg" using c x by (auto simp: sent_ok_def emits_def created_def)
  ultimately show ?thesis
    using x assms(2,3) by (auto simp: sender_ok_def created_def plain_sent_ok ep_ended_def)
qed

lemma newly_receiver:
  assumes "newly cfg net key c seg isn" "conn_key c = key" "\<forall>s \<in> net. sent_ok d S e s"
  shows "receiver_ok d S e [] c"
proof -
  obtain st fs rcv who where x: "created cfg st fs isn rcv who c seg" "phase st = Opening"
      "st = SynSent \<or> (\<exists>syn. contains (seg_flags syn) SYN \<and> rcv = seg_seq syn + 1 \<and> syn \<in> net)"
    using assms(1,2) unfolding newly_def by blast
  have "st = SynSent \<or> rcv = d" using x(3) assms(3) by (auto simp: sent_ok_def)
  then show ?thesis
    using x(1) by (auto simp: receiver_ok_def created_def recv_fields_def receiving_def
        delivered_def recv_pos_def intro!: exI [of _ 0])
qed

section \<open>The invariant\<close>

definition side_shows :: "'p connection_key \<Rightarrow> connection_id \<Rightarrow> 'p endpoint \<Rightarrow> 'p side \<Rightarrow> bool" where
  "side_shows key cid e x \<longleftrightarrow> stack_inv {} (sd_token x, sd_stack x) \<and> follows key cid (sd_stack x) \<and>
     shows_conn key cid e (sd_stack x) \<and> ep_written e = sd_written x \<and> ep_read e = sd_read x \<and>
     (\<forall>bs \<in> sd_wire x. carries key (ep_sent e) bs)"

definition made :: "connection_id \<Rightarrow> 'p side \<Rightarrow> bool" where
  "made cid x \<longleftrightarrow> cid < next_connection_id (sd_stack x)"

text \<open>One side of the invariant, given the ghost \<open>f\<close> of the other.\<close>

definition side_ok ::
  "'p connection_key \<Rightarrow> connection_id \<Rightarrow> config \<Rightarrow> u32 set \<Rightarrow> 'p endpoint \<Rightarrow> 'p side \<Rightarrow> bool" where
  "side_ok key cid cy D f x \<longleftrightarrow> (\<exists>e B. side_shows key cid e x \<and> bases (made cid x) e B \<and>
     coupled (config (sd_stack x)) cy B D e f)"

lemma side_okI:
  "side_shows key cid e x \<Longrightarrow> bases (made cid x) e B \<Longrightarrow> coupled (config (sd_stack x)) cy B D e f \<Longrightarrow>
   side_ok key cid cy D f x"
  by (auto simp: side_ok_def)

lemma side_moves:
  assumes m: "moves (config (sd_stack x)) (ep_sent f) key cid (sd_stack x) t" and inv: "stack_inv {} (token, t)"
    and cfg: "config t = config (sd_stack x)" and x: "side_shows key cid e x" "bases (made cid x) e B"
    and link: "coupled (config (sd_stack x)) cy B D e f" "D \<noteq> {}" "stream_short f"
  shows "side_ok key cid cy D f (x\<lparr>sd_token := token, sd_stack := t\<rparr>)"
proof -
  have m': "follows key cid t" "made cid (x\<lparr>sd_token := token, sd_stack := t\<rparr>) = made cid x"
    using m x(1) by (simp_all add: moves_def side_shows_def made_def)
  obtain e' where e': "quiet_steps (config (sd_stack x)) (ep_sent f) e e'" "shows_conn key cid e' t"
    using m x(1) unfolding moves_def side_shows_def by blast
  have "side_shows key cid e' (x\<lparr>sd_token := token, sd_stack := t\<rparr>)"
    using x(1) m' inv e'(2) quiet_steps_streams [OF e'(1)]
    by (auto simp: side_shows_def intro: carries_mono)
  moreover have "bases (made cid (x\<lparr>sd_token := token, sd_stack := t\<rparr>)) e' B"
    using x(2) quiet_steps_blank [OF e'(1)] unfolding m'(2) bases_def by (auto split: if_splits)
  moreover have "coupled (config t) cy B D e' f"
    using coupled_quiet [OF e'(1) link(1) bases_nonempty [OF x(2)] link(2,3)] by (simp add: cfg)
  ultimately show ?thesis by (intro side_okI [where e = e' and B = B]) simp_all
qed

lemma side_creates:
  assumes c: "creates (ep_sent f) key (sd_stack x) t c seg isn" and t: "follows key cid t" "stack_inv {} (token, t)"
    and own: "conn_key c = key" and cfg: "config t = config (sd_stack x)"
    and x: "side_shows key cid e x" "bases (made cid x) e B"
    and link: "coupled (config (sd_stack x)) cy B D e f"
  shows "side_ok key cid cy D f (x\<lparr>sd_token := token, sd_stack := t\<rparr>)"
proof -
  let ?e = "e\<lparr>ep_conn := c, ep_sent := ep_sent e \<union> {seg}, ep_live := True\<rparr>"
  note d = c [unfolded creates_def]
  have n: "cid = next_connection_id (sd_stack x)" "shows_conn key cid ?e t"
    using creates_own [OF c t(1) own, of e] x(1) by (simp_all add: side_shows_def)
  have blank: "blank e" "B = UNIV" using x(2) n(1) by (simp_all add: bases_def made_def)
  have e: "ep_written e = []" "ep_read e = []" "\<forall>s \<in> ep_sent e. plain s"
    using blank(1) by (simp_all add: blank_def)
  have new: "newly (config (sd_stack x)) (ep_sent f) key c seg isn" using d by simp
  have "side_shows key cid ?e (x\<lparr>sd_token := token, sd_stack := t\<rparr>)"
    using x(1) t n(2) by (auto simp: side_shows_def intro: carries_mono)
  moreover have "bases (made cid (x\<lparr>sd_token := token, sd_stack := t\<rparr>)) ?e {isn + 1}"
    using d n(1) by (simp add: bases_def made_def)
  moreover have "link_ok (config t) (isn + 1) ?e f"
  proof -
    have "receiver_ok (isn + 1) (ep_written e) (ep_ended e) (ep_read f) (ep_conn f)"
      using link blank(2) by (simp add: coupled_def link_ok_def)
    then have "receiver_ok (isn + 1) [] (ep_ended ?e) (ep_read f) (ep_conn f)"
      using receiver_mono [of "isn + 1" "[]" "ep_ended e"] e(1) blank(1) by (simp add: ep_ended_def blank_def)
    then show ?thesis
      using newly_sender [OF new e(1,3)] e(1) by (simp add: link_ok_def cfg)
  qed
  moreover have "link_ok cy b f ?e" if "b \<in> D" for b
  proof -
    have s: "sender_ok cy b f" using link that by (auto simp: coupled_def link_ok_def)
    then have "\<forall>s \<in> ep_sent f. sent_ok b (ep_written f) (ep_ended f) s" by (simp add: sender_ok_def)
    from newly_receiver [OF new own this] s e(2) show ?thesis by (simp add: link_ok_def)
  qed
  ultimately show ?thesis
    by (intro side_okI [where e = ?e and B = "{isn + 1}"]) (simp_all add: coupled_def)
qed

lemma side_proceeds:
  assumes "proceeds (ep_sent f) key cid (sd_stack x) t" "follows key cid t" "stack_inv {} (token, t)"
    "config t = config (sd_stack x)" and x: "side_shows key cid e x" "bases (made cid x) e B"
    and link: "coupled (config (sd_stack x)) cy B D e f" "D \<noteq> {}" "stream_short f"
  shows "side_ok key cid cy D f (x\<lparr>sd_token := token, sd_stack := t\<rparr>)"
proof (cases "moves (config (sd_stack x)) (ep_sent f) key cid (sd_stack x) t")
  case True
  then show ?thesis using side_moves assms by blast
next
  case False
  then obtain c seg isn where c: "creates (ep_sent f) key (sd_stack x) t c seg isn"
    using assms(1) by (auto simp: proceeds_def)
  have "conn_key c = key" using creates_other [OF c assms(2)] False by blast
  with c show ?thesis using side_creates assms by blast
qed

text \<open>Reading and writing the followed connection are steps of the conversation.\<close>

lemma side_stream:
  assumes step: "endpoint_step (config (sd_stack x)) (ep_sent f) e e'" and live: "ep_live e"
    and c: "get_conn cid (sd_stack x) = Some c" "identity c' = identity c" "\<forall>s \<in> set segs. sends c s"
      "advances cid c c' segs False (sd_stack x) t"
    and e': "ep_conn e' = c'" "ep_sent e' = ep_sent e \<union> set segs" "ep_live e'"
    and t: "stack_inv {} (sd_token x, t)" "config t = config (sd_stack x)"
    and x: "side_shows key cid e x" "bases (made cid x) e B"
    and link: "coupled (config (sd_stack x)) cy B D e f" "D \<noteq> {}" "stream_short f"
  shows "side_ok key cid cy D f
    (x\<lparr>sd_stack := t, sd_written := ep_written e', sd_read := ep_read e'\<rparr>)" (is "side_ok _ _ _ _ _ ?x")
proof -
  have "side_shows key cid e' ?x"
    using x(1) t(1) e' follows_advances [OF c(4,1,2)] shows_advances [OF c(4,3) _ e'(1,2)]
    by (auto simp: side_shows_def intro: carries_mono)
  moreover have made: "made cid ?x = made cid x" using c(4) by (simp add: made_def advances_def)
  have "\<not> blank e" using live by (simp add: blank_def)
  then have "bases (made cid ?x) e' B"
    using x(2) unfolding made by (simp add: bases_def split: if_splits)
  moreover have "coupled (config (sd_stack x)) cy B D e' f"
    by (intro coupled_step [OF _ link(1) bases_nonempty [OF x(2)] link(2)] link_step [OF step] link(3))
  ultimately show ?thesis by (intro side_okI [where e = e' and B = B]) (simp_all add: t(2))
qed

lemma side_same:
  "side_shows key cid e x \<Longrightarrow> bases (made cid x) e B \<Longrightarrow> coupled (config (sd_stack x)) cy B D e f \<Longrightarrow>
   side_ok key cid cy D f (x\<lparr>sd_stack := sd_stack x, sd_written := sd_written x, sd_read := sd_read x\<rparr>)"
  by (rule side_okI [where e = e and B = B]) (simp_all add: side_shows_def made_def)

lemma side_writes:
  assumes w: "write_with_marker cid bs now (sd_stack x) = Some (r, t)"
    and x: "side_shows key cid e x" "bases (made cid x) e B"
    and link: "coupled (config (sd_stack x)) cy B D e f" "D \<noteq> {}" "stream_short f"
  shows "side_ok key cid cy D f (x\<lparr>sd_stack := t, sd_written := sd_written x @
    (case r of Inl e \<Rightarrow> [] | Inr (n, m) \<Rightarrow> take n bs)\<rparr>)"
proof -
  have inv: "stack_inv {} (sd_token x, sd_stack x)" using x(1) by (simp add: side_shows_def)
  note eff = write_effect [OF inv w]
  show ?thesis
  proof (cases r)
    case (Inl err)
    then have "t = sd_stack x" using eff by (simp add: wrote_def)
    then show ?thesis using side_same [OF x link(1)] Inl by simp
  next
    case (Inr nm)
    obtain n m where nm: "nm = (n, m)" by force
    obtain c segs c' where get: "get_conn cid (sd_stack x) = Some c"
      and o: "conn_write bs now (config (sd_stack x)) c = Some (Inr (n, segs), c')"
      and id: "identity c' = identity c" and segs: "\<forall>x \<in> set segs. sends c x"
      and adv: "advances cid c c' segs False (sd_stack x) t"
      using write_advances [OF inv w [unfolded Inr nm]] by blast
    have e: "ep_live e" "ep_conn e = c" "ep_written e = sd_written x" "ep_read e = sd_read x"
      using x(1) get by (simp_all add: side_shows_def shows_conn_def)
    let ?e = "e\<lparr>ep_conn := c', ep_written := ep_written e @ take n bs, ep_sent := ep_sent e \<union> set segs\<rparr>"
    have step: "endpoint_step (config (sd_stack x)) (ep_sent f) e ?e"
      using o e(2) by (intro ep_write [OF e(1)]) simp
    have "side_ok key cid cy D f (x\<lparr>sd_stack := t, sd_written := ep_written ?e, sd_read := ep_read ?e\<rparr>)"
      using adv eff e
      by (intro side_stream [OF step e(1) get id segs _ _ _ _ _ _ x link]) (simp_all add: evolves_def)
    then show ?thesis using e Inr nm by simp
  qed
qed

lemma side_reads:
  assumes r: "stack_read cid m now (sd_stack x) = (r, t)"
    and x: "side_shows key cid e x" "bases (made cid x) e B"
    and link: "coupled (config (sd_stack x)) cy B D e f" "D \<noteq> {}" "stream_short f"
  shows "side_ok key cid cy D f (x\<lparr>sd_stack := t, sd_read := sd_read x @
    (case r of Inl e \<Rightarrow> [] | Inr bs \<Rightarrow> bs)\<rparr>)"
proof -
  have inv: "stack_inv {} (sd_token x, sd_stack x)" using x(1) by (simp add: side_shows_def)
  show ?thesis
  proof (cases r)
    case (Inl err)
    then have "t = sd_stack x"
      using r stack_read_effect(2) [OF inv, of cid m now] stack_read_effect(3) [OF inv, of cid _ m now]
      by (cases "get_conn cid (sd_stack x)") auto
    then show ?thesis using side_same [OF x link(1)] Inl by simp
  next
    case (Inr bs)
    obtain c segs c' where get: "get_conn cid (sd_stack x) = Some c" and o: "conn_read m c = ((bs, segs), c')"
      and id: "identity c' = identity c" and segs: "\<forall>x \<in> set segs. sends c x"
      and adv: "advances cid c c' segs False (sd_stack x) t"
      using read_advances [OF inv r [unfolded Inr]] by blast
    have e: "ep_live e" "ep_conn e = c" "ep_written e = sd_written x" "ep_read e = sd_read x"
      using x(1) get by (simp_all add: side_shows_def shows_conn_def)
    let ?e = "e\<lparr>ep_conn := c', ep_read := ep_read e @ bs, ep_sent := ep_sent e \<union> set segs\<rparr>"
    have step: "endpoint_step (config (sd_stack x)) (ep_sent f) e ?e"
      using o e(2) by (intro ep_read [OF e(1)]) simp
    have "side_ok key cid cy D f (x\<lparr>sd_stack := t, sd_written := ep_written ?e, sd_read := ep_read ?e\<rparr>)"
      using adv stack_read_effect(1) [OF inv, of cid m now] r e
      by (intro side_stream [OF step e(1) get id segs _ _ _ _ _ _ x link]) (simp_all add: evolves_def)
    then show ?thesis using e Inr by simp
  qed
qed

text \<open>One step of a side.\<close>

lemma side_step_ok:
  assumes step: "side_step key cid (sd_wire y) x x'"
    and ok: "side_ok key cid cy D f x" and D: "D \<noteq> {}" and short: "stream_short f"
    and net: "\<forall>bs \<in> sd_wire y. carries (far q key) (ep_sent f) bs"
  shows "side_ok key cid cy D f x'"
proof -
  obtain e B where x: "side_shows key cid e x" "bases (made cid x) e B"
    and link: "coupled (config (sd_stack x)) cy B D e f"
    using ok by (auto simp: side_ok_def)
  have inv: "stack_inv {} (sd_token x, sd_stack x)" using x(1) by (simp add: side_shows_def)
  note link' = link D short
  show ?thesis
    using step
  proof cases
    case (side_input p bs now r token' s')
    have "stack_step (sd_token x, sd_stack x) (token', s')" using side_input(3) by (rule do_input)
    from stack_step_effect [OF inv this] have "stack_inv {} (token', s')" "config s' = config (sd_stack x)"
      by (simp_all add: evolves_def)
    moreover have "proceeds (ep_sent f) key cid (sd_stack x) s'"
      using side_input(2) net by (intro proceeds_input [OF inv side_input(3), where q = q]) (auto simp: far_def)
    ultimately show ?thesis
      using side_proceeds [OF _ side_input(4) _ _ x link'] side_input(1) by simp
  next
    case (side_call token' s')
    from stack_step_effect [OF inv other_call_step [OF side_call(2)]]
    have "stack_inv {} (token', s')" "config s' = config (sd_stack x)" by (simp_all add: evolves_def)
    then show ?thesis
      using side_proceeds [OF proceeds_call [OF inv side_call(2)] side_call(3) _ _ x link'] side_call(1) by simp
  next
    case (side_write bs now r s')
    then show ?thesis using side_writes [OF _ x link'] by simp
  next
    case (side_plain_write bs now r s')
    then obtain r' where w: "write_with_marker cid bs now (sd_stack x) = Some (r', s')"
      and r: "r = map_sum id fst r'"
      by (cases r) (auto simp: stack_write_def call_bind_Some)
    have "(case r of Inl e \<Rightarrow> [] | Inr n \<Rightarrow> take n bs) = (case r' of Inl e \<Rightarrow> [] | Inr (n, m) \<Rightarrow> take n bs)"
      by (cases r') (simp_all add: r split: prod.split)
    then show ?thesis using side_writes [OF w x link'] side_plain_write(1) by simp
  next
    case (side_read m now r s')
    then show ?thesis using side_reads [OF _ x link'] by simp
  next
    case (side_drain out s')
    then have s': "s' = (sd_stack x)\<lparr>outbound := []\<rparr>" "out = outbound (sd_stack x)"
      by (simp_all add: drain_outbound_def)
    have "stack_inv {} (sd_token x, s')" using drain_effect [OF inv] s' by (simp add: drain_outbound_def)
    then have "side_shows key cid e x'"
      using x(1) side_drain(1) s' by (auto simp: side_shows_def follows_def shows_conn_def queue_carries_def)
    then show ?thesis
      using x(2) link side_drain(1) s' by (intro side_okI [where e = e and B = B]) (simp_all add: made_def)
  qed
qed

lemma side_written_grows: "side_step key cid net x x' \<Longrightarrow> \<exists>T. sd_written x' = sd_written x @ T"
  by (erule side_step.cases) auto

definition dialogue_ok :: "'p \<Rightarrow> 'p connection_key \<Rightarrow> connection_id \<Rightarrow> connection_id \<Rightarrow> 'p dialogue \<Rightarrow> bool" where
  "dialogue_ok p key i j xy \<longleftrightarrow> (case xy of (x, y) \<Rightarrow>
     length (sd_written x) + 1 < 2 ^ 30 \<longrightarrow> length (sd_written y) + 1 < 2 ^ 30 \<longrightarrow>
     (\<exists>e f B D. side_shows key i e x \<and> side_shows (far p key) j f y \<and>
        bases (made i x) e B \<and> bases (made j y) f D \<and>
        coupled (config (sd_stack x)) (config (sd_stack y)) B D e f))"

lemma side_start_shows:
  assumes x: "side_start key cid x" and c: "state c = SynSent" "recv_queue c = []" "reassembly c = []" "\<not> read_closed c"
  shows "side_shows key cid \<lparr>ep_conn = c, ep_written = [], ep_read = [], ep_sent = {}, ep_live = False\<rparr> x"
    and "\<not> made cid x"
proof -
  have inv: "stack_inv {} (sd_token x, sd_stack x)"
    using x by (simp add: side_start_def stack.inv_reach)
  have other: "i \<noteq> cid \<and> conn_key d \<noteq> key" if "get_conn i (sd_stack x) = Some d" for i d
    using stack_inv_conn(2,3) [OF inv that] x by (auto simp: side_start_def)
  then have "get_conn cid (sd_stack x) = None" by (cases "get_conn cid (sd_stack x)") auto
  moreover have "carries key {} (out_bytes o1)"
    if "o1 \<in> set (outbound (sd_stack x))" "out_peer o1 = key_peer key" for o1
    using x that by (auto simp: side_start_def of_tuple_def carries_def)
  ultimately show "side_shows key cid \<lparr>ep_conn = c, ep_written = [], ep_read = [], ep_sent = {}, ep_live = False\<rparr> x"
    using x inv other by (auto simp: side_shows_def side_start_def follows_def shows_conn_def queue_carries_def)
  show "\<not> made cid x" using x by (simp add: made_def side_start_def)
qed

lemma dialogue_start_ok:
  assumes "dialogue_start p key i j xy"
  shows "dialogue_ok p key i j xy"
proof -
  obtain x y where xy: "xy = (x, y)" "side_start key i x" "side_start (far p key) j y"
    using assms by (cases xy) (simp add: dialogue_start_def)
  obtain c :: "'a connection" where c: "state c = SynSent" "recv_queue c = []" "reassembly c = []" "\<not> read_closed c"
    using conn_client_effect [OF valid_setup_default, of 1 1 0 p 0 0]
    by (auto simp: created_def recv_fields_def u64_max_def)
  let ?e = "\<lparr>ep_conn = c, ep_written = [], ep_read = [], ep_sent = {}, ep_live = False\<rparr>"
  have b: "blank ?e" using c by (simp add: blank_def)
  have "link_ok cfg d ?e ?e" for cfg d
    using blank_sender [OF b] blank_receiver [OF b] by (simp add: link_ok_def)
  then have "bases False ?e UNIV" "coupled cx cy UNIV UNIV ?e ?e" for cx cy
    using b by (simp_all add: bases_def coupled_def)
  then show ?thesis
    using side_start_shows [OF xy(2) c] side_start_shows [OF xy(3) c] unfolding dialogue_ok_def xy(1)
    by (auto intro!: exI [of _ ?e] exI [of _ "UNIV :: u32 set"])
qed

lemma dialogue_step_ok:
  assumes ok: "dialogue_ok p key i j xy" and step: "dialogue_step p key i j xy xy'"
  shows "dialogue_ok p key i j xy'"
  using step
proof cases
  case (near_step y x x')
  show ?thesis
    unfolding dialogue_ok_def near_step(2) prod.case
  proof (intro impI)
    assume short: "length (sd_written x') + 1 < 2 ^ 30" "length (sd_written y) + 1 < 2 ^ 30"
    then have "length (sd_written x) + 1 < 2 ^ 30" using side_written_grows [OF near_step(3)] by auto
    then obtain e f B D where o: "side_shows key i e x" "side_shows (far p key) j f y"
      "bases (made i x) e B" "bases (made j y) f D"
      "coupled (config (sd_stack x)) (config (sd_stack y)) B D e f"
      using ok short(2) unfolding dialogue_ok_def near_step(1) prod.case by blast
    have "side_ok key i (config (sd_stack y)) D f x'"
    proof (rule side_step_ok [OF near_step(3) _ bases_nonempty [OF o(4)], where q = p])
      show "side_ok key i (config (sd_stack y)) D f x" using o by (intro side_okI)
      show "stream_short f" "\<forall>bs \<in> sd_wire y. carries (far p key) (ep_sent f) bs"
        using o(2) short(2) by (simp_all add: side_shows_def stream_short_def)
    qed
    then show "\<exists>e f B D. side_shows key i e x' \<and> side_shows (far p key) j f y \<and>
        bases (made i x') e B \<and> bases (made j y) f D \<and>
        coupled (config (sd_stack x')) (config (sd_stack y)) B D e f"
      unfolding side_ok_def using o(2,4) by blast
  qed
next
  case (far_step x y y')
  show ?thesis
    unfolding dialogue_ok_def far_step(2) prod.case
  proof (intro impI)
    assume short: "length (sd_written x) + 1 < 2 ^ 30" "length (sd_written y') + 1 < 2 ^ 30"
    then have "length (sd_written y) + 1 < 2 ^ 30" using side_written_grows [OF far_step(3)] by auto
    then obtain e f B D where o: "side_shows key i e x" "side_shows (far p key) j f y"
      "bases (made i x) e B" "bases (made j y) f D"
      "coupled (config (sd_stack x)) (config (sd_stack y)) B D e f"
      using ok short(1) unfolding dialogue_ok_def far_step(1) prod.case by blast
    have "side_ok (far p key) j (config (sd_stack x)) B e y'"
    proof (rule side_step_ok [OF far_step(3) _ bases_nonempty [OF o(3)], where q = "key_peer key"])
      show "side_ok (far p key) j (config (sd_stack x)) B e y"
        using o(2,4) coupled_sym [OF o(5)] by (intro side_okI)
      show "stream_short e" using o(1) short(1) by (simp add: side_shows_def stream_short_def)
      have "far (key_peer key) (far p key) = key" by (simp add: far_def)
      then show "\<forall>bs \<in> sd_wire x. carries (far (key_peer key) (far p key)) (ep_sent e) bs"
        using o(1) by (simp add: side_shows_def)
    qed
    then show "\<exists>e f B D. side_shows key i e x \<and> side_shows (far p key) j f y' \<and>
        bases (made i x) e B \<and> bases (made j y') f D \<and>
        coupled (config (sd_stack x)) (config (sd_stack y')) B D e f"
      unfolding side_ok_def using o(1,3) coupled_sym by blast
  qed
qed

interpretation dialogue: invariant_system
  "dialogue_start p key i j" "dialogue_step p key i j" "dialogue_ok p key i j"
  by unfold_locales (auto intro: dialogue_start_ok dialogue_step_ok)

section \<open>The streams of two stacks\<close>

text \<open>What an application has not read yet.\<close>

definition unread :: "connection_id \<Rightarrow> 'p stack \<Rightarrow> bytes" where
  "unread cid s = (case get_conn cid s of None \<Rightarrow> [] | Some c \<Rightarrow> recv_queue c)"

lemma side_received:
  assumes "side_shows key cid e x" "receiver_ok b S d (ep_read e) (ep_conn e)"
  shows "prefix (sd_read x @ unread cid (sd_stack x)) S"
    "get_conn cid (sd_stack x) = Some c \<Longrightarrow> read_closed c \<Longrightarrow> sd_read x @ unread cid (sd_stack x) = S"
proof -
  note r = receiver_ok_prefix [OF assms(2)]
  have x: "ep_read e = sd_read x" "get_conn cid (sd_stack x) = Some c \<Longrightarrow> ep_conn e = c" for c
    using assms(1) by (simp_all add: side_shows_def shows_conn_def)
  show "prefix (sd_read x @ unread cid (sd_stack x)) S"
    using r x by (auto simp: unread_def dest: append_prefixD split: option.split)
  show "get_conn cid (sd_stack x) = Some c \<Longrightarrow> read_closed c \<Longrightarrow> sd_read x @ unread cid (sd_stack x) = S"
    using r x by (simp add: unread_def)
qed

text \<open>
  C1: End-to-end correctness of two whole stacks. Two stacks exchange encoded datagrams over a network
  that may lose, repeat, delay and reorder them. Each also serves other peers, whose datagrams are
  arbitrary bytes, and other connections, and its applications make any calls in any order. For a
  tuple that each stack uses for one connection only: at every moment, in both directions, the
  bytes \<open>read\<close> has returned followed by those waiting for it are a prefix of the bytes the other
  stack's \<open>write\<close> accepted, and while the connection exists and reports the end of the stream,
  they are all of them.
\<close>

theorem stack_streams:
  assumes "reach (dialogue_start p key i j) (dialogue_step p key i j) (x, y)"
    and "length (sd_written x) + 1 < 2 ^ 30" "length (sd_written y) + 1 < 2 ^ 30"
  shows "prefix (sd_read y @ unread j (sd_stack y)) (sd_written x) \<and>
    prefix (sd_read x @ unread i (sd_stack x)) (sd_written y) \<and>
    (\<forall>c. get_conn j (sd_stack y) = Some c \<longrightarrow> read_closed c \<longrightarrow>
       sd_read y @ unread j (sd_stack y) = sd_written x) \<and>
    (\<forall>c. get_conn i (sd_stack x) = Some c \<longrightarrow> read_closed c \<longrightarrow>
       sd_read x @ unread i (sd_stack x) = sd_written y)"
proof -
  have "dialogue_ok p key i j (x, y)" using assms(1) by (rule dialogue.inv_reach)
  then obtain e f B D where o: "side_shows key i e x" "side_shows (far p key) j f y"
      "bases (made i x) e B" "bases (made j y) f D"
      "coupled (config (sd_stack x)) (config (sd_stack y)) B D e f"
    using assms(2,3) unfolding dialogue_ok_def prod.case by blast
  obtain b d where bd: "b \<in> B" "d \<in> D" using bases_nonempty o(3,4) by blast
  have w: "ep_written e = sd_written x" "ep_written f = sd_written y"
    using o(1,2) by (simp_all add: side_shows_def)
  have "receiver_ok b (sd_written x) (ep_ended e) (ep_read f) (ep_conn f)"
    "receiver_ok d (sd_written y) (ep_ended f) (ep_read e) (ep_conn e)"
    using o(5) bd by (simp_all add: coupled_def link_ok_def w)
  then show ?thesis using side_received [OF o(2)] side_received [OF o(1)] by blast
qed

end
