(* ===== verification/Dialogue_Run.thy ===== *)
theory Dialogue_Run
  imports Dialogue Conversation_Run
begin

text \<open>
  A run of two stacks that the end-to-end theorem is evaluated on: the first connects from port 50000
  to port 80 of the second, the handshake completes, the first writes three bytes, and the second
  reads two of them. The steps of a side are described by what they do to its only connection.
\<close>

section \<open>The segments of the run\<close>

definition caller :: "'p \<Rightarrow> 'p connection" where
  "caller p = fst (fst (the (conn_client p 50000 80 7000 0 config_default 1)))"

definition syn_reply :: "u32 \<Rightarrow> segment" where
  "syn_reply isn = build_segment \<lparr>hdr_local_port = 80, hdr_remote_port = 50000, hdr_seq = isn,
     hdr_ack = 7001, hdr_window = 65535, hdr_mss = 1024, hdr_flags = SYN OR ACK\<rparr> []"

definition calling :: "'p \<Rightarrow> u32 \<Rightarrow> 'p connection" where
  "calling p isn = snd (the (on_segment (syn_reply isn) 5 config_default (caller p)))"

lemma caller_new: "conn_client p 50000 80 7000 0 config_default 1 = Some ((caller p, [example_syn]), 2)"
  by (simp add: caller_def run_defs example_syn_def)

lemma server_new: "conn_server p example_syn isn 0 config_default 1 = Some ((server_record p isn, [syn_reply isn]), 2)"
  by (simp add: run_defs example_syn_def server_record_def syn_reply_def)

lemma calling_update:
  "on_segment (syn_reply isn) 5 config_default (caller p) =
     Some (\<lparr>upd_segments = [ack_segment (calling p isn)], upd_accepted = False, upd_closed = False\<rparr>, calling p isn)"
  by (simp add: calling_def caller_def syn_reply_def run_defs)

lemma calling_write: "\<exists>c'. conn_write [1, 2, 3] 6 config_default (calling p isn) = Some (Inr (3, [server_data isn]), c')"
  by (simp add: calling_def caller_def syn_reply_def server_data_def run_defs)

lemma caller_fields: "conn_key (caller p) = \<lparr>key_peer = p, key_local_port = 50000, key_remote_port = 80\<rparr>"
    "state (caller p) = SynSent" "send_una (caller p) = 7000" "send_nxt (caller p) = 7001"
  by (simp_all add: caller_def run_defs conn_key_def)

lemma server_key: "conn_key (server_record p isn) = \<lparr>key_peer = p, key_local_port = 80, key_remote_port = 50000\<rparr>"
  by (simp add: server_record_def conn_key_def)

lemma run_good: "good_segment example_syn" "good_segment (syn_reply isn)" "good_segment (server_data isn)"
  by (simp_all add: good_segment_def example_syn_def syn_reply_def server_data_def)

section \<open>Steps of a side with one connection\<close>

definition holds_one :: "'p connection \<Rightarrow> bytes \<Rightarrow> bytes \<Rightarrow> 'p side \<Rightarrow> bool" where
  "holds_one c W R x \<longleftrightarrow> stack_inv {} (sd_token x, sd_stack x) \<and> sd_token x = 2 \<and>
     config (sd_stack x) = config_default \<and>
     (\<forall>i. get_conn i (sd_stack x) = (if i = 1 then Some c else None)) \<and> sd_written x = W \<and> sd_read x = R"

definition queued :: "'p \<Rightarrow> segment \<Rightarrow> 'p side \<Rightarrow> bool" where
  "queued p seg x \<longleftrightarrow> packet p seg \<in> set (outbound (sd_stack x))"

lemma one_deliver:
  assumes x: "holds_one c W R x" and seg: "good_segment seg" "wire_bytes seg \<in> net"
    and key: "conn_key c = key" "seg_dst_port seg = key_local_port key" "seg_src_port seg = key_remote_port key"
    and pass: "\<not> stale_handshake_ack seg c" "\<not> unexpected_syn seg c"
    and o: "on_segment seg now config_default c = Some (u, c')" "\<not> upd_closed u"
  shows "\<exists>x'. side_step key 1 net x x' \<and> holds_one c' W R x'"
proof -
  have h: "stack_inv {} (2, sd_stack x)" "sd_token x = 2" "config (sd_stack x) = config_default"
    "get_conn 1 (sd_stack x) = Some c" "\<And>i. i \<noteq> 1 \<Longrightarrow> get_conn i (sd_stack x) = None"
    "sd_written x = W" "sd_read x = R"
    using x by (auto simp: holds_one_def)
  obtain t where t: "input_existing (key_peer key) 1 seg now (sd_stack x) = Some (Inr (), t)"
      "stack_inv {} (2, t)" "evolves (sd_stack x) t"
    using input_existing_effect [OF h(1,4) seg(1)] by blast
  have "lookup (sd_stack x) \<lparr>key_peer = key_peer key, key_local_port = key_local_port key,
      key_remote_port = key_remote_port key\<rparr> = Some 1"
    using stack_inv_conn(3) [OF h(1,4)] key(1) by (cases key) simp
  then have i: "input (key_peer key) (wire_bytes seg) now (2, sd_stack x) = Some (Inr (), (2, t))"
    using t(1) key(2,3) decode_wire_bytes [OF seg(1)] by (simp add: input_def)
  note adv = deliver_advances [OF h(1,4) pass o(1) [folded h(3)] t(1)]
  have get: "get_conn i t = (if i = 1 then Some c' else None)" for i
    using adv(3) h(5) o(2) by (simp add: advances_def)
  have "follows key 1 t"
    using conn_key_identity [OF adv(1)] key(1) by (simp add: follows_def get)
  then have "side_step key 1 net x (x\<lparr>sd_token := 2, sd_stack := t\<rparr>)"
    using i seg(2) h(2) by (intro side_input [where p = "key_peer key" and bs = "wire_bytes seg"]) simp_all
  moreover have "holds_one c' W R (x\<lparr>sd_token := 2, sd_stack := t\<rparr>)"
    using t(2,3) h get by (simp add: holds_one_def evolves_def)
  ultimately show ?thesis by blast
qed

lemma one_drain:
  assumes x: "holds_one c W R x"
  shows "\<exists>x'. side_step key 1 net x x' \<and> holds_one c W R x' \<and>
    (\<forall>seg. queued (key_peer key) seg x \<longrightarrow> wire_bytes seg \<in> sd_wire x')"
proof -
  let ?x = "x\<lparr>sd_stack := (sd_stack x)\<lparr>outbound := []\<rparr>, sd_wire := sd_wire x \<union>
       {out_bytes o1 | o1. o1 \<in> set (outbound (sd_stack x)) \<and> out_peer o1 = key_peer key}\<rparr>"
  have "side_step key 1 net x ?x" by (rule side_drain) (simp add: drain_outbound_def)
  moreover have inv: "stack_inv {} (sd_token x, sd_stack x)" using x unfolding holds_one_def by (rule conjunct1)
  have "stack_inv {} (sd_token x, (sd_stack x)\<lparr>outbound := []\<rparr>)"
    using drain_effect [OF inv] by (simp add: drain_outbound_def)
  then have "holds_one c W R ?x" using x by (simp add: holds_one_def)
  moreover have "wire_bytes seg \<in> sd_wire ?x" if "queued (key_peer key) seg x" for seg
    using that unfolding queued_def packet_def by force
  ultimately show ?thesis by blast
qed

lemma one_write:
  assumes x: "holds_one c W R x" and w: "conn_write bs now config_default c = Some (Inr (n, segs), c')"
  shows "\<exists>x'. side_step key 1 net x x' \<and> holds_one c' (W @ take n bs) R x' \<and>
    (\<forall>seg \<in> set segs. queued (peer c) seg x')"
proof -
  have h: "stack_inv {} (2, sd_stack x)" "sd_token x = 2" "config (sd_stack x) = config_default"
    "get_conn 1 (sd_stack x) = Some c" "\<And>i. i \<noteq> 1 \<Longrightarrow> get_conn i (sd_stack x) = None"
    using x by (auto simp: holds_one_def)
  note c = stack_inv_conn [OF h(1,4)]
  have segs: "\<forall>x \<in> set segs. sends c x"
    using talks_conn_write [OF c(4) w] by (simp add: talks_def)
  have id: "identity c' = identity c"
    using conn_step_effect [OF c(1) step_write [OF w [folded h(3)]]] by simp
  obtain q t where q: "emit 1 segs (put_conn 1 c' (sd_stack x)) = (q, t)" by force
  have adv: "advances 1 c c' segs False (sd_stack x) t" and "q = Inr ()"
    using advances_emit(2) [OF segs id q, of False] advances_emit(1) [OF segs id q] by simp_all
  then have r: "write_with_marker 1 bs now (sd_stack x) = Some (Inr (n, progress_marker 1 (send_progress c')), t)"
    using h(3,4) w q by (simp add: write_with_marker_def)
  let ?x = "x\<lparr>sd_stack := t, sd_written := sd_written x @ take n bs\<rparr>"
  have "side_step key 1 net x ?x" using side_write [OF r] by simp
  moreover have "holds_one c' (W @ take n bs) R ?x"
    using write_effect [OF h(1) r] adv x by (auto simp: holds_one_def advances_def evolves_def)
  moreover have "\<forall>seg \<in> set segs. queued (peer c) seg ?x"
    using adv by (simp add: queued_def advances_def)
  ultimately show ?thesis by blast
qed

lemma one_read:
  assumes x: "holds_one c W R x"
  shows "\<exists>x' c'. side_step key 1 net x x' \<and> holds_one c' W (R @ take m (recv_queue c)) x' \<and>
    recv_queue c' = drop m (recv_queue c)"
proof -
  have h: "stack_inv {} (2, sd_stack x)" "sd_token x = 2" "get_conn 1 (sd_stack x) = Some c"
    using x by (auto simp: holds_one_def)
  obtain bs t where r: "stack_read 1 m 0 (sd_stack x) = (Inr bs, t)"
    using stack_read_effect(3) [OF h(1,3), of m 0] by blast
  obtain c1 segs c' where "get_conn 1 (sd_stack x) = Some c1" "conn_read m c1 = ((bs, segs), c')"
      "identity c' = identity c1" "\<forall>x \<in> set segs. sends c1 x" "advances 1 c1 c' segs False (sd_stack x) t"
    by (rule read_advances [OF h(1) r])
  then have o: "conn_read m c = ((bs, segs), c')" and adv: "advances 1 c c' segs False (sd_stack x) t"
    using h(3) by simp_all
  let ?x = "x\<lparr>sd_stack := t, sd_read := sd_read x @ bs\<rparr>"
  have "side_step key 1 net x ?x" using side_read [OF r] by simp
  moreover have "bs = take m (recv_queue c)" "recv_queue c' = drop m (recv_queue c)"
    using o by (auto simp: conn_read_def Let_def min_def split: if_splits)
  moreover have "stack_inv {} (2, t)" "config t = config (sd_stack x)"
    using stack_read_effect(1) [OF h(1), of 1 m 0] r by (simp_all add: evolves_def)
  then have "holds_one c' W (R @ bs) ?x" using x adv by (auto simp: holds_one_def advances_def)
  ultimately show ?thesis by blast
qed

section \<open>The run\<close>

definition run_key :: "nat connection_key" where
  "run_key = \<lparr>key_peer = 7, key_local_port = 50000, key_remote_port = 80\<rparr>"

abbreviation run_reach :: "nat dialogue \<Rightarrow> bool" where
  "run_reach \<equiv> reach (dialogue_start 3 run_key 1 1) (dialogue_step 3 run_key 1 1)"

definition new_side :: "'p stack \<Rightarrow> 'p side" where
  "new_side s = \<lparr>sd_token = 1, sd_stack = s, sd_written = [], sd_read = [], sd_wire = {}\<rparr>"

lemma run_start: "run_reach (new_side fresh_stack, new_side port_80_stack)"
  using example_stack_reach listen_stack_reach
  by (intro reach_start) (simp add: dialogue_start_def side_start_def new_side_def)

lemma run_dials:
  "connect_from_with_isn p 50000 80 7000 0 (1, fresh_stack) =
     Some (Inr 1, (2, sent (caller p) [example_syn] (inserted (caller p) fresh_stack)))"
proof -
  have "sends (caller p) example_syn"
    using conn_created [OF valid_setup_default, of 50000 80 1 p 7000 0] caller_new [of p]
    by (auto simp: u64_max_def)
  then show ?thesis
    using connect_from_opens [of 50000 80 p fresh_stack "caller p" 7000 0 1 example_syn 2]
      example_room [of p] caller_new [of p] by (simp add: caller_fields)
qed

lemma run_connects:
  "\<exists>x. side_step run_key 1 net (new_side fresh_stack) x \<and> holds_one (caller 7) [] [] x \<and> queued 7 example_syn x"
proof -
  have key: "conn_key (caller 7) = run_key" by (simp add: caller_fields run_key_def)
  let ?t = "sent (caller 7) [example_syn] (inserted (caller 7) (fresh_stack :: nat stack))"
  have call: "other_call 1 (1, fresh_stack) (2, ?t)" using run_dials by (rule call_connect_from)
  have get: "get_conn i ?t = (if i = 1 then Some (caller 7) else None)" for i
    by (simp add: inserted_def) (simp add: get_conn_def)
  have "follows run_key 1 ?t" by (simp only: follows_def get) (simp add: key)
  then have "side_step run_key 1 net (new_side fresh_stack) ((new_side fresh_stack)\<lparr>sd_token := 2, sd_stack := ?t\<rparr>)"
    using call by (intro side_call) (simp_all add: new_side_def)
  moreover have "stack_inv {} (2, ?t)"
    using stack_step_effect [OF stack.inv_reach [OF example_stack_reach] other_call_step [OF call]] by simp
  then have "holds_one (caller 7) [] [] ((new_side fresh_stack)\<lparr>sd_token := 2, sd_stack := ?t\<rparr>)"
    using get by (simp add: holds_one_def new_side_def) (simp add: inserted_def)
  moreover have "peer (caller (7 :: nat)) = 7" using key by (simp add: conn_key_def run_key_def)
  then have "queued 7 example_syn ((new_side fresh_stack)\<lparr>sd_token := 2, sd_stack := ?t\<rparr>)"
    by (simp add: queued_def sent_def)
  ultimately show ?thesis by blast
qed

lemma run_answers:
  assumes "wire_bytes example_syn \<in> net"
  shows "\<exists>y. side_step (far 3 run_key) 1 net (new_side port_80_stack) y \<and>
    holds_one (server_record 3 isn_80) [] [] y \<and> queued 3 (syn_reply isn_80) y"
proof -
  obtain x where x: "input (3 :: nat) (wire_bytes example_syn) 0 (1, port_80_stack) = Some (Inr (), (2, server_stack 3))"
    "server_stack 3 = sent (server_conn (3 :: nat)) [x] (inserted (server_conn 3) (snd (next_isn port_80_stack)))"
    "conn_server (3 :: nat) example_syn isn_80 0 config_default 1 = Some ((server_conn 3, [x]), 2)"
    by (rule server_stack_input [of 3])
  have c: "server_conn (3 :: nat) = server_record 3 isn_80" "x = syn_reply isn_80"
    using x(3) server_new [of "3 :: nat" isn_80] by simp_all
  let ?y = "(new_side (port_80_stack :: nat stack))\<lparr>sd_token := 2, sd_stack := server_stack 3\<rparr>"
  have "follows (far 3 run_key) 1 (server_stack (3 :: nat))"
    by (simp add: follows_def c(1) server_key far_def run_key_def)
  then have "side_step (far 3 run_key) 1 net (new_side port_80_stack) ?y"
    using x(1) assms by (intro side_input [where p = 3]) (simp_all add: new_side_def)
  moreover have "holds_one (server_record (3 :: nat) isn_80) [] [] ?y"
    using stack.inv_reach [OF server_stack_reach [of "3 :: nat"]] by (simp add: holds_one_def new_side_def c(1))
  moreover have "peer (server_record (3 :: nat) isn_80) = 3" by (simp add: server_record_def)
  then have "queued 3 (syn_reply isn_80) ?y" by (simp add: queued_def x(2) c sent_def)
  ultimately show ?thesis by blast
qed

lemma example_dialogue:
  obtains x y where "run_reach (x, y)" "sd_written x = [1, 2, 3]" "sd_written y = []"
    "sd_read y = [1, 2]" "unread 1 (sd_stack y) = [3]"
proof -
  let ?y0 = "new_side port_80_stack :: nat side" and ?far = "far 3 run_key"
  obtain x1 where x1: "run_reach (x1, ?y0)" "holds_one (caller 7) [] [] x1" "queued 7 example_syn x1"
    using run_connects reach_step [OF run_start near_step] by blast
  obtain x2 where x2: "run_reach (x2, ?y0)" "holds_one (caller 7) [] [] x2" "wire_bytes example_syn \<in> sd_wire x2"
    using one_drain [OF x1(2), of run_key "sd_wire ?y0"] reach_step [OF x1(1) near_step] x1(3)
    by (auto simp: run_key_def)
  obtain y1 where y1: "run_reach (x2, y1)" "holds_one (server_record 3 isn_80) [] [] y1" "queued 3 (syn_reply isn_80) y1"
    using run_answers [OF x2(3)] reach_step [OF x2(1) far_step] by blast
  obtain y2 where y2: "run_reach (x2, y2)" "holds_one (server_record 3 isn_80) [] [] y2"
      "wire_bytes (syn_reply isn_80) \<in> sd_wire y2"
    using one_drain [OF y1(2), of ?far "sd_wire x2"] reach_step [OF y1(1) far_step] y1(3)
    by (auto simp: far_def)
  have "\<not> stale_handshake_ack (syn_reply isn_80) (caller 7)" "\<not> unexpected_syn (syn_reply isn_80) (caller 7)"
    by (simp_all add: stale_handshake_ack_def unexpected_syn_def caller_fields syn_reply_def after_def before_def)
  from one_deliver [OF x2(2) run_good(2) y2(3) _ _ _ this calling_update, of run_key]
  obtain x3 where x3: "run_reach (x3, y2)" "holds_one (calling 7 isn_80) [] [] x3"
    using reach_step [OF y2(1) near_step] by (auto simp: caller_fields run_key_def syn_reply_def)
  obtain c' where w: "conn_write [1, 2, 3] 6 config_default (calling (7 :: nat) isn_80) = Some (Inr (3, [server_data isn_80]), c')"
    using calling_write [of "7 :: nat" isn_80] by blast
  obtain x4 where x4: "run_reach (x4, y2)" "holds_one c' [1, 2, 3] [] x4" "queued 7 (server_data isn_80) x4"
    using one_write [OF x3(2) w, of run_key "sd_wire y2"] reach_step [OF x3(1) near_step]
    by (auto simp: calling_def caller_def syn_reply_def run_defs)
  obtain x5 where x5: "run_reach (x5, y2)" "holds_one c' [1, 2, 3] [] x5" "wire_bytes (server_data isn_80) \<in> sd_wire x5"
    using one_drain [OF x4(2), of run_key "sd_wire y2"] reach_step [OF x4(1) near_step] x4(3)
    by (auto simp: run_key_def)
  have "\<not> stale_handshake_ack (server_data isn_80) (server_record 3 isn_80)"
    "\<not> unexpected_syn (server_data isn_80) (server_record 3 isn_80)"
    by (simp_all add: stale_handshake_ack_def unexpected_syn_def server_record_fields server_data_fields)
  from one_deliver [OF y2(2) run_good(3) x5(3) _ _ _ this server_accepts, of ?far]
  obtain y3 where y3: "run_reach (x5, y3)" "holds_one (server_reads 3 isn_80) [] [] y3"
    using reach_step [OF x5(1) far_step] by (auto simp: server_key server_data_fields far_def run_key_def)
  obtain y4 d where y4: "run_reach (x5, y4)" "holds_one d [] [1, 2] y4" "recv_queue d = [3]"
    using one_read [OF y3(2), of ?far "sd_wire x5" 2] reach_step [OF y3(1) far_step] by auto
  show thesis
    using x5(2) y4 by (intro that [of x5 y4]) (simp_all add: holds_one_def unread_def)
qed

theorem stack_streams_witness:
  "\<exists>(x :: nat side) (y :: nat side). sd_written x = [1, 2, 3] \<and> sd_read y = [1, 2] \<and> unread 1 (sd_stack y) = [3] \<and>
     prefix (sd_read y @ unread 1 (sd_stack y)) (sd_written x) \<and>
     prefix (sd_read x @ unread 1 (sd_stack x)) (sd_written y)"
proof -
  obtain x y where xy: "run_reach (x, y)" "sd_written x = [1, 2, 3]" "sd_written y = []"
    "sd_read y = [1, 2]" "unread 1 (sd_stack y) = [3]" by (rule example_dialogue)
  from stack_streams [OF xy(1)] xy(2,3)
  have "prefix (sd_read y @ unread 1 (sd_stack y)) (sd_written x)"
    "prefix (sd_read x @ unread 1 (sd_stack x)) (sd_written y)" by simp_all
  with xy(2,4,5) show ?thesis by (intro exI [of _ x] exI [of _ y]) (intro conjI)
qed

end
