(* ===== verification/Connect_Props.thy ===== *)
theory Connect_Props
  imports Transfer_Props Conn_Props Dialogue_Run
begin

text \<open>
  Two stacks that a network connects without losses complete the handshake: each packet of it is
  the answer to the one before, and afterwards the two connections are in step, as the progress
  theorem of theory \<open>Transfer_Props\<close> asks.
\<close>

section \<open>The handshake of two connections\<close>

lemma tracked_syn:
  assumes "send_tracked fs [] now c = (s, d)" "contains fs SYN"
  shows "seg_src_port s = local_port c" "seg_dst_port s = remote_port c" "seg_flags s = fs" "seg_seq s = send_nxt c"
    "contains fs ACK \<Longrightarrow> seg_ack s = Some (recv_nxt c)" "seg_window s = available_window_u16 d"
    "supports_fips_version s FIPS_VERSION"
proof -
  let ?d = "c\<lparr>send_nxt := trk_end_seq \<lparr>trk_seq = send_nxt c, trk_flags = fs, trk_payload = [], sent_at_ms = now, transmissions = 1\<rparr>\<rparr>"
  have s: "s = segment_for \<lparr>trk_seq = send_nxt c, trk_flags = fs, trk_payload = [], sent_at_ms = now, transmissions = 1\<rparr> ?d"
    using assms(1) by (simp add: send_tracked_def Let_def)
  have "d = snd (send_tracked fs [] now c)" using assms(1) by simp
  then have "available_window_u16 d = available_window_u16 c"
    by (simp add: available_window_u16_def available_window_def)
  then show "seg_window s = available_window_u16 d"
    by (simp add: s segment_for_def) (simp add: available_window_u16_def available_window_def)
  show "seg_src_port s = local_port c" "seg_dst_port s = remote_port c" "seg_flags s = fs" "seg_seq s = send_nxt c"
    "contains fs ACK \<Longrightarrow> seg_ack s = Some (recv_nxt c)"
    by (simp_all add: s segment_for_def)
  show "supports_fips_version s FIPS_VERSION"
    using assms(2) by (simp add: s segment_for_def supports_fips_version_def FIPS_VERSION_def)
qed

lemma new_fields:
  assumes "conn_new p lport rport st isn rcv cfg token = Some (c, token')"
  shows "state c = st" "send_una c = isn" "send_nxt c = isn" "recv_nxt c = rcv" "send_queue c = []" "recv_queue c = []"
    "reassembly c = []" "\<not> close_requested c" "local_port c = lport" "remote_port c = rport"
    "rto_recovery_until c = None"
  using assms by (auto simp: conn_new_def split: option.splits)

text \<open>What the two constructors have in common: the segment opens the connection.\<close>

definition opens_with :: "u32 \<Rightarrow> flags \<Rightarrow> 'p connection \<Rightarrow> segment \<Rightarrow> bool" where
  "opens_with isn fs c s \<longleftrightarrow> send_una c = isn \<and> send_nxt c = isn + 1 \<and> send_queue c = [] \<and> recv_queue c = [] \<and>
     reassembly c = [] \<and> \<not> close_requested c \<and> seg_src_port s = local_port c \<and> seg_dst_port s = remote_port c \<and>
     seg_flags s = fs \<and> seg_seq s = isn \<and> seg_window s = available_window_u16 c \<and>
     (contains fs ACK \<longrightarrow> seg_ack s = Some (recv_nxt c)) \<and> supports_fips_version s FIPS_VERSION \<and>
     rto_recovery_until c = None"

lemma client_syn:
  assumes "conn_client p lport rport isn now cfg token = Some ((c, [syn]), token')"
  shows "opens_with isn SYN c syn" "state c = SynSent"
proof -
  obtain c0 where n: "conn_new p lport rport SynSent isn 0 cfg token = Some (c0, token')"
    and t: "send_tracked SYN [] now c0 = (syn, c)"
    using assms by (auto simp: conn_client_def Let_def simp del: send_tracked_simps split: option.splits)
  have c: "c = snd (send_tracked SYN [] now c0)" using t by simp
  show "opens_with isn SYN c syn" "state c = SynSent"
    using new_fields [OF n] tracked_syn [OF t] by (simp_all add: opens_with_def c)
qed

lemma server_syn_ack:
  assumes "conn_server p syn isn now cfg token = Some ((d, [sa]), token')"
  shows "opens_with isn (SYN OR ACK) d sa" "state d = SynReceived" "recv_nxt d = seg_seq syn + 1"
proof -
  obtain c0 where n: "conn_new p (seg_dst_port syn) (seg_src_port syn) SynReceived isn (seg_seq syn + 1) cfg token
      = Some (c0, token')"
    and t: "send_tracked (SYN OR ACK) [] now (negotiate_mss syn cfg (update_remote_window (seg_window syn) now c0)) = (sa, d)"
    using assms by (auto simp: conn_server_def Let_def simp del: send_tracked_simps split: option.splits)
  have d: "d = snd (send_tracked (SYN OR ACK) [] now (negotiate_mss syn cfg (update_remote_window (seg_window syn) now c0)))"
    using t by simp
  have r: "rto_recovery_until (negotiate_mss syn cfg (update_remote_window w now c0)) = rto_recovery_until c0" for w
    by (simp add: negotiate_mss_def update_remote_window_def Let_def)
  have p: "local_port (negotiate_mss syn cfg (update_remote_window w now c0)) = local_port c0"
    "remote_port (negotiate_mss syn cfg (update_remote_window w now c0)) = remote_port c0" for w
    by (simp_all add: negotiate_mss_def Let_def)
  show "opens_with isn (SYN OR ACK) d sa" "state d = SynReceived" "recv_nxt d = seg_seq syn + 1"
    using new_fields [OF n] tracked_syn [OF t] by (simp_all add: opens_with_def d p r)
qed

lemma apply_ack_no_recovery:
  "apply_ack ack now d c = Some (o1, c') \<Longrightarrow> rto_recovery_until c = None \<Longrightarrow> rto_recovery_until c' = None"
  by (auto simp: apply_ack_def apply_new_ack_def apply_duplicate_ack_def retransmit_oldest_def Let_def
      split: if_splits option.splits list.splits prod.splits)

lemma syn_ack_opens:
  assumes inv: "conn_inv cfg c" and c: "state c = SynSent" "send_queue c = []" "\<not> close_requested c"
      "rto_recovery_until c = None"
    and sa: "seg_flags sa = SYN OR ACK" "seg_ack sa = Some (send_nxt c)" "supports_fips_version sa FIPS_VERSION"
  shows "\<exists>c'. on_segment sa now cfg c = Some (update_open [ack_segment c'], c') \<and> conn_inv cfg c' \<and>
    state c' = Established \<and> send_nxt c' = send_nxt c \<and> recv_nxt c' = seg_seq sa + 1 \<and>
    recv_queue c' = recv_queue c \<and> reassembly c' = reassembly c \<and> send_queue c' = [] \<and> unacked c' = [] \<and>
    \<not> close_requested c' \<and> rto_recovery_until c' = None \<and> remote_window c' = unat (seg_window sa) \<and>
    accepted_payload_bytes (send_progress c') = 0"
proof -
  obtain u c' where o: "on_segment sa now cfg c = Some (u, c')"
    and eff: "if upd_closed u
         then contains (seg_flags sa) RST \<and> c' = c \<and> upd_segments u = [] \<or> finished c (upd_segments u) c'
         else effect cfg c (upd_segments u) c'"
    using on_segment_effect [OF inv, of sa now] by blast
  let ?c2 = "negotiate_mss sa cfg (update_remote_window (seg_window sa) now c)"
  have same: "send_nxt ?c2 = send_nxt c" "recv_queue ?c2 = recv_queue c" "reassembly ?c2 = reassembly c"
    "send_queue ?c2 = send_queue c" "remote_window ?c2 = unat (seg_window sa)" "phase (state ?c2) = Opening" "close_requested ?c2 = close_requested c"
    using c by simp_all
  have rec: "rto_recovery_until ?c2 = None"
    using c(4) by (simp add: negotiate_mss_def update_remote_window_def Let_def)
  have "on_syn_sent sa now cfg c = Some (u, c')" using o c sa by (simp add: on_segment_def)
  then obtain o1 c3 where a: "apply_ack (send_nxt c) now False ?c2 = Some (o1, c3)"
    and r: "c' = c3\<lparr>recv_nxt := seg_seq sa + 1, state := Established\<rparr>" "u = update_open [ack_segment c']"
    using sa same(1) by (auto simp: on_syn_sent_def Let_def split: option.splits)
  have "phase_inv Opening cfg ?c2"
    using inv c(1) by (intro negotiate_mss_phase_inv update_remote_window_inv) (auto simp: conn_inv_def state_inv_def)
  from opening_ack [OF this, of now] same(1) a
  have "ack_frame ?c2 c3" "unacked c3 = []" by auto
  then have "conn_inv cfg c' \<and> send_nxt c' = send_nxt c \<and> recv_queue c' = recv_queue c \<and>
      reassembly c' = reassembly c \<and> send_queue c' = [] \<and> unacked c' = [] \<and> \<not> close_requested c' \<and>
      rto_recovery_until c' = None \<and> remote_window c' = unat (seg_window sa)"
    using eff r c(2,3) same apply_ack_no_recovery [OF a rec] by (simp add: ack_frame_def effect_def update_open_def)
  moreover have "accepted_payload_bytes (send_progress c') = 0"
    using eff r inv c(1) by (auto simp: update_open_def effect_def acks_bytes_def conn_inv_def phase_inv_def)
  ultimately show ?thesis using o r by simp
qed

lemma ack_opens:
  assumes inv: "conn_inv cfg d" and d: "state d = SynReceived" "send_queue d = []" "\<not> close_requested d"
      "rto_recovery_until d = None"
    and ack: "seg_flags ack = ACK" "seg_ack ack = Some (send_nxt d)" "seg_payload ack = []"
  shows "\<exists>d'. on_segment ack now cfg d = Some (\<lparr>upd_segments = [], upd_accepted = True, upd_closed = False\<rparr>, d') \<and>
    conn_inv cfg d' \<and> state d' = Established \<and> send_nxt d' = send_nxt d \<and> recv_nxt d' = recv_nxt d \<and>
    recv_queue d' = recv_queue d \<and> reassembly d' = reassembly d \<and> send_queue d' = [] \<and> unacked d' = [] \<and>
    \<not> close_requested d' \<and> rto_recovery_until d' = None \<and> remote_window d' = unat (seg_window ack)"
proof -
  obtain u d' where o: "on_segment ack now cfg d = Some (u, d')"
    and eff: "if upd_closed u
         then contains (seg_flags ack) RST \<and> d' = d \<and> upd_segments u = [] \<or> finished d (upd_segments u) d'
         else effect cfg d (upd_segments u) d'"
    using on_segment_effect [OF inv, of ack now] by blast
  have ph: "phase_inv Opening cfg d" using inv d(1) by (simp add: conn_inv_def)
  obtain o1 d1 where a: "apply_ack (send_nxt d) now False d = Some (o1, d1)" "ack_frame d d1" "unacked d1 = []"
    using opening_ack [OF ph, of now] by auto
  have rec: "rto_recovery_until d1 = None" using apply_ack_no_recovery [OF a(1) d(4)] .
  have rec2: "rto_recovery_until (update_remote_window w now d1) = None" for w
    using rec by (simp add: update_remote_window_def Let_def)
  let ?d2 = "(update_remote_window (seg_window ack) now d1)\<lparr>state := Established\<rparr>"
  have q: "send_queue ?d2 = []" "\<not> close_requested ?d2" using a(2) d by (simp_all add: ack_frame_def)
  have nodata: "receive_if_data ack now cfg [] ?d2 = ([], ?d2)"
    using ack by (simp add: receive_if_data_def has_stream_data_def)
  have "on_syn_received ack now cfg d = Some (\<lparr>upd_segments = [], upd_accepted = True, upd_closed = False\<rparr>, ?d2)"
    using ack a(1) nodata flush_nothing [OF q, of now] by (simp add: on_syn_received_def Let_def)
  then have "u = \<lparr>upd_segments = [], upd_accepted = True, upd_closed = False\<rparr>" "d' = ?d2"
    using o ack d(1) by (simp_all add: on_segment_def)
  then show ?thesis using o eff a(2,3) d(2,3) rec2 by (simp add: ack_frame_def effect_def)
qed

section \<open>The handshake of two stacks\<close>

lemma ack_segment_fields:
  "seg_flags (ack_segment c) = ACK" "seg_ack (ack_segment c) = Some (recv_nxt c)" "seg_payload (ack_segment c) = []"
  "seg_src_port (ack_segment c) = local_port c" "seg_dst_port (ack_segment c) = remote_port c"
  "seg_window (ack_segment c) = available_window_u16 c"
  by (simp_all add: ack_segment_def)

text \<open>The segment that completes a handshake: nothing is sent, the connection waits to be accepted.\<close>

lemma input_completes:
  assumes inv: "stack_inv H (token, s)" and get: "get_conn cid s = Some c" and good: "good_segment seg"
    and key: "conn_key c = \<lparr>key_peer = p, key_local_port = seg_dst_port seg, key_remote_port = seg_src_port seg\<rparr>"
    and pass: "\<not> stale_handshake_ack seg c" "\<not> unexpected_syn seg c"
    and seg: "on_segment seg now (config s) c = Some (\<lparr>upd_segments = [], upd_accepted = True, upd_closed = False\<rparr>, c')"
  shows "input p (wire_bytes seg) now (token, s) =
    Some (Inr (), (token, push_accept (local_port c') cid (put_conn cid c' s)))"
proof -
  have look: "lookup s (conn_key c) = Some cid" using stack_inv_conn(3) [OF inv get] .
  have "emit cid [] (push_accept (local_port c') cid (put_conn cid c' s)) =
      (Inr (), push_accept (local_port c') cid (put_conn cid c' s))"
    by (simp add: emit_def push_accept_def)
  then have "input_existing p cid seg now s = Some (Inr (), push_accept (local_port c') cid (put_conn cid c' s))"
    using get pass seg by (simp add: input_existing_def apply_update_def)
  then show ?thesis
    using decode_wire_bytes [OF good] look by (simp add: input_def key)
qed

lemma inserted_simps:
  "get_conn i (inserted c s) = (if i = next_connection_id s then Some c else get_conn i s)"
  "config (inserted c s) = config s" "outbound (inserted c s) = outbound s" "accepts (inserted c s) = accepts s"
  by (simp_all add: inserted_def)

lemma dials:
  assumes inv: "stack_inv {} (ta, sa)"
    and r: "connect_from_with_isn q lport rport isn now (ta, sa) = Some (Inr i, (ta1, sa1))"
  obtains c syn where "get_conn i sa1 = Some c" "outbound sa1 = outbound sa @ [packet q syn]" "config sa1 = config sa"
    "conn_key c = \<lparr>key_peer = q, key_local_port = lport, key_remote_port = rport\<rparr>" "good_segment syn"
    "opens_with isn SYN c syn" "state c = SynSent" "stack_inv {} (ta1, sa1)"
proof -
  have ports: "lport \<noteq> 0" "rport \<noteq> 0" and room: "ensure_connection_capacity q sa = Inr ()"
    and free: "lookup sa \<lparr>key_peer = q, key_local_port = lport, key_remote_port = rport\<rparr> = None"
    using r by (auto simp: connect_from_with_isn_def Let_def split: if_splits sum.splits)
  have token: "ta < u64_max"
    using r ports room free by (cases "conn_client q lport rport isn now (config sa) ta")
      (auto simp: connect_from_with_isn_def allocate_connection_id_def Let_def dest: create_needs_token(1))
  obtain c syn where c: "conn_client q lport rport isn now (config sa) ta = Some ((c, [syn]), ta + 1)"
    "conn_key c = \<lparr>key_peer = q, key_local_port = lport, key_remote_port = rport\<rparr>" "sends c syn"
    using conn_created [OF stack_invD(1) [OF inv] ports token, of q isn now] by auto
  have t: "i = next_connection_id sa" "ta1 = ta + 1" "sa1 = sent c [syn] (inserted c sa)"
    using connect_from_opens [OF ports room _ c(2,1,3)] free c(2) r by simp_all
  have "stack_step (ta, sa) (ta1, sa1)" using r by (rule do_connect_from)
  then have "stack_inv {} (ta1, sa1)" using stack_step_effect [OF inv] by simp
  moreover have "peer c = q" using c(2) by (simp add: conn_key_def)
  ultimately show thesis
    using client_syn [OF c(1)] c(2,3)
    by (intro that [of c syn]) (simp_all add: t inserted_simps sent_def sends_def)
qed

lemma answers:
  assumes inv: "stack_inv {} (tb, sb)" and syn: "good_segment syn" "seg_flags syn = SYN" "supports_fips_version syn FIPS_VERSION"
      "seg_src_port syn = lport" "seg_dst_port syn = rport" "seg_seq syn = seq"
    and sb: "rport \<in> listeners sb" "ensure_connection_capacity p sb = Inr ()" "tb < u64_max"
      "lookup sb \<lparr>key_peer = p, key_local_port = rport, key_remote_port = lport\<rparr> = None"
  obtains d sa sb1 j isn where "input p (wire_bytes syn) now (tb, sb) = Some (Inr (), (tb + 1, sb1))"
    "get_conn j sb1 = Some d" "outbound sb1 = outbound sb @ [packet p sa]" "config sb1 = config sb"
    "conn_key d = \<lparr>key_peer = p, key_local_port = rport, key_remote_port = lport\<rparr>" "good_segment sa"
    "opens_with isn (SYN OR ACK) d sa" "state d = SynReceived" "recv_nxt d = seq + 1"
    "stack_inv {} (tb + 1, sb1)" "accepts sb1 = accepts sb"
proof -
  define isn where "isn = fst (next_isn sb)"
  obtain d sa where d: "conn_server p syn isn now (config sb) tb = Some ((d, [sa]), tb + 1)"
    "conn_key d = \<lparr>key_peer = p, key_local_port = rport, key_remote_port = lport\<rparr>" "sends d sa"
    using conn_accepted [OF stack_invD(1) [OF inv] syn(1) sb(3), of p isn now] syn(4,5) by auto
  let ?t = "sent d [sa] (inserted d (snd (next_isn sb)))"
  have "input_syn p syn now (tb, sb) = Some (Inr (), (tb + 1, ?t))"
    using input_syn_opens [OF syn(3) sb(2) _ d(1) [unfolded isn_def] d(3)] d(2) syn(4,5) by simp
  then have i: "input p (wire_bytes syn) now (tb, sb) = Some (Inr (), (tb + 1, ?t))"
    using decode_wire_bytes [OF syn(1)] syn(2,4,5) sb(1,4) by (simp add: input_def)
  have "stack_inv {} (tb + 1, ?t)" using stack_step_effect [OF inv do_input [OF i]] by simp
  moreover have "peer d = p" using d(2) by (simp add: conn_key_def)
  moreover have "accepts (snd (next_isn sb)) = accepts sb" "outbound (snd (next_isn sb)) = outbound sb"
    by (simp_all add: next_isn_def Let_def)
  ultimately show thesis
    using server_syn_ack [OF d(1)] syn(6) d(2,3) i
    by (intro that [of ?t "next_connection_id sb" d sa isn])
      (simp_all add: inserted_simps sent_def sends_def)
qed

lemma empty_window:
  assumes "conn_inv cfg c" "recv_queue c = []" "reassembly c = []"
  shows "available_window c = receive_buffer cfg" "unat (available_window_u16 c) = receive_buffer cfg"
proof -
  have inv: "recv_inv c" "receive_capacity c = receive_buffer cfg"
    using assms(1) by (simp_all add: conn_inv_def phase_inv_def param_inv_def)
  show w: "available_window c = receive_buffer cfg" using assms(2,3) inv by (simp add: available_window_eq)
  show "unat (available_window_u16 c) = receive_buffer cfg" using available_window_u16_exact [OF inv(1)] w by simp
qed

lemma stacks_handshake:
  assumes "stack_reach (ta, sa)" "stack_reach (tb, sb)" "tb < u64_max"
    and "connect_from_with_isn q lport rport isn t0 (ta, sa) = Some (Inr i, (ta1, sa1))"
    and "rport \<in> listeners sb" "ensure_connection_capacity p sb = Inr ()"
    and "lookup sb \<lparr>key_peer = p, key_local_port = rport, key_remote_port = lport\<rparr> = None"
  obtains m1 m2 m3 j sb1 sa2 sb2 c d where
    "outbound sa1 = outbound sa @ [\<lparr>out_peer = q, out_bytes = m1\<rparr>]"
    "input p m1 t1 (tb, sb) = Some (Inr (), (tb + 1, sb1))" "outbound sb1 = outbound sb @ [\<lparr>out_peer = p, out_bytes = m2\<rparr>]"
    "input q m2 t2 (ta1, sa1) = Some (Inr (), (ta1, sa2))" "outbound sa2 = outbound sa1 @ [\<lparr>out_peer = q, out_bytes = m3\<rparr>]"
    "input p m3 t3 (tb + 1, sb1) = Some (Inr (), (tb + 1, sb2))"
    "get_conn i sa2 = Some c" "get_conn j sb2 = Some d"
    "conn_key c = \<lparr>key_peer = q, key_local_port = lport, key_remote_port = rport\<rparr>"
    "conn_key d = \<lparr>key_peer = p, key_local_port = rport, key_remote_port = lport\<rparr>"
    "accepts sb2 rport = Some ((case accepts sb rport of None \<Rightarrow> [] | Some waiting \<Rightarrow> waiting) @ [j])"
    "in_step c d" "recv_queue c = []" "recv_queue d = []" "accepted_payload_bytes (send_progress c) = 0"
    "remote_window c = receive_buffer (config sb)" "remote_window d = receive_buffer (config sa)"
proof -
  obtain c syn where c: "get_conn i sa1 = Some c" "outbound sa1 = outbound sa @ [packet q syn]" "config sa1 = config sa"
    "conn_key c = \<lparr>key_peer = q, key_local_port = lport, key_remote_port = rport\<rparr>" "good_segment syn"
    "opens_with isn SYN c syn" "state c = SynSent" "stack_inv {} (ta1, sa1)"
    by (rule dials [OF stack.inv_reach [OF assms(1)] assms(4)])
  have port: "local_port c = lport" "remote_port c = rport" "peer c = q" using c(4) by (simp_all add: conn_key_def)
  note oc = c(6) [unfolded opens_with_def port]
  have syn: "seg_flags syn = SYN" "supports_fips_version syn FIPS_VERSION" "seg_src_port syn = lport"
    "seg_dst_port syn = rport" "seg_seq syn = isn" using oc by simp_all
  obtain d sa_seg sb1 j isn_b where d: "input p (wire_bytes syn) t1 (tb, sb) = Some (Inr (), (tb + 1, sb1))"
    "get_conn j sb1 = Some d" "outbound sb1 = outbound sb @ [packet p sa_seg]" "config sb1 = config sb"
    "conn_key d = \<lparr>key_peer = p, key_local_port = rport, key_remote_port = lport\<rparr>" "good_segment sa_seg"
    "opens_with isn_b (SYN OR ACK) d sa_seg" "state d = SynReceived" "recv_nxt d = isn + 1"
    "stack_inv {} (tb + 1, sb1)" "accepts sb1 = accepts sb"
    by (rule answers [OF stack.inv_reach [OF assms(2)] c(5) syn assms(5,6,3,7)])
  have port_d: "local_port d = rport" "remote_port d = lport" "peer d = p" using d(5) by (simp_all add: conn_key_def)
  note od = d(7) [unfolded opens_with_def port_d]
  note inv_c = stack_inv_conn(1) [OF c(8,1)] and inv_d = stack_inv_conn(1) [OF d(10,2)]
  have "seg_flags sa_seg = SYN OR ACK" "seg_ack sa_seg = Some (send_nxt c)" "supports_fips_version sa_seg FIPS_VERSION"
    using oc od d(9) by simp_all
  from syn_ack_opens [OF inv_c c(7) _ _ _ this, of t2] oc
  obtain c' where c': "on_segment sa_seg t2 (config sa1) c = Some (update_open [ack_segment c'], c')"
    "conn_inv (config sa1) c'" "state c' = Established" "send_nxt c' = isn + 1" "recv_nxt c' = isn_b + 1"
    "recv_queue c' = []" "reassembly c' = []" "remote_window c' = unat (available_window_u16 d)"
    "idle c'" "rto_recovery_until c' = None" "accepted_payload_bytes (send_progress c') = 0"
    using od by (auto simp: idle_def)
  have id: "identity c' = identity c"
    using conn_step_effect [OF inv_c step_segment [OF c'(1)]] by (simp add: update_open_def)
  note key_c' = conn_key_identity [OF id]
  have port_c': "local_port c' = lport" "remote_port c' = rport" using key_c' c(4) by (simp_all add: conn_key_def)
  let ?sa2 = "sent c [ack_segment c'] (put_conn i c' sa1)"
  have pass_c: "\<not> stale_handshake_ack sa_seg c" "\<not> unexpected_syn sa_seg c"
    using oc od c(7) d(9) by (simp_all add: stale_handshake_ack_def unexpected_syn_def after_def before_def)
  have a: "input q (wire_bytes sa_seg) t2 (ta1, sa1) = Some (Inr (), (ta1, ?sa2))"
    using input_delivers [OF c(8,1) d(6) _ pass_c c'(1)] c(4) od by (simp add: update_open_def)
  have good: "good_segment (ack_segment c')" using sends_ack [OF conn_inv_ready [OF c'(2)]] by (simp add: sends_def)
  have "\<not> close_requested d" "send_queue d = []" "seg_ack (ack_segment c') = Some (send_nxt d)"
    using od c'(5) by (simp_all add: ack_segment_fields)
  from ack_opens [OF inv_d d(8) this(2,1) _ _ this(3), of t3] od
  obtain d' where d': "on_segment (ack_segment c') t3 (config sb1) d =
      Some (\<lparr>upd_segments = [], upd_accepted = True, upd_closed = False\<rparr>, d')"
    "conn_inv (config sb1) d'" "state d' = Established" "send_nxt d' = isn_b + 1" "recv_nxt d' = isn + 1"
    "recv_queue d' = []" "reassembly d' = []" "remote_window d' = unat (available_window_u16 c')"
    "idle d'" "rto_recovery_until d' = None"
    using d(9) by (auto simp: ack_segment_fields idle_def)
  have "identity d' = identity d"
    using conn_step_effect [OF inv_d step_segment [OF d'(1)]] by simp
  note key_d' = conn_key_identity [OF this]
  have "local_port d' = rport" using key_d' d(5) by (simp add: conn_key_def)
  moreover have pass_d: "\<not> stale_handshake_ack (ack_segment c') d" "\<not> unexpected_syn (ack_segment c') d"
    using d(8) by (simp_all add: stale_handshake_ack_def unexpected_syn_def ack_segment_fields)
  ultimately have b: "input p (wire_bytes (ack_segment c')) t3 (tb + 1, sb1) =
      Some (Inr (), (tb + 1, push_accept rport j (put_conn j d' sb1)))"
    using input_completes [OF d(10,2) good _ pass_d d'(1)] d(5) port_c' by (simp add: ack_segment_fields)
  have win: "remote_window c' = available_window d'" "remote_window d' = available_window c'"
    "remote_window c' = receive_buffer (config sb)" "remote_window d' = receive_buffer (config sa)"
    using c'(6-8) d'(6-8) od empty_window [OF inv_d] empty_window [OF c'(2)] empty_window [OF d'(2)] c(3) d(4) by simp_all
  have step: "in_step c' d'" using c'(3-5,9,10) d'(3-5,9,10) win(1,2) by (simp add: in_step_def)
  let ?sb2 = "push_accept rport j (put_conn j d' sb1)"
  show thesis
  proof (rule that [OF _ d(1) _ a _ b])
    show "outbound sa1 = outbound sa @ [\<lparr>out_peer = q, out_bytes = wire_bytes syn\<rparr>]"
      "outbound sb1 = outbound sb @ [\<lparr>out_peer = p, out_bytes = wire_bytes sa_seg\<rparr>]"
      using c(2) d(3) by (simp_all add: packet_def)
    show "outbound ?sa2 = outbound sa1 @ [\<lparr>out_peer = q, out_bytes = wire_bytes (ack_segment c')\<rparr>]"
      "get_conn i ?sa2 = Some c'" "get_conn j ?sb2 = Some d'"
      "accepts ?sb2 rport = Some ((case accepts sb rport of None \<Rightarrow> [] | Some waiting \<Rightarrow> waiting) @ [j])"
      using port(3) d(11) by (simp_all add: sent_def push_accept_def packet_def split: option.split)
    show "conn_key c' = \<lparr>key_peer = q, key_local_port = lport, key_remote_port = rport\<rparr>"
      "conn_key d' = \<lparr>key_peer = p, key_local_port = rport, key_remote_port = lport\<rparr>"
      using key_c' c(4) key_d' d(5) by simp_all
  qed (use step win(3,4) c'(6,11) d'(6) in simp_all)
qed

text \<open>
  C7: The handshake over a network that delivers. A client that calls \<open>connect\<close> queues exactly one
  datagram; handed to a stack that listens on the port and has room, it is answered by exactly one;
  that one opens the client's connection and is answered by exactly one; and that opens the
  server's connection and puts it at the end of the listener's accept queue. Afterwards the two are
  in step, and each knows the whole receive buffer of the other as its window. The four calls may
  happen at any times.
\<close>

theorem stacks_connect:
  assumes "stack_reach (ta, sa)" "stack_reach (tb, sb)" "tb < u64_max"
    and "connect_from_with_isn q lport rport isn t0 (ta, sa) = Some (Inr i, (ta1, sa1))"
    and "rport \<in> listeners sb" "ensure_connection_capacity p sb = Inr ()"
    and "lookup sb \<lparr>key_peer = p, key_local_port = rport, key_remote_port = lport\<rparr> = None"
  shows "\<exists>m1 m2 m3 j sb1 sa2 sb2 c d.
    outbound sa1 = outbound sa @ [\<lparr>out_peer = q, out_bytes = m1\<rparr>] \<and>
    input p m1 t1 (tb, sb) = Some (Inr (), (tb + 1, sb1)) \<and>
    outbound sb1 = outbound sb @ [\<lparr>out_peer = p, out_bytes = m2\<rparr>] \<and>
    input q m2 t2 (ta1, sa1) = Some (Inr (), (ta1, sa2)) \<and>
    outbound sa2 = outbound sa1 @ [\<lparr>out_peer = q, out_bytes = m3\<rparr>] \<and>
    input p m3 t3 (tb + 1, sb1) = Some (Inr (), (tb + 1, sb2)) \<and>
    get_conn i sa2 = Some c \<and> get_conn j sb2 = Some d \<and> in_step c d \<and>
    accepts sb2 rport = Some ((case accepts sb rport of None \<Rightarrow> [] | Some waiting \<Rightarrow> waiting) @ [j]) \<and>
    remote_window c = receive_buffer (config sb) \<and> remote_window d = receive_buffer (config sa)"
  by (rule stacks_handshake [OF assms, of t1 t2 t3]) blast

theorem stacks_connect_witness:
  "\<exists>m1 m2 m3 j (sb1 :: nat stack) (sa2 :: nat stack) sb2 c d.
     input 3 m1 10 (1, port_80_stack) = Some (Inr (), (2, sb1)) \<and> outbound sb1 = [\<lparr>out_peer = 3, out_bytes = m2\<rparr>] \<and>
     input 3 m3 30 (2, sb1) = Some (Inr (), (2, sb2)) \<and> get_conn 1 sa2 = Some c \<and> get_conn j sb2 = Some d \<and>
     in_step c d \<and> remote_window d = 65535"
proof -
  have b: "80 \<in> listeners (port_80_stack :: nat stack)" "ensure_connection_capacity 3 (port_80_stack :: nat stack) = Inr ()"
    "lookup (port_80_stack :: nat stack) \<lparr>key_peer = 3, key_local_port = 80, key_remote_port = 50000\<rparr> = None"
    by (simp_all add: ensure_connection_capacity_def peer_connections_def config_default_def u64_max_def)
  have token: "(1 :: nat) < u64_max" by (simp add: u64_max_def)
  have buf: "receive_buffer (config (fresh_stack :: nat stack)) = 65535" by (simp add: config_default_def u16_max_def)
  from stacks_connect [OF example_stack_reach listen_stack_reach token run_dials [of "7 :: nat"] b, of 10 20 30]
  show ?thesis unfolding listen_stack_simps append_Nil one_add_one buf by (elim exE conjE) (intro exI conjI)
qed

end
