(* ===== verification/Message_Props.thy ===== *)
theory Message_Props
  imports Repair_Props Connect_Props
begin

text \<open>
  A message between two stacks over a network that delivers: written on one, carried as datagrams,
  read on the other, acknowledged back, and reported by its marker.
\<close>

section \<open>Datagrams in a row\<close>

text \<open>Datagrams handed to a stack one after the other, all of them accepted.\<close>

fun inputs :: "'p \<Rightarrow> bytes list \<Rightarrow> nat \<Rightarrow> nat \<times> 'p stack \<Rightarrow> (nat \<times> 'p stack) option" where
  "inputs p [] now ts = Some ts"
| "inputs p (b # bs) now ts =
     (case input p b now ts of
        Some (Inr u, ts') \<Rightarrow> inputs p bs now ts'
      | _ \<Rightarrow> None)"

text \<open>A stack that holds a connection, seen from the connection.\<close>

definition holds :: "connection_id \<Rightarrow> 'p connection \<Rightarrow> 'p connection_key \<Rightarrow> nat \<times> 'p stack \<Rightarrow> bool" where
  "holds cid c key ts \<longleftrightarrow> stack_inv {} ts \<and> get_conn cid (snd ts) = Some c \<and> conn_key c = key"

text \<open>One segment for the connection: its answers are queued behind what was there.\<close>

lemma holds_input:
  assumes h: "holds cid c key (token, s)" and good: "good_segment seg"
    and to: "seg_dst_port seg = key_local_port key" "seg_src_port seg = key_remote_port key"
    and pass: "state c \<noteq> SynSent" "\<not> contains (seg_flags seg) SYN"
    and o: "on_segment seg now (config s) c = Some (update_open out, c')"
  shows "input (key_peer key) (wire_bytes seg) now (token, s) = Some (Inr (), (token, sent c out (put_conn cid c' s)))"
    and "holds cid c' key (token, sent c out (put_conn cid c' s))" and "\<forall>x \<in> set out. sends c x"
proof -
  have inv: "stack_inv {} (token, s)" and get: "get_conn cid s = Some c" and key: "conn_key c = key"
    using h by (simp_all add: holds_def)
  have k: "conn_key c = \<lparr>key_peer = key_peer key, key_local_port = seg_dst_port seg, key_remote_port = seg_src_port seg\<rparr>"
    using key to by (cases key) simp
  have p: "\<not> stale_handshake_ack seg c" "\<not> unexpected_syn seg c"
    using pass by (simp_all add: stale_handshake_ack_def unexpected_syn_def)
  show i: "input (key_peer key) (wire_bytes seg) now (token, s) = Some (Inr (), (token, sent c out (put_conn cid c' s)))"
    using input_delivers [OF inv get good k p o] by (simp add: update_open_def)
  have "identity c' = identity c"
    using conn_step_effect [OF stack_inv_conn(1) [OF inv get] step_segment [OF o]] by (simp add: update_open_def)
  then have "conn_key c' = key" using conn_key_identity key by metis
  moreover have "stack_inv {} (token, sent c out (put_conn cid c' s))"
    using stack_step_effect [OF inv do_input [OF i]] by simp
  ultimately show "holds cid c' key (token, sent c out (put_conn cid c' s))" by (simp add: holds_def)
  show "\<forall>x \<in> set out. sends c x"
    using talks_on_segment [OF stack_inv_conn(4) [OF inv get] o] by (simp add: talks_def update_open_def)
qed

lemma holds_conn: "holds cid c key (token, s) \<Longrightarrow> conn_inv (config s) c \<and> valid_config (config s)"
  using stack_inv_conn(1) stack_invD(1) by (fastforce simp: holds_def valid_setup_def)

section \<open>The row arrives\<close>

text \<open>\<open>a\<close> acknowledges \<open>s\<close> and nothing else.\<close>

definition acks_segment :: "segment \<Rightarrow> segment \<Rightarrow> bool" where
  "acks_segment s a \<longleftrightarrow> good_segment a \<and> seg_flags a = ACK \<and> seg_payload a = [] \<and>
     seg_ack a = Some (seg_seq s + of_nat (length (seg_payload s))) \<and>
     seg_src_port a = seg_dst_port s \<and> seg_dst_port a = seg_src_port s"

lemma row_arrives:
  assumes "holds cid d key (token, s)" "receives_data d" "idle d" "in_row (recv_nxt d) segs e"
    and "\<forall>x \<in> set segs. good_segment x \<and> seg_dst_port x = key_local_port key \<and> seg_src_port x = key_remote_port key \<and>
      seg_ack x = Some (send_nxt d)"
    and "length (payloads segs) \<le> available_window d"
  shows "\<exists>acks s' d'. inputs (key_peer key) (map wire_bytes segs) now (token, s) = Some (token, s') \<and>
    holds cid d' key (token, s') \<and> list_all2 acks_segment segs acks \<and>
    outbound s' = outbound s @ map (packet (key_peer key)) acks \<and> recv_queue d' = recv_queue d @ payloads segs \<and>
    recv_nxt d' = e \<and> config s' = config s \<and> receives_data d' \<and> idle d' \<and> send_nxt d' = send_nxt d \<and>
    available_window d = available_window d' + length (payloads segs)"
  using assms
proof (induction segs arbitrary: d s)
  case Nil
  then show ?case by (intro exI [of _ "[]"] exI [of _ s] exI [of _ d]) simp
next
  case (Cons x xs)
  have inv: "conn_inv (config s) d" "valid_config (config s)" using holds_conn [OF Cons.prems(1)] by simp_all
  have x: "seg_flags x = ACK OR PSH" "seg_seq x = recv_nxt d" "seg_payload x \<noteq> []" "seg_ack x = Some (send_nxt d)"
      "length (seg_payload x) \<le> available_window d"
    using Cons.prems(4-6) by simp_all
  let ?d = "took_data x now d"
  let ?a = "ack_segment ?d"
  note arr = data_arrives [OF inv Cons.prems(2,3) x, of now]
  have st: "state d \<noteq> SynSent" "\<not> contains (seg_flags x) SYN" using Cons.prems(2) x(1) by (auto simp: receives_data_def)
  have to: "good_segment x" "seg_dst_port x = key_local_port key" "seg_src_port x = key_remote_port key"
    using Cons.prems(5) by simp_all
  note i = holds_input [OF Cons.prems(1) to st arr(1)]
  let ?s = "sent d [?a] (put_conn cid ?d s)"
  have key: "peer d = key_peer key" "local_port d = key_local_port key" "remote_port d = key_remote_port key"
    using Cons.prems(1) by (auto simp: holds_def conn_key_def)
  have rest: "receives_data ?d" "idle ?d" "in_row (recv_nxt ?d) xs e" "length (payloads xs) \<le> available_window ?d"
      "\<forall>x \<in> set xs. good_segment x \<and> seg_dst_port x = key_local_port key \<and> seg_src_port x = key_remote_port key \<and>
        seg_ack x = Some (send_nxt ?d)"
    using Cons.prems(2-6) arr(3) by (simp_all add: receives_data_def idle_def)
  obtain acks s' d' where ih: "inputs (key_peer key) (map wire_bytes xs) now (token, ?s) = Some (token, s')"
    "holds cid d' key (token, s')" "list_all2 acks_segment xs acks"
    "outbound s' = outbound ?s @ map (packet (key_peer key)) acks" "recv_queue d' = recv_queue ?d @ payloads xs"
    "recv_nxt d' = e" "config s' = config ?s" "receives_data d'" "idle d'" "send_nxt d' = send_nxt ?d"
    "available_window ?d = available_window d' + length (payloads xs)"
    using Cons.IH [OF i(2) rest(1-3,5,4)] by blast
  have win: "available_window d = available_window ?d + length (seg_payload x)" using arr(3) x(5) by simp
  have "acks_segment x ?a"
    using i(3) x(2) to key by (simp add: acks_segment_def sends_def ack_segment_fields)
  then show ?case
    using i(1) ih by (intro exI [of _ "?a # acks"] exI [of _ s'] exI [of _ d']) (simp add: sent_def key(1) win)
qed

section \<open>The acknowledgments arrive\<close>

lemma ack_releases:
  assumes inv: "conn_inv cfg c" and c: "state c = Established \<or> state c = CloseWait" "send_queue c = []" "\<not> close_requested c"
      "rto_recovery_until c = None" "unacked c = t # ts"
    and a: "seg_flags a = ACK" "seg_payload a = []" "seg_ack a = Some (trk_end_seq t)"
  shows "\<exists>c'. on_segment a now cfg c = Some (update_open [], c') \<and> state c' = state c \<and> send_queue c' = [] \<and>
    \<not> close_requested c' \<and> rto_recovery_until c' = None \<and> unacked c' = ts \<and>
    accepted_payload_bytes (send_progress c') = accepted_payload_bytes (send_progress c) \<and>
    connection_token (send_progress c') = connection_token (send_progress c)"
proof -
  have ph: "phase_inv Open cfg c" using inv c(1) by (auto simp: conn_inv_def)
  define d where "d = is_duplicate_ack_candidate a (send_una c) (remote_window c)"
  obtain c1 where ack: "apply_ack (trk_end_seq t) now d c = Some (no_outcome, c1)"
    and c1: "ack_frame c c1" "unacked c1 = ts" "send_una c1 = trk_end_seq t" "rto_recovery_until c1 = None"
      "accepted_payload_bytes (send_progress c1) = accepted_payload_bytes (send_progress c)"
      "connection_token (send_progress c1) = connection_token (send_progress c)"
    using oldest_acked [OF ph c(5) disjI2 [OF c(4)], of now d] c(4) by auto
  note f = c1(1) [unfolded ack_frame_def]
  note o = open_flightD [OF ph c(5)]
  have int: "in_closed_interval (trk_end_seq t) (trk_end_seq t) (send_nxt c)"
    using acceptable_ack [OF o(3), of "trk_end_seq t"] o(5) by (simp add: in_closed_interval_def u16_max_def)
  let ?c2 = "update_remote_window (seg_window a) now c1"
  have until: "rto_recovery_until ?c2 = None" using c1(4) by (simp add: update_remote_window_def Let_def)
  then have "repair_timed_out_flight now cfg ?c2 = (None, ?c2)" by (simp add: repair_timed_out_flight_def)
  then have p: "process_ack a (trk_end_seq t) now cfg c = Some ((False, []), ?c2)"
    using ack int f c1(3) by (simp add: process_ack_def Let_def d_def [symmetric] no_outcome_def)
  have "flush_data now ?c2 = Some ([], ?c2)" using f c(2,3) by (intro flush_nothing) simp_all
  then have "on_segment a now cfg c = Some (update_open [], ?c2)"
    using c(1) a p by (auto simp: on_segment_def on_synchronized_def receive_if_data_def has_stream_data_def)
  then show ?thesis using f c(2,3) c1(2,5,6) until by (intro exI [of _ ?c2]) simp
qed

text \<open>\<open>a\<close> is a datagram for the connection of \<open>key\<close> that acknowledges \<open>t\<close> and all before it.\<close>

definition confirms :: "'p connection_key \<Rightarrow> tracked_segment \<Rightarrow> segment \<Rightarrow> bool" where
  "confirms key t a \<longleftrightarrow> good_segment a \<and> seg_flags a = ACK \<and> seg_payload a = [] \<and> seg_ack a = Some (trk_end_seq t) \<and>
     seg_dst_port a = key_local_port key \<and> seg_src_port a = key_remote_port key"

text \<open>A connection that waits for acknowledgments only.\<close>

definition drained :: "'p connection \<Rightarrow> bool" where
  "drained c \<longleftrightarrow> (state c = Established \<or> state c = CloseWait) \<and> send_queue c = [] \<and> \<not> close_requested c \<and>
     rto_recovery_until c = None"

lemma acks_release:
  assumes "holds cid c key (token, s)" "drained c" "unacked c = ts @ us" "list_all2 (confirms key) ts acks"
  shows "\<exists>s' c'. inputs (key_peer key) (map wire_bytes acks) now (token, s) = Some (token, s') \<and> holds cid c' key (token, s') \<and>
    drained c' \<and> unacked c' = us \<and> outbound s' = outbound s \<and>
    accepted_payload_bytes (send_progress c') = accepted_payload_bytes (send_progress c) \<and>
    connection_token (send_progress c') = connection_token (send_progress c)"
  using assms
proof (induction acks arbitrary: c s ts)
  case Nil
  then show ?case by (intro exI [of _ s] exI [of _ c]) simp
next
  case (Cons a as)
  obtain t tr where ts: "ts = t # tr" "confirms key t a" "list_all2 (confirms key) tr as"
    using Cons.prems(4) by (cases ts) simp_all
  have un: "unacked c = t # tr @ us" using Cons.prems(3) ts(1) by simp
  have a: "good_segment a" "seg_flags a = ACK" "seg_payload a = []" "seg_ack a = Some (trk_end_seq t)"
      "seg_dst_port a = key_local_port key" "seg_src_port a = key_remote_port key"
    using ts(2) by (simp_all add: confirms_def)
  have dr: "state c = Established \<or> state c = CloseWait" "send_queue c = []" "\<not> close_requested c" "rto_recovery_until c = None"
    using Cons.prems(2) by (simp_all add: drained_def)
  have inv: "conn_inv (config s) c" using holds_conn [OF Cons.prems(1)] by simp
  obtain c1 where c1: "on_segment a now (config s) c = Some (update_open [], c1)" "state c1 = state c" "send_queue c1 = []"
      "\<not> close_requested c1" "rto_recovery_until c1 = None" "unacked c1 = tr @ us"
      "accepted_payload_bytes (send_progress c1) = accepted_payload_bytes (send_progress c)"
      "connection_token (send_progress c1) = connection_token (send_progress c)"
    using ack_releases [OF inv dr un a(2-4)] by blast
  have st: "state c \<noteq> SynSent" "\<not> contains (seg_flags a) SYN" using dr(1) a(2) by auto
  note i = holds_input [OF Cons.prems(1) a(1,5,6) st c1(1)]
  have d1: "drained c1" using dr(1) c1(2-5) by (simp add: drained_def)
  from Cons.IH [OF i(2) d1 c1(6) ts(3)] c1(7,8) i(1)
  show ?case by (auto simp: sent_def split: option.split)
qed

section \<open>The message\<close>

lemma sent_as_acks: "list_all2 (sent_as r) ts segs \<Longrightarrow> \<forall>x \<in> set segs. seg_ack x = Some r"
  by (induction rule: list_all2_induct) (simp_all add: sent_as_def)

lemma ack_tracked:
  assumes "sent_as r t s" "acks_segment s a" "seg_dst_port s = key_remote_port key" "seg_src_port s = key_local_port key"
  shows "confirms key t a"
  using assms by (simp add: confirms_def acks_segment_def sent_as_def trk_end_seq_def)

lemma row_tracked:
  assumes "list_all2 (sent_as r) ts segs" "list_all2 acks_segment segs acks"
    and "\<forall>x \<in> set segs. seg_dst_port x = key_remote_port key \<and> seg_src_port x = key_local_port key"
  shows "list_all2 (confirms key) ts acks"
  using assms ack_tracked [of r _ _ _ key] unfolding list_all2_conv_all_nth by (metis nth_mem)

text \<open>What a write of one side of an idle connection queues, as its peer will see it.\<close>

definition addressed_from :: "'p connection_key \<Rightarrow> u32 \<Rightarrow> segment \<Rightarrow> bool" where
  "addressed_from key n x \<longleftrightarrow> good_segment x \<and> seg_src_port x = key_local_port key \<and> seg_dst_port x = key_remote_port key \<and>
     seg_ack x = Some n"

lemma write_queues:
  assumes h: "holds i c key (token, s)" and c: "state c = Established" "idle c" "rto_recovery_until c = None"
    and len: "length bs \<le> send_window c" "length bs \<le> send_buffer (config s)"
      "accepted_payload_bytes (send_progress c) + length bs \<le> u128_max"
  obtains segs c' s' where
    "write_with_marker i bs now s = Some (Inr (length bs, progress_marker i (send_progress c')), s')"
    "outbound s' = outbound s @ map (packet (key_peer key)) segs" "holds i c' key (token, s')"
    "in_row (send_nxt c) segs (send_nxt c')" "payloads segs = bs" "\<forall>x \<in> set segs. addressed_from key (recv_nxt c) x"
    "drained c'" "list_all2 (sent_as (recv_nxt c)) (unacked c') segs"
proof -
  have inv: "conn_inv (config s) c" using holds_conn [OF h] by simp
  have inv_s: "stack_inv {} (token, s)" and get: "get_conn i s = Some c" and key: "conn_key c = key"
    using h by (simp_all add: holds_def)
  have w: "writable c" using c by (simp add: writable_def idle_def)
  have buf: "buffered_bytes c = 0" using c by (simp add: buffered_bytes_def idle_def)
  then have k: "write_room bs (config s) c = length bs" using len(2) by (simp add: write_room_def)
  obtain segs c' where wr: "conn_write bs now (config s) c = Some (Inr (length bs, segs), c')" "identity c' = identity c"
    using conn_write_effect [OF inv w, of bs now] k len(3) by auto
  note row = write_row [OF inv wr(1)]
  have ts: "list_all2 (sent_as (recv_nxt c)) (unacked c') segs"
    using row(5) c by (auto simp: idle_def)
  have all: "payloads segs @ send_queue c' = bs" using row(2) c by (simp add: idle_def)
  then have q: "send_queue c' = []" using row(7) len(1) by auto
  let ?s = "sent c segs (put_conn i c' s)"
  have out: "\<forall>x \<in> set segs. sends c x"
    using talks_conn_write [OF stack_inv_conn(4) [OF inv_s get] wr(1)] by (simp add: talks_def)
  have e: "emit i segs (put_conn i c' s) = (Inr (), ?s)"
    by (rule stored(1) [OF inv_s get step_write [OF wr(1)] out])
  have wm: "write_with_marker i bs now s = Some (Inr (length bs, progress_marker i (send_progress c')), ?s)"
    using get wr(1) e by (simp add: write_with_marker_def)
  have held: "holds i c' key (token, ?s)"
    using write_effect [OF inv_s wm] conn_key_identity [OF wr(2)] key by (simp add: holds_def)
  have ports: "local_port c = key_local_port key" "remote_port c = key_remote_port key" "peer c = key_peer key"
    using key by (auto simp: conn_key_def)
  have segs: "\<forall>x \<in> set segs. addressed_from key (recv_nxt c) x"
    using out sent_as_acks [OF ts] by (simp add: sends_def ports addressed_from_def)
  have "drained c'" using row(8-10) c q by (simp add: idle_def drained_def)
  moreover have "outbound ?s = outbound s @ map (packet (key_peer key)) segs" using ports(3) by (simp add: sent_def)
  moreover have "payloads segs = bs" using all q by simp
  ultimately show thesis using that wm held row(1) segs ts by blast
qed

text \<open>The marker of a write once everything is acknowledged.\<close>

lemma released_acked:
  assumes "holds i c key (token, s)" "unacked c = []" "drained c"
    "accepted_payload_bytes (send_progress c) = accepted_payload_bytes p" "connection_token (send_progress c) = connection_token p"
  shows "marker_status (progress_marker i p) s = Acked"
proof -
  have "progress_inv c" using holds_conn [OF assms(1)] conn_inv_progress by blast
  then show ?thesis using assms
    by (simp add: marker_status_def holds_def progress_status_def progress_marker_def progress_inv_def pending_def drained_def)
qed

lemma read_all:
  assumes "holds j d key (token, s)" "recv_queue d = bs"
  shows "\<exists>s'. stack_read j (length bs) now s = (Inr bs, s')"
proof -
  obtain out s' rest where "stack_read j (length bs) now s = (Inr out, s')" "out @ rest = bs" "length out = length bs"
    using stack_read_effect(3) [of "{}" token s j d "length bs" now] assms by (auto simp: holds_def)
  then show ?thesis by (metis append_eq_conv_conj take_all_iff order_refl)
qed

text \<open>
  C9: A message over a network that delivers. Two stacks hold the two ends of an idle established
  connection in step. A write of at most what the window and the buffer allow is accepted whole; the
  datagrams it queues, handed in order to the other stack, leave exactly these bytes to be read there;
  and the datagrams that stack answers with, handed back, turn the marker of the write to
  \<open>Acked\<close>. Whatever else the two stacks serve stays out of it.
\<close>

theorem message_delivered:
  assumes "stack_reach (ta, sa)" "get_conn i sa = Some c"
      "conn_key c = \<lparr>key_peer = q, key_local_port = lport, key_remote_port = rport\<rparr>"
    and "stack_reach (tb, sb)" "get_conn j sb = Some d"
      "conn_key d = \<lparr>key_peer = p, key_local_port = rport, key_remote_port = lport\<rparr>"
    and "in_step c d" "recv_queue d = []"
    and "length bs \<le> send_window c" "length bs \<le> send_buffer (config sa)"
      "accepted_payload_bytes (send_progress c) + length bs \<le> u128_max"
  shows "\<exists>m sa1 wire sb1 answers sa2 sb2.
    write_with_marker i bs t0 sa = Some (Inr (length bs, m), sa1) \<and>
    outbound sa1 = outbound sa @ map (\<lambda>b. \<lparr>out_peer = q, out_bytes = b\<rparr>) wire \<and>
    inputs p wire t1 (tb, sb) = Some (tb, sb1) \<and>
    outbound sb1 = outbound sb @ map (\<lambda>b. \<lparr>out_peer = p, out_bytes = b\<rparr>) answers \<and>
    stack_read j (length bs) t2 sb1 = (Inr bs, sb2) \<and>
    inputs q answers t3 (ta, sa1) = Some (ta, sa2) \<and> marker_status m sa2 = Acked"
proof -
  have c: "state c = Established" "idle c" "rto_recovery_until c = None" and d: "receives_data d" "idle d"
    and in_order: "recv_nxt d = send_nxt c" "recv_nxt c = send_nxt d" and wc: "remote_window c \<le> available_window d"
    using assms(7) by (simp_all add: in_step_def receives_data_def)
  let ?ka = "\<lparr>key_peer = q, key_local_port = lport, key_remote_port = rport\<rparr>"
  let ?kb = "\<lparr>key_peer = p, key_local_port = rport, key_remote_port = lport\<rparr>"
  have ha: "holds i c ?ka (ta, sa)" and hb: "holds j d ?kb (tb, sb)"
    using stack.inv_reach [OF assms(1)] stack.inv_reach [OF assms(4)] assms(2) assms(3) assms(5) assms(6) by (simp_all add: holds_def)
  obtain segs c' sa1 where w: "write_with_marker i bs t0 sa = Some (Inr (length bs, progress_marker i (send_progress c')), sa1)"
    "outbound sa1 = outbound sa @ map (packet (key_peer ?ka)) segs" "holds i c' ?ka (ta, sa1)"
    "in_row (send_nxt c) segs (send_nxt c')" "payloads segs = bs" "\<forall>x \<in> set segs. addressed_from ?ka (recv_nxt c) x"
    "drained c'" "list_all2 (sent_as (recv_nxt c)) (unacked c') segs"
    by (rule write_queues [OF ha c assms(9,10,11)])
  have segs: "\<forall>x \<in> set segs. good_segment x \<and> seg_dst_port x = key_local_port ?kb \<and> seg_src_port x = key_remote_port ?kb \<and>
      seg_ack x = Some (send_nxt d)"
    using w(6) by (simp add: addressed_from_def in_order)
  have "length (payloads segs) \<le> available_window d"
    using w(5) assms(9) wc by (simp add: send_window_def)
  then obtain acks sb1 d' where arr: "inputs p (map wire_bytes segs) t1 (tb, sb) = Some (tb, sb1)"
    "holds j d' ?kb (tb, sb1)" "list_all2 acks_segment segs acks" "outbound sb1 = outbound sb @ map (packet p) acks"
    "recv_queue d' = bs"
    using row_arrives [OF hb d _ segs, of "send_nxt c'" t1] w(4,5) in_order(1) assms(8) by auto
  have "\<forall>x \<in> set segs. seg_dst_port x = key_remote_port ?ka \<and> seg_src_port x = key_local_port ?ka" using segs by simp
  from row_tracked [OF w(8) arr(3) this] acks_release [OF w(3,7), of "unacked c'" "[]" acks t3]
  obtain sa2 c2 where bk: "inputs q (map wire_bytes acks) t3 (ta, sa1) = Some (ta, sa2)"
    "holds i c2 ?ka (ta, sa2)" "drained c2" "unacked c2 = []"
    "accepted_payload_bytes (send_progress c2) = accepted_payload_bytes (send_progress c')"
    "connection_token (send_progress c2) = connection_token (send_progress c')"
    by auto
  note acked = released_acked [OF bk(2,4,3,5,6)]
  obtain sb2 where rd: "stack_read j (length bs) t2 sb1 = (Inr bs, sb2)" using read_all [OF arr(2,5)] by blast
  have "outbound sa1 = outbound sa @ map (\<lambda>b. \<lparr>out_peer = q, out_bytes = b\<rparr>) (map wire_bytes segs)"
    "outbound sb1 = outbound sb @ map (\<lambda>b. \<lparr>out_peer = p, out_bytes = b\<rparr>) (map wire_bytes acks)"
    using w(2) arr(4) by (simp_all add: packet_def comp_def)
  with w(1) arr(1) bk(1) acked rd show ?thesis by blast
qed

lemma idle_window: "conn_inv cfg c \<Longrightarrow> idle c \<Longrightarrow> 0 < remote_window c \<Longrightarrow> 0 < send_window c"
  using idle_una [of cfg c] by (auto simp: send_window_def reno_window_def conn_inv_def phase_inv_def param_inv_def)

text \<open>Two fresh stacks after a handshake, of which the peers are any \<open>p\<close> and \<open>q\<close>.\<close>

lemma example_session:
  fixes p q :: 'p
  obtains sa sb :: "'p stack" and j c d where
    "stack_reach (2, sa)" "get_conn 1 sa = Some c" "conn_key c = \<lparr>key_peer = q, key_local_port = 50000, key_remote_port = 80\<rparr>"
    "stack_reach (2, sb)" "get_conn j sb = Some d" "conn_key d = \<lparr>key_peer = p, key_local_port = 80, key_remote_port = 50000\<rparr>"
    "in_step c d" "recv_queue d = []" "0 < remote_window c" "0 < remote_window d"
    "1 \<le> send_window c" "1 \<le> send_buffer (config sa)" "accepted_payload_bytes (send_progress c) = 0"
proof -
  have b: "80 \<in> listeners (port_80_stack :: 'p stack)" "ensure_connection_capacity p (port_80_stack :: 'p stack) = Inr ()"
    "lookup (port_80_stack :: 'p stack) \<lparr>key_peer = p, key_local_port = 80, key_remote_port = 50000\<rparr> = None"
    by (simp_all add: ensure_connection_capacity_def peer_connections_def config_default_def u64_max_def)
  have token: "(1 :: nat) < u64_max" by (simp add: u64_max_def)
  obtain m1 m2 m3 j sb1 sa2 sb2 c d where h:
    "input p m1 10 (1, port_80_stack) = Some (Inr (), (1 + 1, sb1))"
    "input q m2 20 (2, sent (caller q) [example_syn] (inserted (caller q) fresh_stack)) = Some (Inr (), (2, sa2))"
    "input p m3 30 (1 + 1, sb1) = Some (Inr (), (1 + 1, sb2))"
    "get_conn 1 sa2 = Some c" "get_conn j sb2 = Some d"
    "conn_key c = \<lparr>key_peer = q, key_local_port = 50000, key_remote_port = 80\<rparr>"
    "conn_key d = \<lparr>key_peer = p, key_local_port = 80, key_remote_port = 50000\<rparr>"
    "in_step c d" "recv_queue d = []" "accepted_payload_bytes (send_progress c) = 0"
    "remote_window c = receive_buffer (config (port_80_stack :: 'p stack))"
    "remote_window d = receive_buffer (config (fresh_stack :: 'p stack))"
    by (rule stacks_handshake [OF example_stack_reach listen_stack_reach token run_dials [of q] b, of 10 20 30]) blast
  have ra: "stack_reach (2, sa2)"
    by (rule reach_step [OF reach_step [OF example_stack_reach do_connect_from [OF run_dials [of q]]] do_input [OF h(2)]])
  have rb: "stack_reach (2, sb2)"
    using reach_step [OF reach_step [OF listen_stack_reach do_input [OF h(1)]] do_input [OF h(3)]]
    unfolding one_add_one .
  have ha: "holds 1 c \<lparr>key_peer = q, key_local_port = 50000, key_remote_port = 80\<rparr> (2, sa2)"
    using stack.inv_reach [OF ra] h(4,6) by (simp add: holds_def)
  have w: "0 < remote_window c" "0 < remote_window d" using h(11,12) by (simp_all add: config_default_def u16_max_def)
  then have l1: "1 \<le> send_window c"
    using idle_window holds_conn [OF ha] h(8) by (fastforce simp: in_step_def Suc_le_eq)
  have l2: "1 \<le> send_buffer (config sa2)"
    using holds_conn [OF ha] by (simp add: valid_config_def Suc_le_eq)
  show thesis by (rule that [OF ra h(4,6) rb h(5,7,8,9) w l1 l2 h(10)])
qed

theorem message_delivered_witness:
  "\<exists>(sa :: nat stack) (sb :: nat stack) m sa1 wire sb1 answers sa2 sb2 j.
    write_with_marker 1 [42] 40 sa = Some (Inr (1, m), sa1) \<and> inputs 3 wire 50 (2, sb) = Some (2, sb1) \<and>
    stack_read j 1 60 sb1 = (Inr [42], sb2) \<and> inputs 7 answers 70 (2, sa1) = Some (2, sa2) \<and> marker_status m sa2 = Acked"
proof -
  obtain sa sb :: "nat stack" and j c d where x:
    "stack_reach (2, sa)" "get_conn 1 sa = Some c" "conn_key c = \<lparr>key_peer = 7, key_local_port = 50000, key_remote_port = 80\<rparr>"
    "stack_reach (2, sb)" "get_conn j sb = Some d" "conn_key d = \<lparr>key_peer = 3, key_local_port = 80, key_remote_port = 50000\<rparr>"
    "in_step c d" "recv_queue d = []" "1 \<le> send_window c" "1 \<le> send_buffer (config sa)"
    "accepted_payload_bytes (send_progress c) = 0"
    by (rule example_session [of 7 3])
  have one: "length [42 :: u8] = 1" by simp
  have l: "length [42 :: u8] \<le> send_window c" "length [42 :: u8] \<le> send_buffer (config sa)"
    "accepted_payload_bytes (send_progress c) + length [42 :: u8] \<le> u128_max"
    using x(9-11) by (simp_all add: u128_max_def)
  from message_delivered [OF x(1-8) l, of 40 50 60 70]
  show ?thesis unfolding one by (elim exE conjE) (intro exI conjI)
qed

end
