(* ===== verification/Display.thy ===== *)
theory Display
  imports Types
begin

text \<open>
  The texts of the errors: the \<open>Display\<close> implementations of \<open>wire.rs\<close> and \<open>types.rs\<close>, and the derived
  \<open>Debug\<close> of \<open>State\<close> that one of them uses. A Rust string is the list of its bytes.
\<close>

section \<open>Numbers\<close>

definition digit_char :: "nat \<Rightarrow> char" where
  "digit_char n = (if n < 10 then char_of (48 + n) else char_of (87 + n))"

fun in_base :: "nat \<Rightarrow> nat \<Rightarrow> string" where
  "in_base b n = (if n < b \<or> b \<le> 1 then [digit_char n] else in_base b (n div b) @ [digit_char (n mod b)])"

declare in_base.simps [simp del]

section \<open>Errors\<close>

definition wire_error_text :: "wire_error \<Rightarrow> string" where
  "wire_error_text e =
     (case e of
        Truncated \<Rightarrow> ''truncated TCP/FIPS segment''
      | InvalidHeaderLength \<Rightarrow> ''invalid TCP/FIPS header length''
      | NonZeroChecksum \<Rightarrow> ''TCP/FIPS checksum must be zero''
      | UrgentUnsupported \<Rightarrow> ''TCP/FIPS urgent data is unsupported''
      | UnsupportedFlags bits \<Rightarrow> ''unsupported TCP flags: 0x'' @ in_base 16 (unat bits)
      | WireZeroPort \<Rightarrow> ''TCP/FIPS ports must be non-zero''
      | AckFlagMismatch \<Rightarrow> ''ACK flag and ACK number disagree''
      | HeaderTooLong \<Rightarrow> ''TCP/FIPS header exceeds 60 bytes''
      | OptionTooLong \<Rightarrow> ''TCP option exceeds 255 bytes''
      | MalformedOption \<Rightarrow> ''malformed TCP option'')"

definition state_debug :: "tcp_state \<Rightarrow> string" where
  "state_debug st =
     (case st of
        SynSent \<Rightarrow> ''SynSent''
      | SynReceived \<Rightarrow> ''SynReceived''
      | Established \<Rightarrow> ''Established''
      | FinWait1 \<Rightarrow> ''FinWait1''
      | FinWait2 \<Rightarrow> ''FinWait2''
      | CloseWait \<Rightarrow> ''CloseWait''
      | Closing \<Rightarrow> ''Closing''
      | LastAck \<Rightarrow> ''LastAck''
      | TimeWait \<Rightarrow> ''TimeWait'')"

definition stack_error_text :: "stack_error \<Rightarrow> string" where
  "stack_error_text e =
     (case e of
        Wire w \<Rightarrow> wire_error_text w
      | InvalidConfig message \<Rightarrow> ''invalid config: '' @ message
      | ZeroPort \<Rightarrow> ''TCP/FIPS ports must be non-zero''
      | AlreadyListening port \<Rightarrow> ''already listening on port '' @ in_base 10 (unat port)
      | ConnectionExists \<Rightarrow> ''connection already exists''
      | ConnectionLimit \<Rightarrow> ''connection limit reached''
      | NoEphemeralPort \<Rightarrow> ''no ephemeral port available''
      | UnknownConnection \<Rightarrow> ''unknown connection''
      | InvalidState st \<Rightarrow> ''operation invalid in '' @ state_debug st)"

end
