(* ===== verification/Endpoint.thy ===== *)
theory Endpoint
  imports Stack Display
begin

text \<open>
  The endpoint adapter \<open>FipsTcpEndpoint\<close> of \<open>rust/fips-tcp-endpoint/src/lib.rs\<close> with \<open>PeerKey\<close> of
  \<open>peer.rs\<close>. The crate \<open>fips_core\<close> is not part of the repository: what the adapter uses of it, the
  operations on peer identities and on the service socket, is the record \<open>fips_core\<close>, an argument of
  every definition. \<open>'w\<close> is the state of everything outside the adapter (the FIPS endpoint, its
  receiver, the clock, the caller's admission closure); an operation that awaits takes it and returns
  it updated. An operation returns \<open>None\<close> where the code panics, as in theory \<open>Stack\<close>. The
  \<open>debug_assert\<close>s are not evaluated, as in a release build.
\<close>

section \<open>The external crate\<close>

record 'i datagram =
  source_peer :: 'i
  destination_port :: u16
  dg_data :: bytes

record ('i, 'f, 'x, 'w, 'fe) fips_core =
  pubkey_full :: "'i \<Rightarrow> 'f"
  x_only_pubkey :: "'i \<Rightarrow> 'x"
  serialized_prefix :: "'f \<Rightarrow> u8"
  negate_pubkey :: "'f \<Rightarrow> 'f"
  from_pubkey_full :: "'f \<Rightarrow> 'i"
  send_datagram :: "'i \<Rightarrow> u16 \<Rightarrow> u16 \<Rightarrow> bytes \<Rightarrow> 'w \<Rightarrow> ('fe + unit) \<times> 'w"
  recv_batch :: "nat \<Rightarrow> 'w \<Rightarrow> 'i datagram list option \<times> 'w"

section \<open>Peer keys\<close>

datatype 'i peer_key = PeerKey (key_identity: 'i)

definition peer_key_from :: "('i, 'f, 'x, 'w, 'fe) fips_core \<Rightarrow> 'i \<Rightarrow> 'i peer_key" where
  "peer_key_from F p =
     (let full = pubkey_full F p;
          p' = (if serialized_prefix F full = 3 then from_pubkey_full F (negate_pubkey F full) else p)
      in PeerKey p')"

definition peer_key_eq :: "('i, 'f, 'x, 'w, 'fe) fips_core \<Rightarrow> 'i peer_key \<Rightarrow> 'i peer_key \<Rightarrow> bool" where
  "peer_key_eq F a b \<longleftrightarrow> x_only_pubkey F (key_identity a) = x_only_pubkey F (key_identity b)"

section \<open>State and errors\<close>

text \<open>
  The external \<open>IdentityError\<close>, of which nothing is known; no operation of the adapter makes one.
\<close>

typedecl identity_error

datatype 'fe adapter_error =
    Closed
  | InvalidServicePort
  | Fips 'fe
  | Identity identity_error
  | Tcp stack_error

datatype ('fe, 'le) capability_bind_error =
    Adapter "'fe adapter_error"
  | Registration 'le

text \<open>The texts of the errors, with those of the external errors as arguments.\<close>

definition adapter_error_text ::
  "('fe \<Rightarrow> string) \<Rightarrow> (identity_error \<Rightarrow> string) \<Rightarrow> 'fe adapter_error \<Rightarrow> string" where
  "adapter_error_text fips_text identity_text e =
     (case e of
        Closed \<Rightarrow> ''FIPS endpoint service receiver closed''
      | InvalidServicePort \<Rightarrow> ''FIPS service port must be non-zero''
      | Fips error \<Rightarrow> ''FIPS endpoint error: '' @ fips_text error
      | Identity error \<Rightarrow> ''FIPS identity error: '' @ identity_text error
      | Tcp error \<Rightarrow> ''TCP/FIPS error: '' @ stack_error_text error)"

definition capability_bind_error_text ::
  "('fe \<Rightarrow> string) \<Rightarrow> (identity_error \<Rightarrow> string) \<Rightarrow> ('le \<Rightarrow> string) \<Rightarrow> ('fe, 'le) capability_bind_error \<Rightarrow> string" where
  "capability_bind_error_text fips_text identity_text registration_text e =
     (case e of
        Adapter error \<Rightarrow> adapter_error_text fips_text identity_text error
      | Registration error \<Rightarrow> registration_text error)"

record receive_report =
  datagrams :: nat
  processed :: nat
  malformed :: nat
  connection_limited :: nat
  other_errors :: nat

definition rejected :: "receive_report \<Rightarrow> nat" where
  "rejected r = malformed r + connection_limited r + other_errors r"

record 'i fips_tcp_endpoint =
  fsp_service_port :: u16
  endpoint_stack :: "'i peer_key stack"
  receive_batch :: "'i datagram list"

text \<open>The token counter of the process, the adapter and the outside.\<close>

type_synonym ('i, 'w) host = "nat \<times> 'i fips_tcp_endpoint \<times> 'w"

text \<open>A call of the stack, with its error converted as \<open>?\<close> does.\<close>

definition on_stack ::
  "(nat \<times> 'i peer_key stack \<Rightarrow> (stack_error, 'a, nat \<times> 'i peer_key stack) call) \<Rightarrow> ('i, 'w) host
     \<Rightarrow> ('fe adapter_error, 'a, ('i, 'w) host) call" where
  "on_stack f h =
     (case h of (token, a, w) \<Rightarrow>
      (case f (token, endpoint_stack a) of
         None \<Rightarrow> None
       | Some (r, (token', s)) \<Rightarrow> Some (map_sum Tcp id r, (token', a\<lparr>endpoint_stack := s\<rparr>, w))))"

definition tokenless :: "('s \<Rightarrow> ('e, 'a, 's) call) \<Rightarrow> nat \<times> 's \<Rightarrow> ('e, 'a, nat \<times> 's) call" where
  "tokenless f ts =
     (case ts of (token, s) \<Rightarrow>
      (case f s of None \<Rightarrow> None | Some (r, s') \<Rightarrow> Some (r, (token, s'))))"

section \<open>Flushing\<close>

fun send_all ::
  "('i, 'f, 'x, 'w, 'fe) fips_core \<Rightarrow> u16 \<Rightarrow> 'i peer_key outbound list \<Rightarrow> 'w
     \<Rightarrow> ('fe adapter_error + unit) \<times> 'w" where
  "send_all F port [] w = (Inr (), w)"
| "send_all F port (x # xs) w =
     (case send_datagram F (key_identity (out_peer x)) port port (out_bytes x) w of
        (Inl e, w') \<Rightarrow> (Inl (Fips e), w')
      | (Inr u, w') \<Rightarrow> send_all F port xs w')"

definition flush ::
  "('i, 'f, 'x, 'w, 'fe) fips_core \<Rightarrow> ('i, 'w) host \<Rightarrow> ('fe adapter_error, unit, ('i, 'w) host) call" where
  "flush F h =
     (case h of (token, a, w) \<Rightarrow>
      (case drain_outbound (endpoint_stack a) of
        (packets, s) \<Rightarrow>
          (case send_all F (fsp_service_port a) packets w of
             (r, w') \<Rightarrow> Some (r, (token, a\<lparr>endpoint_stack := s\<rparr>, w')))))"

section \<open>Binding\<close>

definition listening_stack ::
  "u16 \<Rightarrow> config \<Rightarrow> u64 \<Rightarrow> ('fe adapter_error + 'i peer_key stack) option" where
  "listening_stack port cfg isn_seed =
     (if port = 0 then Some (Inl InvalidServicePort)
      else (case stack_new cfg isn_seed of
          None \<Rightarrow> None
        | Some s \<Rightarrow>
            (case listen port s of
               (Inl e, s1) \<Rightarrow> Some (Inl (Tcp e))
             | (Inr u, s1) \<Rightarrow> Some (Inr s1))))"

definition bind_endpoint ::
  "(u16 \<Rightarrow> 'w \<Rightarrow> ('fe + unit) \<times> 'w) \<Rightarrow> u16 \<Rightarrow> config \<Rightarrow> u64 \<Rightarrow> 'w
     \<Rightarrow> ('fe adapter_error, 'i fips_tcp_endpoint, 'w) call" where
  "bind_endpoint register port cfg isn_seed w =
     (case listening_stack port cfg isn_seed of
        None \<Rightarrow> None
      | Some (Inl e) \<Rightarrow> Some (Inl e, w)
      | Some (Inr s) \<Rightarrow>
          (case register port w of
             (Inl e, w') \<Rightarrow> Some (Inl (Fips e), w')
           | (Inr u, w') \<Rightarrow>
               Some (Inr \<lparr>fsp_service_port = port, endpoint_stack = s, receive_batch = []\<rparr>, w')))"

definition bind_with_capability ::
  "('c \<Rightarrow> u16 option) \<Rightarrow> 'le \<Rightarrow> ('c \<Rightarrow> 'w \<Rightarrow> ('le + unit) \<times> 'w) \<Rightarrow> 'c \<Rightarrow> config \<Rightarrow> u64 \<Rightarrow> 'w
     \<Rightarrow> (('fe, 'le) capability_bind_error, 'i fips_tcp_endpoint, 'w) call" where
  "bind_with_capability fsp_port missing_port register capability cfg isn_seed w =
     (case fsp_port capability of
        None \<Rightarrow> Some (Inl (Registration missing_port), w)
      | Some port \<Rightarrow>
          (case listening_stack port cfg isn_seed of
             None \<Rightarrow> None
           | Some (Inl e) \<Rightarrow> Some (Inl (Adapter e), w)
           | Some (Inr s) \<Rightarrow>
               (case register capability w of
                  (Inl e, w') \<Rightarrow> Some (Inl (Registration e), w')
                | (Inr u, w') \<Rightarrow>
                    Some (Inr \<lparr>fsp_service_port = port, endpoint_stack = s, receive_batch = []\<rparr>, w'))))"

section \<open>Streams\<close>

definition endpoint_accept :: "('i, 'w) host \<Rightarrow> connection_id option \<times> ('i, 'w) host" where
  "endpoint_accept h =
     (case h of (token, a, w) \<Rightarrow>
      (case accept (fsp_service_port a) (endpoint_stack a) of
         (found, s) \<Rightarrow> (found, (token, a\<lparr>endpoint_stack := s\<rparr>, w))))"

definition endpoint_set_connection_reservation ::
  "nat \<Rightarrow> ('i \<Rightarrow> bool) \<Rightarrow> ('i, 'w) host \<Rightarrow> ('fe adapter_error, unit, ('i, 'w) host) call" where
  "endpoint_set_connection_reservation slots eligible h =
     on_stack (tokenless (\<lambda>s. Some (set_connection_reservation slots (eligible \<circ> key_identity) s))) h"

definition endpoint_connect ::
  "('i, 'f, 'x, 'w, 'fe) fips_core \<Rightarrow> 'i \<Rightarrow> nat \<Rightarrow> ('i, 'w) host
     \<Rightarrow> ('fe adapter_error, connection_id, ('i, 'w) host) call" where
  "endpoint_connect F p now_ms h =
     call_bind (on_stack (connect (peer_key_from F p) (fsp_service_port (fst (snd h))) now_ms) h) (\<lambda>cid h1.
       case flush F h1 of
         None \<Rightarrow> None
       | Some (Inl e, h2) \<Rightarrow>
           (case on_stack (tokenless (stack_close cid now_ms)) h2 of
              None \<Rightarrow> None
            | Some (ignored :: 'fe adapter_error + unit, h3) \<Rightarrow> Some (Inl e, h3))
       | Some (Inr u, h2) \<Rightarrow> Some (Inr cid, h2))"

text \<open>Most calls are a call of the stack followed by a flush whose error hides the result.\<close>

definition then_flush ::
  "('i, 'f, 'x, 'w, 'fe) fips_core \<Rightarrow> ('fe adapter_error, 'a, ('i, 'w) host) call
     \<Rightarrow> ('fe adapter_error, 'a, ('i, 'w) host) call" where
  "then_flush F m = call_bind m (\<lambda>x h. call_bind (flush F h) (\<lambda>u h1. Some (Inr x, h1)))"

definition endpoint_write ::
  "('i, 'f, 'x, 'w, 'fe) fips_core \<Rightarrow> connection_id \<Rightarrow> bytes \<Rightarrow> nat \<Rightarrow> ('i, 'w) host
     \<Rightarrow> ('fe adapter_error, nat, ('i, 'w) host) call" where
  "endpoint_write F cid bs now_ms h = then_flush F (on_stack (tokenless (stack_write cid bs now_ms)) h)"

definition endpoint_write_with_marker ::
  "('i, 'f, 'x, 'w, 'fe) fips_core \<Rightarrow> connection_id \<Rightarrow> bytes \<Rightarrow> nat \<Rightarrow> ('i, 'w) host
     \<Rightarrow> ('fe adapter_error, nat \<times> send_marker, ('i, 'w) host) call" where
  "endpoint_write_with_marker F cid bs now_ms h =
     then_flush F (on_stack (tokenless (write_with_marker cid bs now_ms)) h)"

definition endpoint_marker_status :: "send_marker \<Rightarrow> ('i, 'w) host \<Rightarrow> marker_status" where
  "endpoint_marker_status m h = Stack.marker_status m (endpoint_stack (fst (snd h)))"

definition endpoint_read ::
  "('i, 'f, 'x, 'w, 'fe) fips_core \<Rightarrow> connection_id \<Rightarrow> nat \<Rightarrow> nat \<Rightarrow> ('i, 'w) host
     \<Rightarrow> ('fe adapter_error, bytes, ('i, 'w) host) call" where
  "endpoint_read F cid maximum now_ms h =
     then_flush F (on_stack (tokenless (\<lambda>s. Some (stack_read cid maximum now_ms s))) h)"

definition endpoint_close ::
  "('i, 'f, 'x, 'w, 'fe) fips_core \<Rightarrow> connection_id \<Rightarrow> nat \<Rightarrow> ('i, 'w) host
     \<Rightarrow> ('fe adapter_error, unit, ('i, 'w) host) call" where
  "endpoint_close F cid now_ms h = then_flush F (on_stack (tokenless (stack_close cid now_ms)) h)"

definition endpoint_abort ::
  "('i, 'f, 'x, 'w, 'fe) fips_core \<Rightarrow> connection_id \<Rightarrow> ('i, 'w) host
     \<Rightarrow> ('fe adapter_error, unit, ('i, 'w) host) call" where
  "endpoint_abort F cid h = then_flush F (on_stack (tokenless (\<lambda>s. Some (abort cid s))) h)"

definition endpoint_abort_peer ::
  "('i, 'f, 'x, 'w, 'fe) fips_core \<Rightarrow> 'i \<Rightarrow> ('i, 'w) host
     \<Rightarrow> ('fe adapter_error, nat, ('i, 'w) host) call" where
  "endpoint_abort_peer F p h =
     then_flush F (on_stack (tokenless (\<lambda>s. Some (abort_peer (peer_key_from F p) s))) h)"

definition endpoint_next_poll_at :: "nat \<Rightarrow> ('i, 'w) host \<Rightarrow> nat option" where
  "endpoint_next_poll_at now_ms h = next_poll_at now_ms (endpoint_stack (fst (snd h)))"

definition endpoint_poll ::
  "('i, 'f, 'x, 'w, 'fe) fips_core \<Rightarrow> nat \<Rightarrow> ('i, 'w) host
     \<Rightarrow> ('fe adapter_error, unit, ('i, 'w) host) call" where
  "endpoint_poll F now_ms h =
     then_flush F (on_stack (tokenless (\<lambda>s.
       case poll now_ms s of None \<Rightarrow> None | Some s' \<Rightarrow> Some (Inr (), s'))) h)"

section \<open>Receiving\<close>

definition wait_for_input ::
  "('i, 'f, 'x, 'w, 'fe) fips_core \<Rightarrow> ('i, 'w) host \<Rightarrow> ('fe adapter_error, unit, ('i, 'w) host) call" where
  "wait_for_input F h =
     (case h of (token, a, w) \<Rightarrow>
      if receive_batch a = []
      then (case recv_batch F 64 w of
          (None, w') \<Rightarrow> Some (Inl Closed, (token, a, w'))
        | (Some batch, w') \<Rightarrow> Some (Inr (), (token, a\<lparr>receive_batch := batch\<rparr>, w')))
      else Some (Inr (), h))"

definition count_result :: "stack_error + unit \<Rightarrow> receive_report \<Rightarrow> receive_report" where
  "count_result r report =
     (case r of
        Inr u \<Rightarrow> report\<lparr>processed := processed report + 1\<rparr>
      | Inl e \<Rightarrow>
          (case e of
             Wire w \<Rightarrow> report\<lparr>malformed := malformed report + 1\<rparr>
           | ConnectionLimit \<Rightarrow> report\<lparr>connection_limited := connection_limited report + 1\<rparr>
           | _ \<Rightarrow> report\<lparr>other_errors := other_errors report + 1\<rparr>))"

fun feed ::
  "('i, 'f, 'x, 'w, 'fe) fips_core \<Rightarrow> ('i \<Rightarrow> bytes \<Rightarrow> 'w \<Rightarrow> bool \<times> 'w) \<Rightarrow> nat \<Rightarrow> 'i datagram list
     \<Rightarrow> receive_report \<Rightarrow> ('i, 'w) host \<Rightarrow> (receive_report \<times> ('i, 'w) host) option" where
  "feed F admitted now_ms [] report h = Some (report, h)"
| "feed F admitted now_ms (d # ds) report (token, a, w) =
     (case admitted (source_peer d) (dg_data d) w of
        (ok, w1) \<Rightarrow>
          if \<not> ok
          then feed F admitted now_ms ds
            (report\<lparr>connection_limited := connection_limited report + 1\<rparr>) (token, a, w1)
          else (case input (peer_key_from F (source_peer d)) (dg_data d) now_ms (token, endpoint_stack a) of
              None \<Rightarrow> None
            | Some (r, (token', s)) \<Rightarrow>
                feed F admitted now_ms ds (count_result r report) (token', a\<lparr>endpoint_stack := s\<rparr>, w1)))"

definition receive_report_filtered_datagrams_with_clock ::
  "('i, 'f, 'x, 'w, 'fe) fips_core \<Rightarrow> ('w \<Rightarrow> nat) \<Rightarrow> ('i \<Rightarrow> bytes \<Rightarrow> 'w \<Rightarrow> bool \<times> 'w) \<Rightarrow> ('i, 'w) host
     \<Rightarrow> ('fe adapter_error, receive_report, ('i, 'w) host) call" where
  "receive_report_filtered_datagrams_with_clock F clock admitted h =
     call_bind (wait_for_input F h) (\<lambda>u h1.
       case h1 of (token, a, w) \<Rightarrow>
         let batch = receive_batch a;
             report = \<lparr>datagrams = length batch, processed = 0, malformed = 0,
               connection_limited = 0, other_errors = 0\<rparr>
         in (case feed F admitted (clock w) batch report (token, a\<lparr>receive_batch := []\<rparr>, w) of
               None \<Rightarrow> None
             | Some (report', h2) \<Rightarrow> call_bind (flush F h2) (\<lambda>v h3. Some (Inr report', h3))))"

definition receive_report_filtered_datagrams ::
  "('i, 'f, 'x, 'w, 'fe) fips_core \<Rightarrow> nat \<Rightarrow> ('i \<Rightarrow> bytes \<Rightarrow> 'w \<Rightarrow> bool \<times> 'w) \<Rightarrow> ('i, 'w) host
     \<Rightarrow> ('fe adapter_error, receive_report, ('i, 'w) host) call" where
  "receive_report_filtered_datagrams F now_ms admitted h =
     receive_report_filtered_datagrams_with_clock F (\<lambda>w. now_ms) admitted h"

definition receive_report_filtered ::
  "('i, 'f, 'x, 'w, 'fe) fips_core \<Rightarrow> nat \<Rightarrow> ('i \<Rightarrow> 'w \<Rightarrow> bool \<times> 'w) \<Rightarrow> ('i, 'w) host
     \<Rightarrow> ('fe adapter_error, receive_report, ('i, 'w) host) call" where
  "receive_report_filtered F now_ms admitted h =
     receive_report_filtered_datagrams F now_ms (\<lambda>p bs. admitted p) h"

definition endpoint_receive_report ::
  "('i, 'f, 'x, 'w, 'fe) fips_core \<Rightarrow> nat \<Rightarrow> ('i, 'w) host
     \<Rightarrow> ('fe adapter_error, receive_report, ('i, 'w) host) call" where
  "endpoint_receive_report F now_ms h = receive_report_filtered F now_ms (\<lambda>p w. (True, w)) h"

definition endpoint_receive ::
  "('i, 'f, 'x, 'w, 'fe) fips_core \<Rightarrow> nat \<Rightarrow> ('i, 'w) host
     \<Rightarrow> ('fe adapter_error, nat, ('i, 'w) host) call" where
  "endpoint_receive F now_ms h =
     call_bind (endpoint_receive_report F now_ms h) (\<lambda>report h1. Some (Inr (datagrams report), h1))"

section \<open>Queries\<close>

definition endpoint_state :: "connection_id \<Rightarrow> ('i, 'w) host \<Rightarrow> tcp_state option" where
  "endpoint_state cid h = stack_state cid (endpoint_stack (fst (snd h)))"

definition endpoint_is_read_closed :: "connection_id \<Rightarrow> ('i, 'w) host \<Rightarrow> bool" where
  "endpoint_is_read_closed cid h = is_read_closed cid (endpoint_stack (fst (snd h)))"

definition endpoint_peer :: "connection_id \<Rightarrow> ('i, 'w) host \<Rightarrow> 'i option" where
  "endpoint_peer cid h = map_option key_identity (stack_peer cid (endpoint_stack (fst (snd h))))"

definition endpoint_ports :: "connection_id \<Rightarrow> ('i, 'w) host \<Rightarrow> (u16 \<times> u16) option" where
  "endpoint_ports cid h = ports cid (endpoint_stack (fst (snd h)))"

end
