(* ===== verification/Endpoint_Props.thy ===== *)
theory Endpoint_Props
  imports Endpoint Stack_Calls
begin

text \<open>
  Properties of the endpoint adapter: every adapter call is a sequence of stack calls, so that what
  holds of every reachable stack holds below the adapter; binding; the rollback of a failed connect;
  the account of a received batch and its admission filter; what a failed flush does to a read; and
  the agreement of the peer keys with the equality the stack uses.
\<close>

section \<open>The stack below the adapter\<close>

definition inner :: "('i, 'w) host \<Rightarrow> nat \<times> 'i peer_key stack" where
  "inner h = (fst h, endpoint_stack (fst (snd h)))"

lemma inner_simps [simp]:
  "inner (token, a, w) = (token, endpoint_stack a)"
  by (simp add: inner_def)

lemma on_stack_cases:
  assumes "on_stack f h = Some (r, h')"
  obtains q ts where "f (inner h) = Some (q, ts)" "r = map_sum Tcp id q" "inner h' = ts"
    "fsp_service_port (fst (snd h')) = fsp_service_port (fst (snd h))"
    "receive_batch (fst (snd h')) = receive_batch (fst (snd h))" "snd (snd h') = snd (snd h)"
proof -
  obtain token a w where h: "h = (token, a, w)" by (metis surj_pair)
  show thesis
    using assms that by (auto simp: on_stack_def h split: option.splits prod.splits)
qed

lemma tokenless_Some:
  "tokenless f (token, s) = Some (r, ts) \<longleftrightarrow> (\<exists>t. f s = Some (r, t) \<and> ts = (token, t))"
  by (auto simp: tokenless_def split: option.splits)

lemma flush_cases:
  assumes "flush F h = Some (r, h')"
  shows "inner h' = (fst (inner h), snd (drain_outbound (snd (inner h))))"
    "send_all F (fsp_service_port (fst (snd h))) (outbound (snd (inner h))) (snd (snd h)) = (r, snd (snd h'))"
    "receive_batch (fst (snd h')) = receive_batch (fst (snd h))"
    "fsp_service_port (fst (snd h')) = fsp_service_port (fst (snd h))"
proof -
  obtain token a w where h: "h = (token, a, w)" by (metis surj_pair)
  show "inner h' = (fst (inner h), snd (drain_outbound (snd (inner h))))"
    "send_all F (fsp_service_port (fst (snd h))) (outbound (snd (inner h))) (snd (snd h)) = (r, snd (snd h'))"
    "receive_batch (fst (snd h')) = receive_batch (fst (snd h))"
    "fsp_service_port (fst (snd h')) = fsp_service_port (fst (snd h))"
    using assms by (auto simp: flush_def h drain_outbound_def split: prod.splits)
qed

lemma send_all_error: "send_all F port xs w = (Inl e, w') \<Longrightarrow> \<exists>x. e = Fips x"
  by (induction xs arbitrary: w) (auto split: prod.splits sum.splits)

lemma flush_total: "\<exists>r h'. flush F h = Some (r, h')"
  by (auto simp: flush_def split: prod.split)

lemma flush_step: "flush F h = Some (r, h') \<Longrightarrow> stack_step (inner h) (inner h')"
  using do_drain [of "snd (inner h)" _ _ "fst (inner h)"] by (simp add: flush_cases(1) drain_outbound_def)

lemma call_bind_cases:
  assumes "call_bind m k = Some (r, h')"
  obtains e where "m = Some (Inl e, h')" "r = Inl e"
    | x h1 where "m = Some (Inr x, h1)" "k x h1 = Some (r, h')"
  using assms by (auto simp: call_bind_def split: option.splits sum.splits prod.splits)

section \<open>Adapter calls as sequences of stack calls\<close>

abbreviation stack_steps :: "('i, 'w) host \<Rightarrow> ('i, 'w) host \<Rightarrow> bool" where
  "stack_steps h h' \<equiv> stack_step\<^sup>*\<^sup>* (inner h) (inner h')"

lemma on_stack_steps:
  assumes "on_stack f h = Some (r, h')"
    and "\<And>q ts. f (inner h) = Some (q, ts) \<Longrightarrow> stack_step (inner h) ts"
  shows "stack_steps h h'"
  using assms by (auto elim!: on_stack_cases)

lemma then_flush_steps:
  assumes "then_flush F m = Some (r, h')" and "\<And>q h1. m = Some (q, h1) \<Longrightarrow> stack_steps h h1"
  shows "stack_steps h h'"
  using assms(1) unfolding then_flush_def
proof (cases rule: call_bind_cases)
  case (1 e)
  then show ?thesis using assms(2) by simp
next
  case (2 x h1)
  from 2(2) have "stack_step (inner h1) (inner h')"
    by (cases rule: call_bind_cases) (auto dest: flush_step)
  with assms(2) [OF 2(1)] show ?thesis by (rule rtranclp.rtrancl_into_rtrancl)
qed

lemma feed_steps: "feed F admitted now ds report h = Some (report', h') \<Longrightarrow> stack_steps h h'"
proof (induction ds arbitrary: report h)
  case (Cons d ds)
  obtain token a w where h: "h = (token, a, w)" by (metis surj_pair)
  obtain ok w1 where ok: "admitted (source_peer d) (dg_data d) w = (ok, w1)" by force
  show ?case
  proof (cases ok)
    case False
    then show ?thesis using Cons.prems Cons.IH ok by (fastforce simp: h)
  next
    case True
    then obtain r token' s where i: "input (peer_key_from F (source_peer d)) (dg_data d) now (token, endpoint_stack a) =
        Some (r, (token', s))"
      "feed F admitted now ds (count_result r report) (token', a\<lparr>endpoint_stack := s\<rparr>, w1) = Some (report', h')"
      using Cons.prems ok by (auto simp: h split: option.splits)
    from Cons.IH [OF i(2)] do_input [OF i(1)] show ?thesis
      by (simp add: h converse_rtranclp_into_rtranclp)
  qed
qed simp

text \<open>Both ways to bind make such a host, as \<open>bind_exact\<close> shows.\<close>

inductive host_start :: "('i, 'f, 'x, 'w, 'fe) fips_core \<Rightarrow> ('i, 'w) host \<Rightarrow> bool"
  for F :: "('i, 'f, 'x, 'w, 'fe) fips_core" where
  start_bound: "listening_stack port cfg isn_seed = Some (Inr s :: 'fe adapter_error + 'i peer_key stack) \<Longrightarrow>
     config_typed cfg \<Longrightarrow> 1 \<le> token \<Longrightarrow> token \<le> u64_max \<Longrightarrow>
     host_start F (token, \<lparr>fsp_service_port = port, endpoint_stack = s, receive_batch = []\<rparr>, w)"

inductive host_step :: "('i, 'f, 'x, 'w, 'fe) fips_core \<Rightarrow> ('i, 'w) host \<Rightarrow> ('i, 'w) host \<Rightarrow> bool"
  for F :: "('i, 'f, 'x, 'w, 'fe) fips_core" where
  at_accept: "endpoint_accept h = (found, h') \<Longrightarrow> host_step F h h'"
| at_reserve: "endpoint_set_connection_reservation slots eligible h = Some (r1 :: 'fe adapter_error + unit, h') \<Longrightarrow>
     host_step F h h'"
| at_connect: "endpoint_connect F p now h = Some (r2, h') \<Longrightarrow> host_step F h h'"
| at_write: "endpoint_write F cid bs now h = Some (r3, h') \<Longrightarrow> host_step F h h'"
| at_write_marker: "endpoint_write_with_marker F cid bs now h = Some (r4, h') \<Longrightarrow> host_step F h h'"
| at_read: "endpoint_read F cid m now h = Some (r5, h') \<Longrightarrow> host_step F h h'"
| at_close: "endpoint_close F cid now h = Some (r1, h') \<Longrightarrow> host_step F h h'"
| at_abort: "endpoint_abort F cid h = Some (r1, h') \<Longrightarrow> host_step F h h'"
| at_abort_peer: "endpoint_abort_peer F p h = Some (r3, h') \<Longrightarrow> host_step F h h'"
| at_poll: "endpoint_poll F now h = Some (r1, h') \<Longrightarrow> host_step F h h'"
| at_wait: "wait_for_input F h = Some (r1, h') \<Longrightarrow> host_step F h h'"
| at_receive: "receive_report_filtered_datagrams_with_clock F clock admitted h = Some (r6, h') \<Longrightarrow> host_step F h h'"
| outside: "token \<le> token' \<Longrightarrow> token' \<le> u64_max \<Longrightarrow> host_step F (token, a, w) (token', a, w')"

inductive_cases host_stepE: "host_step F h h'"

abbreviation host_reach :: "('i, 'f, 'x, 'w, 'fe) fips_core \<Rightarrow> ('i, 'w) host \<Rightarrow> bool" where
  "host_reach F \<equiv> reach (host_start F) (host_step F)"

lemma listening_reach:
  assumes "listening_stack port cfg isn_seed = Some (Inr s)" "config_typed cfg" "1 \<le> token" "token \<le> u64_max"
  shows "stack_reach (token, s)"
proof -
  obtain s0 where s0: "stack_new cfg isn_seed = Some s0" "listen port s0 = (Inr (), s)"
    using assms(1) by (auto simp: listening_stack_def split: if_splits option.splits prod.splits sum.splits)
  then show ?thesis
    using assms(2-4) by (blast intro: reach_step reach_start start_new do_listen)
qed

lemma host_start_reach: "host_start F h \<Longrightarrow> stack_reach (inner h)"
  by (erule host_start.cases) (auto intro: listening_reach)

lemma tokenless_step:
  assumes "tokenless f ts = Some (q, ts')"
    and "\<And>token s t. f s = Some (q, t) \<Longrightarrow> stack_step (token, s) (token, t)"
  shows "stack_step ts ts'"
proof -
  obtain token s where ts: "ts = (token, s)" by force
  show ?thesis using assms by (auto simp: ts tokenless_Some)
qed

lemma wait_inner: "wait_for_input F h = Some (r, h') \<Longrightarrow> inner h' = inner h"
  by (auto simp: wait_for_input_def split: prod.splits if_splits option.splits)

lemma connect_steps:
  fixes F :: "('i, 'f, 'x, 'w, 'fe) fips_core"
  assumes "endpoint_connect F p now h = Some (r, h')"
  shows "stack_steps h h'"
  using assms unfolding endpoint_connect_def
proof (cases rule: call_bind_cases)
  case (1 e)
  then show ?thesis by (intro on_stack_steps [OF 1(1)] do_connect)
next
  case (2 cid h1)
  have open_step: "stack_steps h h1" by (intro on_stack_steps [OF 2(1)] do_connect)
  obtain q h2 where f: "flush F h1 = Some (q, h2)" using flush_total by blast
  then have sent: "stack_steps h h2" using open_step flush_step by (blast intro: rtranclp.rtrancl_into_rtrancl)
  show ?thesis
  proof (cases q)
    case (Inl e)
    with 2(2) f have "\<exists>ig :: 'fe adapter_error + unit. on_stack (tokenless (stack_close cid now)) h2 = Some (ig, h')"
      by (auto split: option.splits)
    then obtain ig :: "'fe adapter_error + unit" where "on_stack (tokenless (stack_close cid now)) h2 = Some (ig, h')"
      by blast
    then have "stack_steps h2 h'" by (rule on_stack_steps) (erule tokenless_step, erule do_close)
    with sent show ?thesis by (rule rtranclp_trans)
  next
    case (Inr u)
    then show ?thesis using 2(2) f sent by simp
  qed
qed

lemma receive_steps:
  assumes "receive_report_filtered_datagrams_with_clock F clock admitted h = Some (r, h')"
  shows "stack_steps h h'"
  using assms unfolding receive_report_filtered_datagrams_with_clock_def
proof (cases rule: call_bind_cases)
  case (1 e)
  then show ?thesis using wait_inner [OF 1(1)] by simp
next
  case (2 u h1)
  obtain token a w where h1: "h1 = (token, a, w)" by (metis surj_pair)
  let ?h = "(token, a\<lparr>receive_batch := []\<rparr>, w)"
  obtain report0 :: receive_report and report h2 where
    f: "feed F admitted (clock w) (receive_batch a) report0 ?h = Some (report, h2)"
      "call_bind (flush F h2) (\<lambda>v h3. Some (Inr report, h3)) = Some (r, h')"
    using 2(2) by (auto simp: h1 Let_def split: option.splits)
  have "stack_step (inner h2) (inner h')"
    using f(2) by (cases rule: call_bind_cases) (auto dest: flush_step)
  with feed_steps [OF f(1)] have "stack_steps ?h h'" by (rule rtranclp.rtrancl_into_rtrancl)
  then show ?thesis using wait_inner [OF 2(1)] by (simp add: h1)
qed

text \<open>Every step of the adapter is a sequence of steps of its stack.\<close>

lemma host_step_steps:
  assumes "host_step F h h'"
  shows "stack_steps h h'"
  using assms
proof cases
  case (at_accept found)
  obtain token a w where h: "h = (token, a, w)" by (metis surj_pair)
  show ?thesis
    using at_accept by (auto simp: endpoint_accept_def h split: prod.splits intro!: r_into_rtranclp do_accept)
next
  case (at_reserve slots eligible r)
  then show ?thesis unfolding endpoint_set_connection_reservation_def
    by (rule on_stack_steps) (erule tokenless_step, simp add: do_reservation)
next
  case (at_connect p now r)
  then show ?thesis by (rule connect_steps)
next
  case (at_write cid bs now r)
  then show ?thesis unfolding endpoint_write_def
    by (rule then_flush_steps) (erule on_stack_steps, erule tokenless_step, erule do_plain_write)
next
  case (at_write_marker cid bs now r)
  then show ?thesis unfolding endpoint_write_with_marker_def
    by (rule then_flush_steps) (erule on_stack_steps, erule tokenless_step, erule do_write)
next
  case (at_read cid m now r)
  then show ?thesis unfolding endpoint_read_def
    by (rule then_flush_steps) (erule on_stack_steps, erule tokenless_step, simp add: do_read)
next
  case (at_close cid now r)
  then show ?thesis unfolding endpoint_close_def
    by (rule then_flush_steps) (erule on_stack_steps, erule tokenless_step, erule do_close)
next
  case (at_abort cid r)
  then show ?thesis unfolding endpoint_abort_def
    by (rule then_flush_steps) (erule on_stack_steps, erule tokenless_step, simp add: do_abort)
next
  case (at_abort_peer p r)
  then show ?thesis unfolding endpoint_abort_peer_def
    by (rule then_flush_steps) (erule on_stack_steps, erule tokenless_step, simp add: do_abort_peer)
next
  case (at_poll now r)
  then show ?thesis unfolding endpoint_poll_def
    by (rule then_flush_steps) (erule on_stack_steps, erule tokenless_step, auto split: option.splits intro: do_poll)
next
  case (at_wait r)
  then show ?thesis using wait_inner by fastforce
next
  case (at_receive clock admitted r)
  then show ?thesis by (rule receive_steps)
next
  case (outside token token' a w w')
  then show ?thesis by (auto intro!: r_into_rtranclp other_stacks)
qed

interpretation host: invariant_system "host_start F" "host_step F" "\<lambda>h. stack_reach (inner h)" for F
  by unfold_locales (auto intro: host_start_reach reach_steps dest: host_step_steps)

text \<open>
  The adapter refines the stack: whatever the adapter is asked to do, whatever the FIPS endpoint
  does in between and whichever of its sends fail, the stack below it is one that stack calls alone
  reach, so that every property of a reachable stack holds for the adapter as well, the stack
  invariant in particular.
\<close>

theorem endpoint_refines_stack:
  assumes "host_reach F h"
  shows "stack_reach (inner h) \<and> stack_inv {} (inner h)"
  using host.inv_reach [OF assms] reach_inv by blast

section \<open>Binding\<close>

text \<open>What a bind returns once the stack is made and the registration has answered.\<close>

definition bound ::
  "('e1 \<Rightarrow> 'e) \<Rightarrow> u16 \<Rightarrow> 'i peer_key stack \<Rightarrow> ('e1 + unit) \<times> 'w \<Rightarrow> ('e, 'i fips_tcp_endpoint, 'w) call" where
  "bound err port s registered =
     (case registered of
        (Inl e, w) \<Rightarrow> Some (Inl (err e), w)
      | (Inr u, w) \<Rightarrow> Some (Inr \<lparr>fsp_service_port = port, endpoint_stack = s, receive_batch = []\<rparr>, w))"

text \<open>The stack of a fresh adapter.\<close>

definition bound_stack :: "u16 \<Rightarrow> config \<Rightarrow> u64 \<Rightarrow> 'p stack" where
  "bound_stack port cfg isn_seed =
     \<lparr>config = cfg, reservation = None, listeners = {port}, accepts = [port \<mapsto> []], connections = [],
      lookup = Map.empty, outbound = [], next_connection_id = 1, next_ephemeral_port = 49152,
      isn_state = max isn_seed 1\<rparr>"

lemma listening_new:
  "validate cfg = Inr () \<Longrightarrow> port \<noteq> 0 \<Longrightarrow>
     listening_stack port cfg isn_seed = Some (Inr (bound_stack port cfg isn_seed))"
  by (simp add: listening_stack_def stack_new_def listen_def bound_stack_def)

lemma listening_zero: "listening_stack 0 cfg isn_seed = Some (Inl InvalidServicePort)"
  by (simp add: listening_stack_def)

text \<open>
  Binding is exact: port zero and a capability without a port are refused before anything
  happens, an error of the registration is passed on, and otherwise the adapter owns a fresh
  reachable stack that listens on the service port and nothing else, with nothing to send.
\<close>

theorem bind_exact:
  assumes "validate cfg = Inr ()" "config_typed cfg" "1 \<le> token" "token \<le> u64_max" "port \<noteq> 0"
    and "fsp_port capability = Some port"
  shows "\<exists>s. listeners s = {port} \<and> connections s = [] \<and> outbound s = [] \<and> stack_reach (token, s) \<and>
    bind_endpoint register port cfg isn_seed w = bound Fips port s (register port w) \<and>
    bind_with_capability fsp_port missing_port register' capability cfg isn_seed w =
      bound Registration port s (register' capability w) \<and>
    bind_endpoint register 0 cfg isn_seed w = Some (Inl InvalidServicePort, w) \<and>
    bind_with_capability (\<lambda>c. None) missing_port register' capability cfg isn_seed w =
      Some (Inl (Registration missing_port), w)"
proof -
  have "listeners (bound_stack port cfg isn_seed) = {port}" "connections (bound_stack port cfg isn_seed) = []"
    "outbound (bound_stack port cfg isn_seed) = []" by (simp_all add: bound_stack_def)
  then show ?thesis
    using listening_reach [OF listening_new [OF assms(1,5)] assms(2-4), of isn_seed] assms(6)
    by (intro exI [of _ "bound_stack port cfg isn_seed"])
      (simp add: bind_endpoint_def bind_with_capability_def bound_def listening_new [OF assms(1,5)] listening_zero)
qed

section \<open>Connecting\<close>

lemma connect_only:
  assumes inv: "stack_inv H (token, s)" and token: "token < u64_max"
    and c: "connect p rport now (token, s) = Some (Inr cid, (token', t))" and other: "other \<noteq> cid"
  shows "get_conn other t = get_conn other s"
proof -
  obtain q s1 where a: "allocate_ephemeral_port p rport s = (q, s1)" by force
  note al = allocate_ephemeral_effect [OF inv a]
  obtain port where q: "q = Inr port" using c a by (cases q) (auto simp: connect_def)
  obtain isn s2 where n: "next_isn s1 = (isn, s2)" by force
  have inv2: "stack_inv H (token, s2)" using next_isn_inv [OF al(1)] n by simp
  have "connections s2 = connections s" using al(2) next_isn_simps(1,2) [of s1] n by simp
  moreover have "connect_from_with_isn p port rport isn now (token, s2) = Some (Inr cid, (token', t))"
    using c a n q by (simp add: connect_def)
  with connect_from_effect [OF inv2 token, of p port rport isn now]
  have "opens SynSent (token, s2) \<lparr>key_peer = p, key_local_port = port, key_remote_port = rport\<rparr> cid (token', t)"
    by auto
  then have "get_conn other t = get_conn other s2"
    using other by (auto simp: opens_def inserted_def)
  ultimately show ?thesis by (simp add: get_conn_def)
qed

lemma close_touches: "stack_close cid now s = Some (r, t) \<Longrightarrow> other \<noteq> cid \<Longrightarrow> get_conn other t = get_conn other s"
proof -
  assume h: "stack_close cid now s = Some (r, t)" "other \<noteq> cid"
  show ?thesis
  proof (cases "get_conn cid s")
    case None
    then show ?thesis using h by (simp add: stack_close_def)
  next
    case (Some c)
    then obtain u c' where o: "conn_close now c = Some (u, c')" "apply_update cid u (put_conn cid c' s) = (r, t)"
      using h by (auto simp: stack_close_def split: option.splits)
    have "touches (peer c') (Some cid) s (put_conn cid c' s)" by (rule put_touches)
    moreover have "touches (peer c') (Some cid) (put_conn cid c' s) t"
      using apply_update_touches [of cid "put_conn cid c' s" "peer c'" u] o(2) by simp
    ultimately show ?thesis using h(2) touches_trans by (fastforce simp: touches_def)
  qed
qed

lemma drain_conns [simp]: "get_conn cid (snd (drain_outbound s)) = get_conn cid s"
  by (simp add: drain_outbound_def get_conn_def)

text \<open>
  C38: A failed connect leaves nothing behind: \<open>connect\<close> always returns; when it reports an error,
  whether the stack refused or the first segment could not be sent, no connection was created,
  changed or lost, and when it returns an identifier exactly that connection is new, in SYN-SENT, to
  the normalised peer.
\<close>

theorem connect_rolls_back:
  assumes "stack_reach (token, endpoint_stack a)" "token < u64_max"
  shows "\<exists>r token' b w'. endpoint_connect F p now (token, a, w) = Some (r, (token', b, w')) \<and>
    (case r of
       Inl e \<Rightarrow> \<forall>cid. get_conn cid (endpoint_stack b) = get_conn cid (endpoint_stack a)
     | Inr cid \<Rightarrow> get_conn cid (endpoint_stack a) = None \<and>
         (\<exists>c. state c = SynSent \<and> peer c = peer_key_from F p \<and> remote_port c = fsp_service_port a \<and>
           (\<forall>cid'. get_conn cid' (endpoint_stack b) =
              (if cid' = cid then Some c else get_conn cid' (endpoint_stack a)))))"
proof -
  note inv = reach_inv [OF assms(1)]
  let ?p = "peer_key_from F p" and ?port = "fsp_service_port a"
  obtain q token1 s1 where c: "connect ?p ?port now (token, endpoint_stack a) = Some (q, (token1, s1))"
    and s1: "stack_inv {} (token1, s1)"
    and q: "case q of Inl e \<Rightarrow> connections s1 = connections (endpoint_stack a)
      | Inr cid \<Rightarrow> \<exists>c. get_conn cid s1 = Some c \<and> state c = SynSent \<and> peer c = ?p \<and> remote_port c = ?port \<and>
          get_conn cid (endpoint_stack a) = None"
  proof -
    obtain q ts where "connect ?p ?port now (token, endpoint_stack a) = Some (q, ts)" "stack_inv {} ts"
      "case q of Inl e \<Rightarrow> connections (snd ts) = connections (endpoint_stack a)
       | Inr cid \<Rightarrow> \<exists>c. get_conn cid (snd ts) = Some c \<and> state c = SynSent \<and> peer c = ?p \<and> remote_port c = ?port \<and>
          get_conn cid (endpoint_stack a) = None"
      using connect_effect [OF inv assms(2), of ?p ?port now] by (fastforce split: sum.splits)
    then show thesis using that [of q "fst ts" "snd ts"] by simp
  qed
  show ?thesis
  proof (cases q)
    case (Inl e)
    then show ?thesis
      using c q by (simp add: endpoint_connect_def on_stack_def call_bind_def get_conn_def)
  next
    case (Inr cid)
    have others: "get_conn cid' s1 = get_conn cid' (endpoint_stack a)" if "cid' \<noteq> cid" for cid'
      using connect_only [OF inv assms(2)] c Inr that by blast
    obtain c' where c': "get_conn cid s1 = Some c'" "state c' = SynSent" "peer c' = ?p" "remote_port c' = ?port"
      "get_conn cid (endpoint_stack a) = None"
      using q Inr by auto
    let ?s2 = "snd (drain_outbound s1)"
    obtain sent w1 where f: "send_all F ?port (outbound s1) w = (sent, w1)" by force
    have fl: "flush F (token1, a\<lparr>endpoint_stack := s1\<rparr>, w) = Some (sent, (token1, a\<lparr>endpoint_stack := ?s2\<rparr>, w1))"
      using f by (simp add: flush_def drain_outbound_def)
    show ?thesis
    proof (cases sent)
      case (Inl e)
      obtain r t where t: "stack_close cid now ?s2 = Some (r, t)" "get_conn cid t = None"
        using stack_close_effect [OF drain_effect [OF s1], of cid now] c' by auto
      have "get_conn cid' t = get_conn cid' (endpoint_stack a)" for cid'
        using close_touches [OF t(1), of cid'] others [of cid'] t(2) c'(5) by (cases "cid' = cid") simp_all
      moreover have "endpoint_connect F p now (token, a, w) = Some (Inl e, (token1, a\<lparr>endpoint_stack := t\<rparr>, w1))"
        using c Inr fl Inl t(1) \<open>q = Inr cid\<close>
        by (simp add: endpoint_connect_def on_stack_def call_bind_def tokenless_def)
      ultimately show ?thesis by simp
    next
      case (Inr u)
      have "endpoint_connect F p now (token, a, w) = Some (Inr cid, (token1, a\<lparr>endpoint_stack := ?s2\<rparr>, w1))"
        using c fl Inr \<open>q = Inr cid\<close> by (simp add: endpoint_connect_def on_stack_def call_bind_def)
      then show ?thesis using c' others by auto
    qed
  qed
qed

section \<open>Receiving a batch\<close>

lemma conn_server_token: "conn_server p syn isn now cfg token = Some (r, token') \<Longrightarrow> token' = token + 1"
  by (auto simp: conn_server_def conn_new_def send_progress_new_def checked_add_def Let_def
      split: option.splits if_splits)

lemma input_token: "input p bs now (token, s) = Some (r, (token', t)) \<Longrightarrow> token' \<le> token + 1"
  by (auto simp: input_def input_syn_def dest: conn_server_token
      split: sum.splits option.splits if_splits prod.splits)

text \<open>How many datagrams a report accounts for.\<close>

definition accounted :: "receive_report \<Rightarrow> nat" where
  "accounted r = processed r + rejected r"

lemma feed_effect:
  assumes "stack_inv {} (token, endpoint_stack a)" "token + length ds \<le> u64_max"
  shows "\<exists>r token' s w'. feed F admitted now ds report (token, a, w) = Some (r, (token', a\<lparr>endpoint_stack := s\<rparr>, w')) \<and>
    stack_inv {} (token', s) \<and> datagrams r = datagrams report \<and> other_errors r = other_errors report \<and>
    accounted r = accounted report + length ds"
  using assms
proof (induction ds arbitrary: token a w report)
  case Nil
  then show ?case by simp (metis fips_tcp_endpoint.surjective fips_tcp_endpoint.update_convs(2))
next
  case (Cons d ds)
  obtain ok w1 where ok: "admitted (source_peer d) (dg_data d) w = (ok, w1)" by force
  show ?case
  proof (cases ok)
    case False
    with Cons.IH [of token a "report\<lparr>connection_limited := connection_limited report + 1\<rparr>" w1] Cons.prems ok
    show ?thesis by (simp add: accounted_def rejected_def)
  next
    case True
    let ?p = "peer_key_from F (source_peer d)"
    have "token < u64_max" using Cons.prems(2) by simp
    from input_effect [OF Cons.prems(1) this, of ?p "dg_data d" now]
    obtain r token' s where i: "input ?p (dg_data d) now (token, endpoint_stack a) = Some (r, (token', s))"
      "stack_inv {} (token', s)" and r: "case r of Inr u \<Rightarrow> True | Inl e \<Rightarrow> e = ConnectionLimit \<or> (\<exists>w. e = Wire w)"
      by (fastforce split: sum.splits)
    have "token' + length ds \<le> u64_max" using input_token [OF i(1)] Cons.prems(2) by simp
    from Cons.IH [of token' "a\<lparr>endpoint_stack := s\<rparr>" "count_result r report" w1] this i(2)
    obtain r1 token1 s1 w2 where f: "feed F admitted now ds (count_result r report) (token', a\<lparr>endpoint_stack := s\<rparr>, w1) =
        Some (r1, (token1, a\<lparr>endpoint_stack := s1\<rparr>, w2))" "stack_inv {} (token1, s1)"
      "datagrams r1 = datagrams (count_result r report)" "other_errors r1 = other_errors (count_result r report)"
      "accounted r1 = accounted (count_result r report) + length ds"
      by auto
    have "datagrams (count_result r report) = datagrams report"
      "other_errors (count_result r report) = other_errors report"
      "accounted (count_result r report) = accounted report + 1"
      using r by (auto simp: count_result_def accounted_def rejected_def split: sum.splits)
    with f i(1) ok True show ?thesis
      by (intro exI [of _ r1] exI [of _ token1] exI [of _ s1] exI [of _ w2]) simp
  qed
qed

lemma feed_limited:
  "feed F admitted now ds (report\<lparr>connection_limited := connection_limited report + k\<rparr>) h =
     map_option (\<lambda>(r, h'). (r\<lparr>connection_limited := connection_limited r + k\<rparr>, h')) (feed F admitted now ds report h)"
proof (induction ds arbitrary: report h)
  case (Cons d ds)
  obtain token a w where h: "h = (token, a, w)" by (metis surj_pair)
  obtain ok w1 where ok: "admitted (source_peer d) (dg_data d) w = (ok, w1)" by force
  have count: "count_result r (report\<lparr>connection_limited := connection_limited report + k\<rparr>) =
      (count_result r report)\<lparr>connection_limited := connection_limited (count_result r report) + k\<rparr>" for r
    by (auto simp: count_result_def split: sum.split stack_error.split)
  show ?case
  proof (cases ok)
    case True
    with ok show ?thesis by (simp add: h count Cons.IH split: option.split)
  next
    case False
    have "connection_limited report + k + 1 = connection_limited report + 1 + k" by simp
    with False ok Cons.IH [of "report\<lparr>connection_limited := connection_limited report + 1\<rparr>"]
    show ?thesis by (simp add: h)
  qed
qed simp

text \<open>
  A refused datagram never enters TCP: feeding a batch under an admission filter leaves exactly
  the stack, and queues exactly the responses, that the admitted datagrams alone produce, and the
  report differs only in counting each refused one as \<open>connection_limited\<close>.
\<close>

theorem refused_never_enter:
  "feed F (\<lambda>p bs w. (adm p bs, w)) now ds report h =
     map_option (\<lambda>(r, h'). (r\<lparr>connection_limited := connection_limited r +
         length (filter (\<lambda>d. \<not> adm (source_peer d) (dg_data d)) ds)\<rparr>, h'))
       (feed F (\<lambda>p bs w. (True, w)) now (filter (\<lambda>d. adm (source_peer d) (dg_data d)) ds) report h)"
proof (induction ds arbitrary: report h)
  case (Cons d ds)
  obtain token a w where h: "h = (token, a, w)" by (metis surj_pair)
  show ?case
  proof (cases "adm (source_peer d) (dg_data d)")
    case True
    then show ?thesis by (auto simp: h Cons.IH split: option.split)
  next
    case False
    let ?g = "feed F (\<lambda>p bs w. (True, w)) now (filter (\<lambda>d. adm (source_peer d) (dg_data d)) ds)"
    have "?g (report\<lparr>connection_limited := connection_limited report + 1\<rparr>) h =
        map_option (\<lambda>(r, h'). (r\<lparr>connection_limited := connection_limited r + 1\<rparr>, h')) (?g report h)"
      by (rule feed_limited)
    with False show ?thesis
      by (cases "?g report h") (auto simp: h Cons.IH split: prod.splits)
  qed
qed simp

lemma receive_effect:
  assumes "stack_inv {} (token, endpoint_stack a)" "receive_batch a \<noteq> []"
    "token + length (receive_batch a) \<le> u64_max"
  shows "\<exists>r token' b w'. receive_report_filtered_datagrams_with_clock F clock admitted (token, a, w) =
      Some (r, (token', b, w')) \<and>
    stack_inv {} (token', endpoint_stack b) \<and> receive_batch b = [] \<and> outbound (endpoint_stack b) = [] \<and>
    (case r of
       Inl e \<Rightarrow> \<exists>x. e = Fips x
     | Inr report \<Rightarrow> datagrams report = length (receive_batch a) \<and>
         processed report + rejected report = length (receive_batch a) \<and> other_errors report = 0)"
proof -
  let ?r0 = "\<lparr>datagrams = length (receive_batch a), processed = 0, malformed = 0,
    connection_limited = 0, other_errors = 0\<rparr>"
  let ?a = "a\<lparr>receive_batch := []\<rparr>"
  have inv: "stack_inv {} (token, endpoint_stack ?a)" using assms(1) by simp
  obtain r token' s w' where f: "feed F admitted (clock w) (receive_batch a) ?r0 (token, ?a, w) =
      Some (r, (token', ?a\<lparr>endpoint_stack := s\<rparr>, w'))" "stack_inv {} (token', s)"
    "datagrams r = length (receive_batch a)" "other_errors r = 0" "accounted r = length (receive_batch a)"
    using feed_effect [OF inv assms(3), of F admitted "clock w" ?r0 w] by (auto simp: accounted_def rejected_def)
  obtain sent w1 where out: "send_all F (fsp_service_port a) (outbound s) w' = (sent, w1)" by force
  let ?b = "?a\<lparr>endpoint_stack := snd (drain_outbound s)\<rparr>"
  have "receive_report_filtered_datagrams_with_clock F clock admitted (token, a, w) =
      Some (case sent of Inl e \<Rightarrow> Inl e | Inr u \<Rightarrow> Inr r, (token', ?b, w1))"
    using assms(2) f(1) out
    by (auto simp: receive_report_filtered_datagrams_with_clock_def wait_for_input_def call_bind_def flush_def
        drain_outbound_def Let_def split: sum.split)
  moreover have "stack_inv {} (token', endpoint_stack ?b) \<and> receive_batch ?b = [] \<and> outbound (endpoint_stack ?b) = []"
    using drain_effect [OF f(2)] by (simp add: drain_outbound_def)
  moreover have "case sent of Inl e \<Rightarrow> \<exists>x. e = Fips x | Inr u \<Rightarrow> True"
    using send_all_error out by (fastforce split: sum.split)
  ultimately show ?thesis
    using f(3-5)
    by (intro exI [of _ "case sent of Inl e \<Rightarrow> Inl e | Inr u \<Rightarrow> Inr r"] exI [of _ token'] exI [of _ ?b] exI [of _ w1])
      (auto simp: accounted_def split: sum.splits)
qed

text \<open>
  One batch is fed completely and accounted for exactly: whatever the datagrams hold and whatever
  the admission closure answers, the receive call returns, each datagram is counted once as processed
  or rejected, no error other than a malformed datagram or a limit ever occurs, the batch and the
  queue of packets are empty afterwards, the stack is consistent, and the only error that can be
  reported is that of a failed send.
\<close>

theorem batch_accounted:
  assumes "stack_reach (token, endpoint_stack a)" "receive_batch a \<noteq> []"
    "token + length (receive_batch a) \<le> u64_max"
  shows "\<exists>r token' b w'. receive_report_filtered_datagrams_with_clock F clock admitted (token, a, w) =
      Some (r, (token', b, w')) \<and>
    stack_inv {} (token', endpoint_stack b) \<and> receive_batch b = [] \<and> outbound (endpoint_stack b) = [] \<and>
    (case r of
       Inl e \<Rightarrow> \<exists>x. e = Fips x
     | Inr report \<Rightarrow> datagrams report = length (receive_batch a) \<and>
         processed report + rejected report = length (receive_batch a) \<and> other_errors report = 0)"
  by (rule receive_effect [OF reach_inv [OF assms(1)] assms(2,3)])

section \<open>Reading and a failed flush\<close>

text \<open>
  C39: \<open>read\<close> takes the oldest bytes out of the receive queue in any case, but hands them to the
  caller only when everything queued could be sent: after a send error the caller gets the error,
  and the bytes, already acknowledged to the peer, are gone.
\<close>

theorem read_error_loses_bytes:
  assumes "stack_reach (token, endpoint_stack a)" "get_conn cid (endpoint_stack a) = Some c"
    "send_all F (fsp_service_port a) (outbound (snd (stack_read cid m now (endpoint_stack a)))) w = (flushed, w1)"
  shows "\<exists>b bs c'. endpoint_read F cid m now (token, a, w) =
      Some (case flushed of Inl e \<Rightarrow> Inl e | Inr u \<Rightarrow> Inr bs, (token, b, w1)) \<and>
    get_conn cid (endpoint_stack b) = Some c' \<and> recv_queue c = bs @ recv_queue c' \<and>
    length bs = min m (length (recv_queue c))"
proof -
  obtain bs t c' where r: "stack_read cid m now (endpoint_stack a) = (Inr bs, t)" "get_conn cid t = Some c'"
    "bs @ recv_queue c' = recv_queue c" "length bs = min m (length (recv_queue c))"
    using stack_read_effect(3) [OF reach_inv [OF assms(1)] assms(2), of m now] by blast
  have "endpoint_read F cid m now (token, a, w) = Some (case flushed of Inl e \<Rightarrow> Inl e | Inr u \<Rightarrow> Inr bs,
      (token, a\<lparr>endpoint_stack := snd (drain_outbound t)\<rparr>, w1))"
    using assms(3) r(1)
    by (auto simp: endpoint_read_def then_flush_def call_bind_def on_stack_def tokenless_def flush_def
        drain_outbound_def split: sum.split)
  then show ?thesis
    using r(2-4) by (intro exI [of _ "a\<lparr>endpoint_stack := snd (drain_outbound t)\<rparr>"] exI [of _ bs] exI [of _ c']) simp
qed

section \<open>Peer keys\<close>

text \<open>
  What the adapter relies on of a public key: a compressed point starts with 2 or 3, the two points
  of one \<open>x\<close> are each other's negation and differ in that byte, and an identity is determined by its
  full key.
\<close>

definition curve_laws :: "('i, 'f, 'x, 'w, 'fe) fips_core \<Rightarrow> bool" where
  "curve_laws F \<longleftrightarrow>
     (\<forall>f. serialized_prefix F f = 2 \<or> serialized_prefix F f = 3) \<and>
     (\<forall>f. serialized_prefix F (negate_pubkey F f) = 5 - serialized_prefix F f) \<and>
     (\<forall>f. pubkey_full F (from_pubkey_full F f) = f) \<and>
     (\<forall>p q. pubkey_full F p = pubkey_full F q \<longrightarrow> p = q) \<and>
     (\<forall>p q. x_only_pubkey F p = x_only_pubkey F q \<longleftrightarrow>
        pubkey_full F p = pubkey_full F q \<or> pubkey_full F p = negate_pubkey F (pubkey_full F q))"

text \<open>
  The key of a peer is canonical: two authenticated identities get the same key exactly when
  they have the same x-only public key, the comparison of the code (by x-only key) agrees with
  equality on the keys, and the kept point is the one of even parity, so that a peer cannot reach
  another peer's connections nor miss its own through the parity of its key.
\<close>

theorem peer_keys_canonical:
  assumes "curve_laws F"
  shows "(peer_key_from F p = peer_key_from F q \<longleftrightarrow> x_only_pubkey F p = x_only_pubkey F q) \<and>
    (peer_key_eq F (peer_key_from F p) (peer_key_from F q) \<longleftrightarrow> peer_key_from F p = peer_key_from F q) \<and>
    serialized_prefix F (pubkey_full F (key_identity (peer_key_from F p))) = 2"
proof -
  let ?full = "pubkey_full F" and ?neg = "negate_pubkey F" and ?odd = "\<lambda>f. serialized_prefix F f = 3"
  note laws = assms [unfolded curve_laws_def]
  note parity = laws [THEN conjunct1, rule_format]
    and flip = laws [THEN conjunct2, THEN conjunct1, rule_format]
    and undo = laws [THEN conjunct2, THEN conjunct2, THEN conjunct1, rule_format]
    and inj = laws [THEN conjunct2, THEN conjunct2, THEN conjunct2, THEN conjunct1, rule_format]
    and x = laws [THEN conjunct2, THEN conjunct2, THEN conjunct2, THEN conjunct2, rule_format]
  have other: "?odd (?neg f) \<longleftrightarrow> \<not> ?odd f" for f
    using parity [of f] by (auto simp: flip)
  have twice: "?neg (?neg f) = f" for f
    using x [of "from_pubkey_full F (?neg f)" "from_pubkey_full F f"]
      x [of "from_pubkey_full F f" "from_pubkey_full F (?neg f)"] other [of f] by (auto simp: undo)
  have full: "?full (key_identity (peer_key_from F p)) = (if ?odd (?full p) then ?neg (?full p) else ?full p)" for p
    by (simp add: peer_key_from_def Let_def undo)
  have same: "peer_key_from F p = peer_key_from F q \<longleftrightarrow>
      ?full (key_identity (peer_key_from F p)) = ?full (key_identity (peer_key_from F q))" for p q
    using inj by (metis peer_key.collapse)
  have norm: "(if ?odd f then ?neg f else f) = (if ?odd g then ?neg g else g) \<longleftrightarrow> f = g \<or> f = ?neg g" for f g
    by (cases "?odd f"; cases "?odd g") (simp_all, (metis other twice)+)
  have eq: "peer_key_from F p = peer_key_from F q \<longleftrightarrow> x_only_pubkey F p = x_only_pubkey F q" for p q
    unfolding same full x by (rule norm)
  have x_kept: "x_only_pubkey F (key_identity (peer_key_from F p)) = x_only_pubkey F p" for p
    by (simp add: x full)
  have "peer_key_eq F (peer_key_from F p) (peer_key_from F q) \<longleftrightarrow> peer_key_from F p = peer_key_from F q"
    by (simp add: peer_key_eq_def x_kept eq)
  moreover have "serialized_prefix F (?full (key_identity (peer_key_from F p))) = 2"
    using parity [of "?full p"] by (auto simp: full flip)
  ultimately show ?thesis using eq by simp
qed

section \<open>A concrete endpoint\<close>

text \<open>
  Identities are a parity and a number, as points of a curve are. The service socket delivers a SYN
  of peer 7 for ever, and records what is sent, or fails to send.
\<close>

definition example_datagram :: "(bool \<times> nat) datagram" where
  "example_datagram = \<lparr>source_peer = (True, 7), destination_port = 80, dg_data = wire_bytes example_syn\<rparr>"

definition example_core :: "bool \<Rightarrow> (bool \<times> nat, bool \<times> nat, nat, bytes list, nat) fips_core" where
  "example_core up = \<lparr>pubkey_full = \<lambda>p. p, x_only_pubkey = snd,
     serialized_prefix = \<lambda>f. if fst f then 3 else 2, negate_pubkey = \<lambda>f. (\<not> fst f, snd f),
     from_pubkey_full = \<lambda>f. f,
     send_datagram = \<lambda>p src dst bs w. if up then (Inr (), w @ [bs]) else (Inl 13, w),
     recv_batch = \<lambda>n w. (Some [example_datagram], w)\<rparr>"

definition example_endpoint :: "(bool \<times> nat) peer_key stack \<Rightarrow> (bool \<times> nat) fips_tcp_endpoint" where
  "example_endpoint s = \<lparr>fsp_service_port = 80, endpoint_stack = s, receive_batch = [example_datagram]\<rparr>"

lemma example_endpoint_simps [simp]:
  "fsp_service_port (example_endpoint s) = 80" "endpoint_stack (example_endpoint s) = s"
  "receive_batch (example_endpoint s) = [example_datagram]"
  by (simp_all add: example_endpoint_def)

lemma default_valid: "validate config_default = Inr ()"
  using valid_config_default validate_ok [of config_default] by simp

theorem peer_keys_canonical_witness:
  "(peer_key_from (example_core True) (True, 7) = peer_key_from (example_core True) (False, 7)) \<and>
   (peer_key_eq (example_core True) (peer_key_from (example_core True) (True, 7)) (peer_key_from (example_core True) (False, 7))) \<and>
   serialized_prefix (example_core True) (pubkey_full (example_core True)
     (key_identity (peer_key_from (example_core True) (True, 7)))) = 2"
proof -
  have "curve_laws (example_core True)" by (auto simp: curve_laws_def example_core_def)
  moreover have "x_only_pubkey (example_core True) (True, 7) = x_only_pubkey (example_core True) (False, 7)"
    by (simp add: example_core_def)
  ultimately show ?thesis using peer_keys_canonical [of "example_core True" "(True, 7)" "(False, 7)"] by blast
qed

theorem read_error_loses_bytes_witness:
  "\<exists>b c'. endpoint_read (example_core False) 1 5 20 (2, example_endpoint (accepted_by (PeerKey (False, 7))), []) =
      Some (Inl (Fips 13), (2, b, [])) \<and>
    recv_queue (reading (PeerKey (False, 7 :: nat))) = [1, 2, 3] \<and>
    get_conn 1 (endpoint_stack b) = Some c' \<and> recv_queue c' = []"
proof -
  let ?s = "accepted_by (PeerKey (False, 7 :: nat))" and ?c = "reading (PeerKey (False, 7 :: nat))"
  obtain bs segs c' where o: "conn_read 5 ?c = ((bs, segs), c')" by (metis surj_pair)
  have "snd (stack_read 1 5 20 ?s) = snd (emit 1 segs (put_conn 1 c' ?s))"
    using o by (simp add: stack_read_def split: prod.split sum.split)
  moreover have "\<exists>xs. outbound (snd (emit 1 segs (put_conn 1 c' ?s))) = outbound ?s @ xs"
    using emit_touches [of 1 "put_conn 1 c' ?s" "peer c'" None segs] by (auto simp: touches_def)
  moreover have "outbound ?s \<noteq> []" by (simp add: accepted_stack_input(2) sent_def)
  ultimately have "outbound (snd (stack_read 1 5 20 ?s)) \<noteq> []" by auto
  then have send: "send_all (example_core False) (fsp_service_port (example_endpoint ?s))
      (outbound (snd (stack_read 1 5 20 (endpoint_stack (example_endpoint ?s))))) [] = (Inl (Fips 13), [])"
    by (cases "outbound (snd (stack_read 1 5 20 ?s))") (simp_all add: example_core_def)
  have "stack_reach (2, endpoint_stack (example_endpoint ?s))"
    "get_conn 1 (endpoint_stack (example_endpoint ?s)) = Some ?c"
    using accepted_stack_reach by simp_all
  from read_error_loses_bytes [OF this send]
  obtain b bs c' where r: "endpoint_read (example_core False) 1 5 20 (2, example_endpoint ?s, []) = Some (Inl (Fips 13), (2, b, []))"
    "get_conn 1 (endpoint_stack b) = Some c'" "[1, 2, 3] = bs @ recv_queue c'" "length bs = 3"
    by auto
  have "length [1, 2, 3 :: u8] = length bs + length (recv_queue c')" by (simp only: r(3) length_append)
  then have "recv_queue c' = []" using r(4) by simp
  with r(1,2) show ?thesis by simp
qed

theorem batch_accounted_witness:
  "\<exists>r token' b w'. receive_report_filtered_datagrams_with_clock (example_core True) (\<lambda>w. 5) (\<lambda>p bs w. (True, w))
      (1, example_endpoint port_80_stack, []) = Some (r, (token', b, w')) \<and>
    stack_inv {} (token', endpoint_stack b) \<and> receive_batch b = [] \<and> outbound (endpoint_stack b) = [] \<and>
    (case r of
       Inl e \<Rightarrow> \<exists>x. e = Fips x
     | Inr report \<Rightarrow> datagrams report = length (receive_batch (example_endpoint port_80_stack)) \<and>
         processed report + rejected report = length (receive_batch (example_endpoint port_80_stack)) \<and>
         other_errors report = 0)"
  by (rule batch_accounted) (simp_all add: listen_stack_reach [simplified] u64_max_def)

theorem connect_rolls_back_witness:
  "\<exists>r token' b w'. endpoint_connect (example_core False) (True, 7) 5 (1, example_endpoint port_80_stack, []) =
      Some (r, (token', b, w')) \<and>
    (case r of
       Inl e \<Rightarrow> \<forall>cid. get_conn cid (endpoint_stack b) = get_conn cid (endpoint_stack (example_endpoint port_80_stack))
     | Inr cid \<Rightarrow> get_conn cid (endpoint_stack (example_endpoint port_80_stack)) = None \<and>
         (\<exists>c. state c = SynSent \<and> peer c = peer_key_from (example_core False) (True, 7) \<and>
           remote_port c = fsp_service_port (example_endpoint port_80_stack) \<and>
           (\<forall>cid'. get_conn cid' (endpoint_stack b) =
              (if cid' = cid then Some c else get_conn cid' (endpoint_stack (example_endpoint port_80_stack))))))"
  by (rule connect_rolls_back) (simp_all add: listen_stack_reach [simplified] u64_max_def)

theorem bind_exact_witness:
  "\<exists>s. listeners s = {80} \<and> connections s = [] \<and> outbound s = [] \<and> stack_reach (1, s) \<and>
    bind_endpoint (\<lambda>port w. (if w then Inl 13 else Inr (), w)) 80 config_default 42 True =
      bound Fips 80 s (Inl (13 :: nat), True) \<and>
    bind_with_capability (\<lambda>c. Some c) (6 :: nat) (\<lambda>c w. (Inr (), w)) 80 config_default 42 True =
      bound Registration 80 s (Inr (), True) \<and>
    bind_endpoint (\<lambda>port w. (if w then Inl (13 :: nat) else Inr (), w)) 0 config_default 42 True =
      Some (Inl InvalidServicePort, True) \<and>
    bind_with_capability (\<lambda>c. None) (6 :: nat) (\<lambda>c w. (Inr (), w)) (80 :: u16) config_default 42 True =
      Some (Inl (Registration 6), True)"
  using bind_exact [of config_default 1 80 "\<lambda>c. Some c" 80 "\<lambda>port w. (if w then Inl (13 :: nat) else Inr (), w)" 42 True 6
      "\<lambda>c w. (Inr (), w)"] default_valid config_typed_default
  by (simp add: u64_max_def)

text \<open>A freshly bound adapter receives its first batch.\<close>

definition example_host :: "(bool \<times> nat, bytes list) host" where
  "example_host = (1, \<lparr>fsp_service_port = 80, endpoint_stack = bound_stack 80 config_default 42, receive_batch = []\<rparr>, [])"

lemma example_host_start: "host_start (example_core True) example_host"
  unfolding example_host_def
  by (rule start_bound [OF listening_new]) (simp_all add: default_valid config_typed_default u64_max_def)

lemma example_receives:
  "receive_report_filtered_datagrams_with_clock (example_core True) clock admitted example_host =
     receive_report_filtered_datagrams_with_clock (example_core True) clock admitted
       (1, example_endpoint (bound_stack 80 config_default 42), [])"
  by (simp add: receive_report_filtered_datagrams_with_clock_def wait_for_input_def call_bind_def example_host_def
      example_endpoint_def example_core_def)

theorem endpoint_refines_stack_witness:
  "\<exists>r h. receive_report_filtered_datagrams_with_clock (example_core True) (\<lambda>w. 5) (\<lambda>p bs w. (True, w)) example_host =
      Some (r, h) \<and> stack_reach (inner h) \<and> stack_inv {} (inner h)"
proof -
  have start: "host_reach (example_core True) example_host" by (rule reach_start [of "host_start (example_core True)", OF example_host_start])
  have "stack_reach (1, endpoint_stack (example_endpoint (bound_stack 80 config_default 42)))"
    using host_start_reach [OF example_host_start] by (simp add: example_host_def)
  from receive_effect [OF reach_inv [OF this], of "example_core True" "\<lambda>w. 5" "\<lambda>p bs w. (True, w)" "[]"]
  have "\<exists>r h. receive_report_filtered_datagrams_with_clock (example_core True) (\<lambda>w. 5) (\<lambda>p bs w. (True, w))
      example_host = Some (r, h)"
    by (auto simp: example_receives u64_max_def)
  then obtain r h where r: "receive_report_filtered_datagrams_with_clock (example_core True) (\<lambda>w. 5) (\<lambda>p bs w. (True, w))
      example_host = Some (r, h)" by blast
  from endpoint_refines_stack [OF reach_step [of _ "host_step (example_core True)", OF start at_receive [OF r]]] r show ?thesis by blast
qed

end
