(* ===== verification/Exchange_Props.thy ===== *)
theory Exchange_Props
  imports Message_Props Endpoint_Props
begin

text \<open>
  A message between two adapters: written on one endpoint, carried by FIPS datagrams that arrive in
  batches of any size, read on the other endpoint, and acknowledged back. The FIPS network appears
  only through the operations of \<open>fips_core\<close>, here with sends that succeed and are recorded.
\<close>

section \<open>A network that sends\<close>

text \<open>Every send succeeds; \<open>log\<close> reads off the outside what was sent so far, and to whom.\<close>

definition transparent :: "('i, 'f, 'x, 'w, 'fe) fips_core \<Rightarrow> ('w \<Rightarrow> ('i \<times> bytes) list) \<Rightarrow> bool" where
  "transparent F log \<longleftrightarrow> (\<forall>i src dst bs w. fst (send_datagram F i src dst bs w) = Inr () \<and>
     log (snd (send_datagram F i src dst bs w)) = log w @ [(i, bs)])"

lemma send_all_transparent:
  assumes "transparent F log"
  shows "\<exists>w'. send_all F port xs w = (Inr (), w') \<and>
    log w' = log w @ map (\<lambda>x. (key_identity (out_peer x), out_bytes x)) xs"
proof (induction xs arbitrary: w)
  case (Cons x xs)
  obtain r w1 where s: "send_datagram F (key_identity (out_peer x)) port port (out_bytes x) w = (r, w1)" by force
  have "r = Inr ()" "log w1 = log w @ [(key_identity (out_peer x), out_bytes x)]"
    using assms s unfolding transparent_def by (metis fst_conv, metis snd_conv)
  then show ?case using s Cons.IH [of w1] by auto
qed simp

text \<open>A flush then empties the queue into the network.\<close>

lemma flush_transparent:
  assumes "transparent F log"
  shows "\<exists>w'. flush F (token, a, w) =
      Some (Inr (), (token, a\<lparr>endpoint_stack := (endpoint_stack a)\<lparr>outbound := []\<rparr>\<rparr>, w')) \<and>
    log w' = log w @ map (\<lambda>x. (key_identity (out_peer x), out_bytes x)) (outbound (endpoint_stack a))"
proof -
  obtain w' where "send_all F (fsp_service_port a) (outbound (endpoint_stack a)) w = (Inr (), w')"
    "log w' = log w @ map (\<lambda>x. (key_identity (out_peer x), out_bytes x)) (outbound (endpoint_stack a))"
    using send_all_transparent [OF assms] by blast
  then show ?thesis by (auto simp: flush_def drain_outbound_def)
qed

lemma holds_flushed:
  assumes "holds cid c key (token, s)"
  shows "holds cid c key (token, s\<lparr>outbound := []\<rparr>)"
proof -
  have "stack_step (token, s) (token, s\<lparr>outbound := []\<rparr>)"
    by (rule do_drain [of s "outbound s"]) (simp add: drain_outbound_def)
  then show ?thesis using assms stack_step_effect by (fastforce simp: holds_def get_conn_def)
qed

section \<open>Batches\<close>

text \<open>\<open>bs\<close> as it arrives from the identity \<open>i\<close>.\<close>

definition arriving :: "'i \<Rightarrow> u16 \<Rightarrow> bytes \<Rightarrow> 'i datagram" where
  "arriving i port bs = \<lparr>source_peer = i, destination_port = port, dg_data = bs\<rparr>"

text \<open>
  Batches received one after the other, each at its time, as the awaited \<open>recv_batch\<close> leaves them in
  the adapter. The result is \<open>None\<close> unless every datagram of every batch is processed.
\<close>

fun receives ::
  "('i, 'f, 'x, 'w, 'fe) fips_core \<Rightarrow> (nat \<times> 'i datagram list) list \<Rightarrow> ('i, 'w) host \<Rightarrow> ('i, 'w) host option" where
  "receives F [] h = Some h"
| "receives F ((now, ds) # rest) (token, a, w) =
     (case endpoint_receive_report F now (token, a\<lparr>receive_batch := ds\<rparr>, w) of
        Some (Inr report, h) \<Rightarrow> if processed report = length ds then receives F rest h else None
      | _ \<Rightarrow> None)"

lemma receive_awaits:
  assumes "receive_batch a = []" "recv_batch F 64 w = (Some ds, w')" "ds \<noteq> []"
  shows "endpoint_receive_report F now (token, a, w) = endpoint_receive_report F now (token, a\<lparr>receive_batch := ds\<rparr>, w')"
  using assms by (simp add: endpoint_receive_report_def receive_report_filtered_def receive_report_filtered_datagrams_def
      receive_report_filtered_datagrams_with_clock_def wait_for_input_def call_bind_def)

lemma feed_inputs:
  assumes "inputs (peer_key_from F i) bs now (token, endpoint_stack a) = Some (token', s)"
  shows "feed F (\<lambda>p bs w. (True, w)) now (map (arriving i port) bs) report (token, a, w) =
    Some (report\<lparr>processed := processed report + length bs\<rparr>, (token', a\<lparr>endpoint_stack := s\<rparr>, w))"
  using assms
proof (induction bs arbitrary: token a report)
  case (Cons b bs)
  obtain u token1 s1 where i: "input (peer_key_from F i) b now (token, endpoint_stack a) = Some (Inr u, (token1, s1))"
    "inputs (peer_key_from F i) bs now (token1, s1) = Some (token', s)"
    using Cons.prems by (auto split: option.splits sum.splits)
  from Cons.IH [of token1 "a\<lparr>endpoint_stack := s1\<rparr>"] i show ?case by (simp add: arriving_def count_result_def)
qed simp

lemma batch_received:
  assumes tr: "transparent F log" and bs: "bs \<noteq> []"
    and i: "inputs (peer_key_from F i) bs now (token, endpoint_stack a) = Some (token', s)"
  shows "\<exists>report w'. endpoint_receive_report F now (token, a\<lparr>receive_batch := map (arriving i port) bs\<rparr>, w) =
      Some (Inr report, (token', a\<lparr>receive_batch := [], endpoint_stack := s\<lparr>outbound := []\<rparr>\<rparr>, w')) \<and>
    processed report = length bs \<and>
    log w' = log w @ map (\<lambda>x. (key_identity (out_peer x), out_bytes x)) (outbound s)"
proof -
  have i': "inputs (peer_key_from F i) bs now (token, endpoint_stack (a\<lparr>receive_batch := []\<rparr>)) = Some (token', s)"
    using i by simp
  show ?thesis
    using bs feed_inputs [OF i', of port] flush_transparent [OF tr, of token' "a\<lparr>receive_batch := [], endpoint_stack := s\<rparr>" w]
    by (auto simp: endpoint_receive_report_def receive_report_filtered_def receive_report_filtered_datagrams_def
        receive_report_filtered_datagrams_with_clock_def wait_for_input_def call_bind_def Let_def)
qed

section \<open>A row of batches\<close>

definition carries :: "'i \<Rightarrow> u16 \<Rightarrow> (nat \<times> 'i datagram list) list \<Rightarrow> bytes list \<Rightarrow> bool" where
  "carries i port batches wire \<longleftrightarrow> concat (map snd batches) = map (arriving i port) wire \<and> [] \<notin> snd ` set batches"

lemma carries_segments:
  assumes "carries i port ((now, ds) # rest) (map wire_bytes segs)"
  obtains xs ys where "segs = xs @ ys" "ds = map (arriving i port) (map wire_bytes xs)" "map wire_bytes xs \<noteq> []"
    "carries i port rest (map wire_bytes ys)"
proof -
  have "ds @ concat (map snd rest) = map (arriving i port \<circ> wire_bytes) segs" using assms by (simp add: carries_def)
  then obtain xs ys where split: "segs = xs @ ys" "ds = map (arriving i port \<circ> wire_bytes) xs"
    "concat (map snd rest) = map (arriving i port \<circ> wire_bytes) ys"
    by (auto simp: append_eq_map_conv)
  with assms show thesis by (intro that [of xs ys]) (auto simp: carries_def)
qed

lemma in_row_append: "in_row a (xs @ ys) b \<Longrightarrow> \<exists>m. in_row a xs m \<and> in_row m ys b"
  by (induction xs arbitrary: a) auto

lemma rows_received:
  assumes tr: "transparent F log" and key: "key_peer key = peer_key_from F i"
    and "holds j d key (token, endpoint_stack b)" "outbound (endpoint_stack b) = []" "receives_data d" "idle d"
      "in_row (recv_nxt d) segs e" "length (payloads segs) \<le> available_window d"
    and "\<forall>x \<in> set segs. good_segment x \<and> seg_dst_port x = key_local_port key \<and> seg_src_port x = key_remote_port key \<and>
      seg_ack x = Some (send_nxt d)"
    and "carries i port batches (map wire_bytes segs)"
  shows "\<exists>b' w' acks d'. receives F batches (token, b, w) = Some (token, b', w') \<and> holds j d' key (token, endpoint_stack b') \<and>
    list_all2 acks_segment segs acks \<and>
    log w' = log w @ map (\<lambda>x. (key_identity (key_peer key), wire_bytes x)) acks \<and>
    recv_queue d' = recv_queue d @ payloads segs"
  using assms(3-)
proof (induction batches arbitrary: b d segs w)
  case Nil
  then show ?case by (intro exI [of _ b] exI [of _ w] exI [of _ "[]"] exI [of _ d]) (simp add: carries_def)
next
  case (Cons batch rest)
  obtain now ds where batch: "batch = (now, ds)" by force
  obtain xs ys where split: "segs = xs @ ys" "ds = map (arriving i port) (map wire_bytes xs)" "map wire_bytes xs \<noteq> []"
    "carries i port rest (map wire_bytes ys)"
    using Cons.prems(8) unfolding batch by (rule carries_segments)
  obtain m where m: "in_row (recv_nxt d) xs m" "in_row m ys e" using in_row_append Cons.prems(5) split(1) by blast
  have ok: "\<forall>x \<in> set xs. good_segment x \<and> seg_dst_port x = key_local_port key \<and> seg_src_port x = key_remote_port key \<and>
      seg_ack x = Some (send_nxt d)"
    and ok': "\<forall>x \<in> set ys. good_segment x \<and> seg_dst_port x = key_local_port key \<and> seg_src_port x = key_remote_port key \<and>
      seg_ack x = Some (send_nxt d)"
    using Cons.prems(7) split(1) by simp_all
  have "length (payloads xs) \<le> available_window d" using Cons.prems(6) split(1) by simp
  from row_arrives [OF Cons.prems(1,3,4) m(1) ok this, of now]
  obtain acks s d1 where arr: "inputs (key_peer key) (map wire_bytes xs) now (token, endpoint_stack b) = Some (token, s)"
    "holds j d1 key (token, s)" "list_all2 acks_segment xs acks" "outbound s = map (packet (key_peer key)) acks"
    "recv_queue d1 = recv_queue d @ payloads xs" "recv_nxt d1 = m" "receives_data d1" "idle d1" "send_nxt d1 = send_nxt d"
    "available_window d = available_window d1 + length (payloads xs)"
    using Cons.prems(2) by auto
  let ?b = "b\<lparr>receive_batch := [], endpoint_stack := s\<lparr>outbound := []\<rparr>\<rparr>"
  obtain report w1 where one: "endpoint_receive_report F now (token, b\<lparr>receive_batch := ds\<rparr>, w) = Some (Inr report, (token, ?b, w1))"
    "processed report = length ds"
    "log w1 = log w @ map (\<lambda>x. (key_identity (out_peer x), out_bytes x)) (outbound s)"
    using batch_received [OF tr split(3) arr(1) [unfolded key], of port w] split(2) by auto
  have held: "holds j d1 key (token, endpoint_stack ?b)" using holds_flushed [OF arr(2)] by simp
  have "length (payloads ys) \<le> available_window d1" using Cons.prems(6) split(1) arr(10) by simp
  from Cons.IH [OF held _ arr(7,8) _ this _ split(4), of w1] m(2) arr(6,9) ok'
  obtain b' w' acks' d' where ih: "receives F rest (token, ?b, w1) = Some (token, b', w')"
    "holds j d' key (token, endpoint_stack b')" "list_all2 acks_segment ys acks'"
    "log w' = log w1 @ map (\<lambda>x. (key_identity (key_peer key), wire_bytes x)) acks'"
    "recv_queue d' = recv_queue d1 @ payloads ys"
    by auto
  have "list_all2 acks_segment segs (acks @ acks')" using arr(3) ih(3) split(1) by (simp add: list_all2_appendI)
  moreover have "log w' = log w @ map (\<lambda>x. (key_identity (key_peer key), wire_bytes x)) (acks @ acks')"
    using ih(4) one(3) arr(4) by (simp add: packet_def comp_def)
  moreover have "recv_queue d' = recv_queue d @ payloads segs" using ih(5) arr(5) split(1) by simp
  moreover have "receives F (batch # rest) (token, b, w) = Some (token, b', w')"
    using one(1,2) ih(1) by (simp add: batch)
  ultimately show ?case using ih(2) by blast
qed

lemma releases_received:
  assumes tr: "transparent F log" and key: "key_peer key = peer_key_from F i"
    and "holds j c key (token, endpoint_stack a)" "outbound (endpoint_stack a) = []" "drained c"
      "list_all2 (confirms key) (unacked c) acks" "carries i port batches (map wire_bytes acks)"
  shows "\<exists>a' w' c'. receives F batches (token, a, w) = Some (token, a', w') \<and> holds j c' key (token, endpoint_stack a') \<and>
    drained c' \<and> unacked c' = [] \<and>
    accepted_payload_bytes (send_progress c') = accepted_payload_bytes (send_progress c) \<and>
    connection_token (send_progress c') = connection_token (send_progress c)"
  using assms(3-)
proof (induction batches arbitrary: a c acks w)
  case Nil
  then show ?case by (intro exI [of _ a] exI [of _ w] exI [of _ c]) (simp add: carries_def)
next
  case (Cons batch rest)
  obtain now ds where batch: "batch = (now, ds)" by force
  obtain xs ys where split: "acks = xs @ ys" "ds = map (arriving i port) (map wire_bytes xs)" "map wire_bytes xs \<noteq> []"
    "carries i port rest (map wire_bytes ys)"
    using Cons.prems(5) unfolding batch by (rule carries_segments)
  obtain ts us where ts: "unacked c = ts @ us" "list_all2 (confirms key) ts xs" "list_all2 (confirms key) us ys"
    using Cons.prems(4) split(1) by (auto simp: list_all2_append2)
  from acks_release [OF Cons.prems(1,3) ts(1,2), of now]
  obtain s c1 where rel: "inputs (key_peer key) (map wire_bytes xs) now (token, endpoint_stack a) = Some (token, s)"
    "holds j c1 key (token, s)" "drained c1" "unacked c1 = us" "outbound s = []"
    "accepted_payload_bytes (send_progress c1) = accepted_payload_bytes (send_progress c)"
    "connection_token (send_progress c1) = connection_token (send_progress c)"
    using Cons.prems(2) by auto
  let ?a = "a\<lparr>receive_batch := [], endpoint_stack := s\<lparr>outbound := []\<rparr>\<rparr>"
  obtain report w1 where one: "endpoint_receive_report F now (token, a\<lparr>receive_batch := ds\<rparr>, w) = Some (Inr report, (token, ?a, w1))"
    "processed report = length ds"
    using batch_received [OF tr split(3) rel(1) [unfolded key], of port w] split(2) by auto
  have held: "holds j c1 key (token, endpoint_stack ?a)" using holds_flushed [OF rel(2)] by simp
  from Cons.IH [OF held _ rel(3) _ split(4), of w1] ts(3) rel(4,6,7) one show ?case by (auto simp: batch)
qed

section \<open>The exchange\<close>

text \<open>
  C8: A message between two adapters over a network that delivers. Their stacks hold the two ends of an
  idle established connection in step, with nothing left to send. A write of at most what the window
  and the buffer allow is accepted whole and handed to FIPS as datagrams for the peer; however these
  are cut into batches when they arrive, the other adapter processes each of them, its read returns
  exactly the bytes, and the datagrams it has answered with, again in any batches, turn the marker of
  the write to \<open>Acked\<close>. Peers may be named by either of the two identities with the same x-only key.
\<close>

theorem adapters_exchange:
  assumes "transparent F log"
    and "stack_reach (ta, endpoint_stack a)" "get_conn i (endpoint_stack a) = Some c" "outbound (endpoint_stack a) = []"
      "conn_key c = \<lparr>key_peer = peer_key_from F pb, key_local_port = lport, key_remote_port = rport\<rparr>"
    and "stack_reach (tb, endpoint_stack b)" "get_conn j (endpoint_stack b) = Some d" "outbound (endpoint_stack b) = []"
      "conn_key d = \<lparr>key_peer = peer_key_from F pa, key_local_port = rport, key_remote_port = lport\<rparr>"
    and "in_step c d" "recv_queue d = []"
    and "length bs \<le> send_window c" "length bs \<le> send_buffer (config (endpoint_stack a))"
      "accepted_payload_bytes (send_progress c) + length bs \<le> u128_max"
  shows "\<exists>m a1 wa1 wire. endpoint_write_with_marker F i bs t0 (ta, a, wa) = Some (Inr (length bs, m), (ta, a1, wa1)) \<and>
    log wa1 = log wa @ map (Pair (key_identity (peer_key_from F pb))) wire \<and>
    (\<forall>batches. carries pa port batches wire \<longrightarrow>
      (\<exists>b1 wb1 answers. receives F batches (tb, b, wb) = Some (tb, b1, wb1) \<and>
        log wb1 = log wb @ map (Pair (key_identity (peer_key_from F pa))) answers \<and>
        (\<exists>h. endpoint_read F j (length bs) t2 (tb, b1, wb1) = Some (Inr bs, h)) \<and>
        (\<forall>batches'. carries pb port' batches' answers \<longrightarrow>
          (\<exists>a2 wa2. receives F batches' (ta, a1, wa1) = Some (ta, a2, wa2) \<and> endpoint_marker_status m (ta, a2, wa2) = Acked))))"
proof -
  have c: "state c = Established" "idle c" "rto_recovery_until c = None" and d: "receives_data d" "idle d"
    and in_order: "recv_nxt d = send_nxt c" "recv_nxt c = send_nxt d" and wc: "remote_window c \<le> available_window d"
    using assms(10) by (simp_all add: in_step_def receives_data_def)
  let ?ka = "\<lparr>key_peer = peer_key_from F pb, key_local_port = lport, key_remote_port = rport\<rparr>"
  let ?kb = "\<lparr>key_peer = peer_key_from F pa, key_local_port = rport, key_remote_port = lport\<rparr>"
  have ha: "holds i c ?ka (ta, endpoint_stack a)" and hb: "holds j d ?kb (tb, endpoint_stack b)"
    using stack.inv_reach [OF assms(2)] stack.inv_reach [OF assms(6)] assms(3,5,7,9) by (simp_all add: holds_def)
  obtain segs c' s where w: "write_with_marker i bs t0 (endpoint_stack a) = Some (Inr (length bs, progress_marker i (send_progress c')), s)"
    "outbound s = map (packet (key_peer ?ka)) segs" "holds i c' ?ka (ta, s)"
    "in_row (send_nxt c) segs (send_nxt c')" "payloads segs = bs" "\<forall>x \<in> set segs. addressed_from ?ka (recv_nxt c) x"
    "drained c'" "list_all2 (sent_as (recv_nxt c)) (unacked c') segs"
    by (rule write_queues [OF ha c assms(12,13,14), of t0]) (use assms(4) in simp)
  let ?a1 = "a\<lparr>endpoint_stack := s\<lparr>outbound := []\<rparr>\<rparr>"
  obtain wa1 where wr: "endpoint_write_with_marker F i bs t0 (ta, a, wa) =
      Some (Inr (length bs, progress_marker i (send_progress c')), (ta, ?a1, wa1))"
    "log wa1 = log wa @ map (Pair (key_identity (key_peer ?ka))) (map wire_bytes segs)"
    using flush_transparent [OF assms(1), of ta "a\<lparr>endpoint_stack := s\<rparr>" wa] w(1,2)
    by (auto simp: endpoint_write_with_marker_def then_flush_def on_stack_def tokenless_def call_bind_def packet_def comp_def)
  have ha1: "holds i c' ?ka (ta, endpoint_stack ?a1)" using holds_flushed [OF w(3)] by simp
  have segs: "\<forall>x \<in> set segs. good_segment x \<and> seg_dst_port x = key_local_port ?kb \<and> seg_src_port x = key_remote_port ?kb \<and>
      seg_ack x = Some (send_nxt d)"
    using w(6) by (simp add: addressed_from_def in_order)
  have len: "length (payloads segs) \<le> available_window d"
    using w(5) assms(12) wc by (simp add: send_window_def)
  have row: "in_row (recv_nxt d) segs (send_nxt c')" using w(4) in_order(1) by simp
  have dirs: "\<forall>x \<in> set segs. seg_dst_port x = key_remote_port ?ka \<and> seg_src_port x = key_local_port ?ka" using segs by simp
  have "\<exists>b1 wb1 answers. receives F batches (tb, b, wb) = Some (tb, b1, wb1) \<and>
        log wb1 = log wb @ map (Pair (key_identity (peer_key_from F pa))) answers \<and>
        (\<exists>h. endpoint_read F j (length bs) t2 (tb, b1, wb1) = Some (Inr bs, h)) \<and>
        (\<forall>batches'. carries pb port' batches' answers \<longrightarrow>
          (\<exists>a2 wa2. receives F batches' (ta, ?a1, wa1) = Some (ta, a2, wa2) \<and>
            endpoint_marker_status (progress_marker i (send_progress c')) (ta, a2, wa2) = Acked))"
    if batches: "carries pa port batches (map wire_bytes segs)" for batches
  proof -
    have kb: "key_peer ?kb = peer_key_from F pa" and ka: "key_peer ?ka = peer_key_from F pb" by simp_all
    obtain b1 wb1 acks d' where rc: "receives F batches (tb, b, wb) = Some (tb, b1, wb1)"
      "holds j d' ?kb (tb, endpoint_stack b1)" "list_all2 acks_segment segs acks"
      "log wb1 = log wb @ map (\<lambda>x. (key_identity (key_peer ?kb), wire_bytes x)) acks" "recv_queue d' = bs"
      using rows_received [OF assms(1) kb hb assms(8) d row len segs batches, of wb] w(5) assms(11) by auto
    obtain s' where "stack_read j (length bs) t2 (endpoint_stack b1) = (Inr bs, s')" using read_all [OF rc(2,5)] by blast
    then have "\<exists>h. endpoint_read F j (length bs) t2 (tb, b1, wb1) = Some (Inr bs, h)"
      using flush_transparent [OF assms(1), of tb "b1\<lparr>endpoint_stack := s'\<rparr>" wb1]
      by (auto simp: endpoint_read_def then_flush_def on_stack_def tokenless_def call_bind_def)
    moreover have "\<exists>a2 wa2. receives F batches' (ta, ?a1, wa1) = Some (ta, a2, wa2) \<and>
        endpoint_marker_status (progress_marker i (send_progress c')) (ta, a2, wa2) = Acked"
      if batches': "carries pb port' batches' (map wire_bytes acks)" for batches'
    proof -
      obtain a2 wa2 c2 where rel: "receives F batches' (ta, ?a1, wa1) = Some (ta, a2, wa2)"
        "holds i c2 ?ka (ta, endpoint_stack a2)" "drained c2" "unacked c2 = []"
        "accepted_payload_bytes (send_progress c2) = accepted_payload_bytes (send_progress c')"
        "connection_token (send_progress c2) = connection_token (send_progress c')"
        using releases_received [OF assms(1) ka ha1 _ w(7) row_tracked [OF w(8) rc(3) dirs] batches', of wa1] by auto
      from released_acked [OF rel(2,4,3,5,6)] rel(1) show ?thesis by (simp add: endpoint_marker_status_def)
    qed
    ultimately show ?thesis using rc(1,4)
      by (intro exI [of _ b1] exI [of _ wb1] exI [of _ "map wire_bytes acks"]) (simp add: comp_def)
  qed
  with wr show ?thesis
    by (intro exI [of _ "progress_marker i (send_progress c')"] exI [of _ ?a1] exI [of _ wa1] exI [of _ "map wire_bytes segs"]) simp
qed

text \<open>
  The curve of \<open>example_core\<close> with a socket that posts everything; the two adapters after a
  handshake and a flush, the peers named by their odd identities, each datagram a batch of its own.
\<close>

definition posting_core :: "(bool \<times> nat, bool \<times> nat, nat, ((bool \<times> nat) \<times> bytes) list, nat) fips_core" where
  "posting_core = \<lparr>pubkey_full = \<lambda>p. p, x_only_pubkey = snd,
     serialized_prefix = \<lambda>f. if fst f then 3 else 2, negate_pubkey = \<lambda>f. (\<not> fst f, snd f),
     from_pubkey_full = \<lambda>f. f,
     send_datagram = \<lambda>p src dst bs w. (Inr (), w @ [(p, bs)]),
     recv_batch = \<lambda>n w. (None, w)\<rparr>"

lemma posting_core_simps [simp]:
  "transparent posting_core (\<lambda>w. w)" "peer_key_from posting_core (True, n) = PeerKey (False, n)"
  by (simp_all add: transparent_def peer_key_from_def posting_core_def)

lemma carries_singly: "carries i port (map (\<lambda>b. (now, [arriving i port b])) wire) wire"
  by (induction wire) (auto simp: carries_def)

lemma do_flush: "stack_reach (token, s) \<Longrightarrow> stack_reach (token, s\<lparr>outbound := []\<rparr>)"
  by (erule reach_step) (rule do_drain [of s "outbound s"], simp add: drain_outbound_def)

theorem adapters_exchange_witness:
  "\<exists>(sa :: (bool \<times> nat) peer_key stack) sb j m a1 wire b1 answers a2 wa2 h.
    endpoint_write_with_marker posting_core 1 [42] 40 (2, example_endpoint sa, []) =
      Some (Inr (1, m), (2, a1, map (Pair (False, 7)) wire)) \<and>
    receives posting_core (map (\<lambda>b. (50, [arriving (True, 3) 80 b])) wire) (2, example_endpoint sb, []) =
      Some (2, b1, map (Pair (False, 3)) answers) \<and>
    endpoint_read posting_core j 1 60 (2, b1, map (Pair (False, 3)) answers) = Some (Inr [42], h) \<and>
    receives posting_core (map (\<lambda>b. (70, [arriving (True, 7) 80 b])) answers) (2, a1, map (Pair (False, 7)) wire) =
      Some (2, a2, wa2) \<and>
    endpoint_marker_status m (2, a2, wa2) = Acked"
proof -
  let ?p = "PeerKey (False, 3 :: nat)" and ?q = "PeerKey (False, 7 :: nat)"
  obtain sa sb :: "(bool \<times> nat) peer_key stack" and j c d where x:
    "stack_reach (2, sa)" "get_conn 1 sa = Some c" "conn_key c = \<lparr>key_peer = ?q, key_local_port = 50000, key_remote_port = 80\<rparr>"
    "stack_reach (2, sb)" "get_conn j sb = Some d" "conn_key d = \<lparr>key_peer = ?p, key_local_port = 80, key_remote_port = 50000\<rparr>"
    "in_step c d" "recv_queue d = []" "1 \<le> send_window c" "1 \<le> send_buffer (config sa)"
    "accepted_payload_bytes (send_progress c) = 0"
    by (rule example_session [of ?q ?p])
  let ?a = "example_endpoint (sa\<lparr>outbound := []\<rparr>)" and ?b = "example_endpoint (sb\<lparr>outbound := []\<rparr>)"
  have a: "stack_reach (2, endpoint_stack ?a)" "get_conn 1 (endpoint_stack ?a) = Some c" "outbound (endpoint_stack ?a) = []"
      "conn_key c = \<lparr>key_peer = peer_key_from posting_core (True, 7), key_local_port = 50000, key_remote_port = 80\<rparr>"
    using do_flush [OF x(1)] x(2,3) by (simp_all add: get_conn_def)
  have b: "stack_reach (2, endpoint_stack ?b)" "get_conn j (endpoint_stack ?b) = Some d" "outbound (endpoint_stack ?b) = []"
      "conn_key d = \<lparr>key_peer = peer_key_from posting_core (True, 3), key_local_port = 80, key_remote_port = 50000\<rparr>"
    using do_flush [OF x(4)] x(5,6) by (simp_all add: get_conn_def)
  have l: "length [42 :: u8] \<le> send_window c" "length [42 :: u8] \<le> send_buffer (config (endpoint_stack ?a))"
    "accepted_payload_bytes (send_progress c) + length [42 :: u8] \<le> u128_max"
    using x(9-11) by (simp_all add: u128_max_def)
  have one: "length [42 :: u8] = 1" by simp
  obtain m a1 wire where w: "endpoint_write_with_marker posting_core 1 [42] 40 (2, ?a, []) =
      Some (Inr (1, m), (2, a1, map (Pair (False, 7)) wire))"
    and r: "\<forall>batches. carries (True, 3) 80 batches wire \<longrightarrow>
      (\<exists>b1 wb1 answers. receives posting_core batches (2, ?b, []) = Some (2, b1, wb1) \<and>
        wb1 = map (Pair (False, 3)) answers \<and>
        (\<exists>h. endpoint_read posting_core j 1 60 (2, b1, wb1) = Some (Inr [42], h)) \<and>
        (\<forall>batches'. carries (True, 7) 80 batches' answers \<longrightarrow>
          (\<exists>a2 wa2. receives posting_core batches' (2, a1, map (Pair (False, 7)) wire) = Some (2, a2, wa2) \<and>
            endpoint_marker_status m (2, a2, wa2) = Acked)))"
    using adapters_exchange [OF posting_core_simps(1) a b x(7,8) l, of 40 "[]" 80 "[]" 60 80] unfolding one by auto
  obtain b1 answers h where rb1: "receives posting_core (map (\<lambda>b. (50, [arriving (True, 3) 80 b])) wire) (2, ?b, []) =
      Some (2, b1, map (Pair (False, 3)) answers)"
    "endpoint_read posting_core j 1 60 (2, b1, map (Pair (False, 3)) answers) = Some (Inr [42], h)"
    and back_: "\<forall>batches'. carries (True, 7) 80 batches' answers \<longrightarrow>
          (\<exists>a2 wa2. receives posting_core batches' (2, a1, map (Pair (False, 7)) wire) = Some (2, a2, wa2) \<and>
            endpoint_marker_status m (2, a2, wa2) = Acked)"
    using r [rule_format, OF carries_singly [of "(True, 3)" 80 50 wire]] by blast
  obtain a2 wa2 where "receives posting_core (map (\<lambda>b. (70, [arriving (True, 7) 80 b])) answers)
      (2, a1, map (Pair (False, 7)) wire) = Some (2, a2, wa2)" "endpoint_marker_status m (2, a2, wa2) = Acked"
    using back_ [rule_format, OF carries_singly [of "(True, 7)" 80 70 answers]] by blast
  with w rb1 show ?thesis by blast
qed

end
