(* ===== verification/Session_Props.thy ===== *)
theory Session_Props
  imports Message_Props Stack_Calls
begin

text \<open>
  The end of a session between two stacks over a network that delivers: both applications close, and
  both stacks are rid of the connection.
\<close>

section \<open>Calls of a stack that holds a connection\<close>

lemma holds_close:
  assumes h: "holds cid c key (token, s)" and o: "conn_close now c = Some (update_open out, c')"
  shows "stack_close cid now s = Some (Inr (), sent c out (put_conn cid c' s))"
    and "holds cid c' key (token, sent c out (put_conn cid c' s))" and "\<forall>x \<in> set out. sends c x"
proof -
  have inv: "stack_inv {} (token, s)" and get: "get_conn cid s = Some c" and key: "conn_key c = key"
    using h by (simp_all add: holds_def)
  show segs: "\<forall>x \<in> set out. sends c x"
    using talks_conn_close [OF stack_inv_conn(4) [OF inv get] o] by (simp add: talks_def update_open_def)
  have open_: "\<not> upd_closed (update_open out)" by (simp add: update_open_def)
  note st = stored(1,2) [OF inv get step_close [OF o open_] segs]
  show "stack_close cid now s = Some (Inr (), sent c out (put_conn cid c' s))"
    using get o st(1) by (simp add: stack_close_def apply_update_def update_open_def)
  have "identity c' = identity c"
    using conn_step_effect [OF stack_inv_conn(1) [OF inv get] step_close [OF o open_]] by simp
  then have "conn_key c' = key" using conn_key_identity key by metis
  then show "holds cid c' key (token, sent c out (put_conn cid c' s))" using st(2) by (simp add: holds_def)
qed

lemma holds_ends:
  assumes h: "holds cid c key (token, s)" and good: "good_segment seg"
    and to: "seg_dst_port seg = key_local_port key" "seg_src_port seg = key_remote_port key"
    and pass: "state c \<noteq> SynSent" "\<not> contains (seg_flags seg) SYN"
    and o: "on_segment seg now (config s) c = Some (update_close [], c')"
  shows "\<exists>t. input (key_peer key) (wire_bytes seg) now (token, s) = Some (Inr (), (token, t)) \<and>
    get_conn cid t = None \<and> lookup t key = None"
proof -
  have inv: "stack_inv {} (token, s)" and get: "get_conn cid s = Some c" and key: "conn_key c = key"
    using h by (simp_all add: holds_def)
  have k: "key = \<lparr>key_peer = key_peer key, key_local_port = seg_dst_port seg, key_remote_port = seg_src_port seg\<rparr>"
    using to by (cases key) simp
  have p: "\<not> stale_handshake_ack seg c" "\<not> unexpected_syn seg c"
    using pass by (simp_all add: stale_handshake_ack_def unexpected_syn_def)
  have "identity c' = identity c"
    using on_segment_effect [OF stack_inv_conn(1) [OF inv get], of seg now] o by (auto simp: finished_def update_close_def)
  then have "apply_update cid (update_close []) (put_conn cid c' s) = (Inr (), remove_connection cid (sent c [] s))"
    using apply_update_closed [OF get, of c' "update_close []"] by (simp add: update_close_def)
  then have "input_existing (key_peer key) cid seg now s = Some (Inr (), remove_connection cid (sent c [] s))"
    using get p o by (simp add: input_existing_def update_close_def)
  moreover have "lookup s key = Some cid" using stack_inv_conn(3) [OF inv get] key by simp
  ultimately have "input (key_peer key) (wire_bytes seg) now (token, s) =
      Some (Inr (), (token, remove_connection cid (sent c [] s)))"
    using decode_wire_bytes [OF good] k [symmetric] by (simp add: input_def)
  then show ?thesis using get key
    by (auto simp: remove_connection_def sent_def get_conn_def delete_conv')
qed

section \<open>A poll that ends a connection\<close>

lemma poll_one_others:
  assumes "poll_one now i s = Some t" "i \<noteq> cid"
  shows "get_conn cid t = get_conn cid s"
proof (cases "get_conn i s")
  case (Some c)
  obtain u c' where o: "conn_poll now (config s) c = Some (u, c')"
    using assms(1) Some by (auto simp: poll_one_def split: option.splits)
  obtain r s1 where e: "emit i (upd_segments u) (put_conn i c' s) = (r, s1)" by force
  have "touches (peer c') (Some i) (put_conn i c' s) s1"
    using emit_touches [of i "put_conn i c' s" "peer c'" "Some i" "upd_segments u"] e by simp
  then have "touches (peer c') (Some i) s s1" by (rule touches_trans [OF put_touches])
  then show ?thesis
    using assms Some o e by (auto simp: poll_one_def touches_def remove_connection_table(3))
qed (use assms(1) in \<open>simp add: poll_one_def\<close>)

lemma poll_ids_end:
  assumes "stack_inv {} (token, s)" "cid \<in> set ids" "get_conn cid s = Some c"
    and "conn_poll now (config s) c = Some (u, c')" "upd_closed u"
  shows "\<exists>t. poll_ids now ids s = Some t \<and> get_conn cid t = None"
  using assms(1-4)
proof (induction ids arbitrary: s)
  case (Cons i ids)
  obtain s1 where s1: "poll_one now i s = Some s1" "stack_inv {} (token, s1)" "evolves s s1"
    using poll_one_effect [OF Cons.prems(1)] by blast
  obtain t where t: "poll_ids now ids s1 = Some t" "evolves s1 t" using poll_ids_effect [OF s1(2)] by blast
  have run: "poll_ids now (i # ids) s = Some t" using s1(1) t(1) by simp
  show ?case
  proof (cases "i = cid")
    case True
    obtain r s2 where "emit i (upd_segments u) (put_conn i c' s) = (r, s2)" by force
    then have "get_conn cid s1 = None"
      using s1(1) True Cons.prems(3,4) assms(5) by (auto simp: poll_one_def remove_connection_table(3))
    moreover have "cid < next_connection_id s1"
      using evolvesD(2) [OF s1(3)] stack_inv_conn(2) [OF Cons.prems(1,3)] by simp
    ultimately have "get_conn cid t = None" using evolvesD(3) [OF t(2), of cid] by (cases "get_conn cid t") simp_all
    then show ?thesis using run by blast
  next
    case False
    have "get_conn cid s1 = Some c" using poll_one_others [OF s1(1) False] Cons.prems(3) by simp
    with Cons.IH [OF s1(2), of] Cons.prems(2,4) False evolvesD(1) [OF s1(3)] s1(1) show ?thesis by auto
  qed
qed simp

lemma poll_ends:
  assumes "stack_inv {} (token, s)" "get_conn cid s = Some c"
    and "conn_poll now (config s) c = Some (u, c')" "upd_closed u"
  shows "\<exists>t. poll now s = Some t \<and> get_conn cid t = None"
proof -
  have "cid \<in> set (map fst (connections s))"
    using assms(2) by (auto simp: get_conn_def dest: map_of_SomeD intro: rev_image_eqI)
  then show ?thesis unfolding poll_def using assms by (intro poll_ids_end)
qed

section \<open>Both applications close\<close>

text \<open>
  C11: The end of a session over a network that delivers. Two stacks hold the two ends of an idle
  established connection in step. The stack whose application closes first queues one datagram for the
  peer; the peer reports the end of the stream, keeps what was received readable and answers; its
  application closes too, and its datagram is answered. The second stack has then forgotten the
  connection and its tuple; the first is in TIME-WAIT, with what it received still readable, until a
  \<open>poll\<close> after the configured time removes the connection there. Whatever else the stacks serve.
\<close>

theorem stacks_close:
  assumes "stack_reach (ta, sa)" "get_conn i sa = Some c"
      "conn_key c = \<lparr>key_peer = q, key_local_port = lport, key_remote_port = rport\<rparr>"
    and "stack_reach (tb, sb)" "get_conn j sb = Some d"
      "conn_key d = \<lparr>key_peer = p, key_local_port = rport, key_remote_port = lport\<rparr>"
    and "in_step c d" "0 < remote_window c" "0 < available_window c"
  shows "\<exists>f1 a1 f2 a2 sa1 sa2 sa3 sa4 sb1 sb2 sb3 c3 d1.
    stack_close i t0 sa = Some (Inr (), sa1) \<and> outbound sa1 = outbound sa @ [\<lparr>out_peer = q, out_bytes = f1\<rparr>] \<and>
    input p f1 t1 (tb, sb) = Some (Inr (), (tb, sb1)) \<and> outbound sb1 = outbound sb @ [\<lparr>out_peer = p, out_bytes = a1\<rparr>] \<and>
    get_conn j sb1 = Some d1 \<and> state d1 = CloseWait \<and> read_closed d1 \<and> recv_queue d1 = recv_queue d \<and>
    input q a1 t2 (ta, sa1) = Some (Inr (), (ta, sa2)) \<and> outbound sa2 = outbound sa1 \<and> stack_state i sa2 = Some FinWait2 \<and>
    stack_close j t3 sb1 = Some (Inr (), sb2) \<and> outbound sb2 = outbound sb1 @ [\<lparr>out_peer = p, out_bytes = f2\<rparr>] \<and>
    input q f2 t4 (ta, sa2) = Some (Inr (), (ta, sa3)) \<and> outbound sa3 = outbound sa2 @ [\<lparr>out_peer = q, out_bytes = a2\<rparr>] \<and>
    get_conn i sa3 = Some c3 \<and> state c3 = TimeWait \<and> recv_queue c3 = recv_queue c \<and>
    input p a2 t5 (tb, sb2) = Some (Inr (), (tb, sb3)) \<and> get_conn j sb3 = None \<and> lookup sb3 (conn_key d) = None \<and>
    poll (sat_add64 t4 (time_wait_ms (config sa))) sa3 = Some sa4 \<and> get_conn i sa4 = None"
proof -
  let ?ka = "\<lparr>key_peer = q, key_local_port = lport, key_remote_port = rport\<rparr>"
  let ?kb = "\<lparr>key_peer = p, key_local_port = rport, key_remote_port = lport\<rparr>"
  have ha: "holds i c ?ka (ta, sa)" and hb: "holds j d ?kb (tb, sb)"
    using stack.inv_reach [OF assms(1)] stack.inv_reach [OF assms(4)] assms(2) assms(3) assms(5) assms(6) by (simp_all add: holds_def)
  note va = holds_conn [OF ha] and vb = holds_conn [OF hb]
  obtain f1 a1 f2 a2 c1 c2 c3 d1 d2 d3 where x:
    "seg_flags f1 = FIN OR ACK" "seg_flags a1 = ACK" "seg_flags f2 = FIN OR ACK" "seg_flags a2 = ACK"
    "conn_close t0 c = Some (update_open [f1], c1)" "state c1 = FinWait1"
    "on_segment f1 t1 (config sb) d = Some (update_open [a1], d1)" "state d1 = CloseWait" "read_closed d1" "recv_queue d1 = recv_queue d"
    "on_segment a1 t2 (config sa) c1 = Some (update_open [], c2)" "state c2 = FinWait2"
    "conn_close t3 d1 = Some (update_open [f2], d2)" "state d2 = LastAck"
    "on_segment f2 t4 (config sa) c2 = Some (update_open [a2], c3)" "state c3 = TimeWait" "recv_queue c3 = recv_queue c"
    "on_segment a2 t5 (config sb) d2 = Some (update_close [], d3)"
    "conn_poll (sat_add64 t4 (time_wait_ms (config sa))) (config sa) c3 = Some (update_close [], c3)"
    using orderly_close [OF conjunct1 [OF va] conjunct2 [OF va] conjunct1 [OF vb] conjunct2 [OF vb] assms(7,8,9), of t0 t1 t2 t3 t4 t5]
    by (elim exE conjE)
  have ed: "state d \<noteq> SynSent" using assms(7) by (simp add: in_step_def)
  have kc: "peer c = q" "local_port c = lport" "remote_port c = rport" and kd: "peer d = p" "local_port d = rport" "remote_port d = lport"
    using assms(3) assms(6) by (simp_all add: conn_key_def)
  note s1 = holds_close [OF ha x(5)]
  let ?sa1 = "sent c [f1] (put_conn i c1 sa)"
  have f1: "good_segment f1" "seg_dst_port f1 = key_local_port ?kb" "seg_src_port f1 = key_remote_port ?kb" "\<not> contains (seg_flags f1) SYN"
    using s1(3) kc x(1) by (simp_all add: sends_def)
  note s2 = holds_input [OF hb f1(1-3) ed f1(4) x(7)]
  let ?sb1 = "sent d [a1] (put_conn j d1 sb)"
  have a1: "good_segment a1" "seg_dst_port a1 = key_local_port ?ka" "seg_src_port a1 = key_remote_port ?ka" "\<not> contains (seg_flags a1) SYN"
    using s2(3) kd x(2) by (simp_all add: sends_def)
  have "state c1 \<noteq> SynSent" "on_segment a1 t2 (config ?sa1) c1 = Some (update_open [], c2)" using x(6,11) by simp_all
  note s3 = holds_input [OF s1(2) a1(1-3) this(1) a1(4) this(2)]
  let ?sa2 = "sent c1 [] (put_conn i c2 ?sa1)"
  note s4 = holds_close [OF s2(2) x(13)]
  let ?sb2 = "sent d1 [f2] (put_conn j d2 ?sb1)"
  have kd1: "peer d1 = p" "local_port d1 = rport" "remote_port d1 = lport"
    using s2(2) by (simp_all add: holds_def conn_key_def)
  have f2: "good_segment f2" "seg_dst_port f2 = key_local_port ?ka" "seg_src_port f2 = key_remote_port ?ka" "\<not> contains (seg_flags f2) SYN"
    using s4(3) kd1 x(3) by (simp_all add: sends_def)
  have "state c2 \<noteq> SynSent" "on_segment f2 t4 (config ?sa2) c2 = Some (update_open [a2], c3)" using x(12,15) by simp_all
  note s5 = holds_input [OF s3(2) f2(1-3) this(1) f2(4) this(2)]
  let ?sa3 = "sent c2 [a2] (put_conn i c3 ?sa2)"
  have kc2: "peer c2 = q" "local_port c2 = lport" "remote_port c2 = rport"
    using s3(2) by (simp_all add: holds_def conn_key_def)
  have a2: "good_segment a2" "seg_dst_port a2 = key_local_port ?kb" "seg_src_port a2 = key_remote_port ?kb" "\<not> contains (seg_flags a2) SYN"
    using s5(3) kc2 x(4) by (simp_all add: sends_def)
  have "state d2 \<noteq> SynSent" "on_segment a2 t5 (config ?sb2) d2 = Some (update_close [], d3)" using x(14,18) by simp_all
  from holds_ends [OF s4(2) a2(1-3) this(1) a2(4) this(2)]
  obtain sb3 where s6: "input p (wire_bytes a2) t5 (tb, ?sb2) = Some (Inr (), (tb, sb3))" "get_conn j sb3 = None"
    "lookup sb3 (conn_key d) = None" using assms(6) by auto
  have i3: "stack_inv {} (ta, ?sa3)" "get_conn i ?sa3 = Some c3" using s5(2) by (simp_all only: holds_def snd_conv)
  have "conn_poll (sat_add64 t4 (time_wait_ms (config sa))) (config ?sa3) c3 = Some (update_close [], c3)" using x(19) by simp
  from poll_ends [OF i3 this] obtain sa4 where s7: "poll (sat_add64 t4 (time_wait_ms (config sa))) ?sa3 = Some sa4" "get_conn i sa4 = None"
    by (auto simp: update_close_def)
  have out: "outbound ?sa1 = outbound sa @ [\<lparr>out_peer = q, out_bytes = wire_bytes f1\<rparr>]"
    "outbound ?sb1 = outbound sb @ [\<lparr>out_peer = p, out_bytes = wire_bytes a1\<rparr>]" "outbound ?sa2 = outbound ?sa1"
    "outbound ?sb2 = outbound ?sb1 @ [\<lparr>out_peer = p, out_bytes = wire_bytes f2\<rparr>]"
    "outbound ?sa3 = outbound ?sa2 @ [\<lparr>out_peer = q, out_bytes = wire_bytes a2\<rparr>]"
    using kc kd kd1 kc2 by (simp_all add: sent_def packet_def)
  have st: "get_conn j ?sb1 = Some d1" "stack_state i ?sa2 = Some FinWait2" "get_conn i ?sa3 = Some c3"
    using s2(2) s3(2) i3(2) x(12) by (simp_all add: holds_def stack_state_def)
  have steps: "input p (wire_bytes f1) t1 (tb, sb) = Some (Inr (), (tb, ?sb1))"
    "input q (wire_bytes a1) t2 (ta, ?sa1) = Some (Inr (), (ta, ?sa2))"
    "input q (wire_bytes f2) t4 (ta, ?sa2) = Some (Inr (), (ta, ?sa3))"
    using s2(1) s3(1) s5(1) by simp_all
  show ?thesis
    using s1(1) out(1) steps(1) out(2) st(1) x(8-10) steps(2) out(3) st(2) s4(1) out(4) steps(3) out(5) st(3) x(16,17) s6 s7
    by (intro exI conjI)
qed

theorem stacks_close_witness:
  "\<exists>(sa :: nat stack) (sb :: nat stack) f1 a1 f2 a2 sa1 sa2 sa3 sa4 sb1 sb2 sb3 j.
    stack_close 1 40 sa = Some (Inr (), sa1) \<and> input 3 f1 50 (2, sb) = Some (Inr (), (2, sb1)) \<and>
    input 7 a1 60 (2, sa1) = Some (Inr (), (2, sa2)) \<and> stack_state 1 sa2 = Some FinWait2 \<and>
    stack_close j 70 sb1 = Some (Inr (), sb2) \<and> input 7 f2 80 (2, sa2) = Some (Inr (), (2, sa3)) \<and>
    input 3 a2 90 (2, sb2) = Some (Inr (), (2, sb3)) \<and> get_conn j sb3 = None \<and>
    poll (sat_add64 80 (time_wait_ms (config sa))) sa3 = Some sa4 \<and> get_conn 1 sa4 = None"
proof -
  obtain sa sb :: "nat stack" and j c d where x:
    "stack_reach (2, sa)" "get_conn 1 sa = Some c" "conn_key c = \<lparr>key_peer = 7, key_local_port = 50000, key_remote_port = 80\<rparr>"
    "stack_reach (2, sb)" "get_conn j sb = Some d" "conn_key d = \<lparr>key_peer = 3, key_local_port = 80, key_remote_port = 50000\<rparr>"
    "in_step c d" "0 < remote_window c" "0 < remote_window d"
    by (rule example_session [of 7 3])
  have "0 < available_window c" using x(7,9) by (simp add: in_step_def)
  from stacks_close [OF x(1-8) this, of 40 50 60 70 80 90]
  show ?thesis by (elim exE conjE) (intro exI conjI)
qed

end
