(* ===== verification/Forward_Props.thy ===== *)
theory Forward_Props
  imports Endpoint_Props
begin

text \<open>
  What the adapter adds to its stack: each call is exactly one call of the stack, whose packets are
  then handed to FIPS, in order, to the peers they are for, until one cannot be sent; a received batch
  is the sequence of its admitted datagrams. The outside is only looked at through a log of the
  datagrams it has taken.
\<close>

section \<open>The log\<close>

text \<open>\<open>log\<close> reads off the outside what was sent so far: a failed send leaves it, any other extends it.\<close>

definition records ::
  "('i, 'f, 'x, 'w, 'fe) fips_core \<Rightarrow> ('w \<Rightarrow> ('i \<times> u16 \<times> u16 \<times> bytes) list) \<Rightarrow> bool" where
  "records F log \<longleftrightarrow> (\<forall>i src dst bs w.
     case send_datagram F i src dst bs w of
       (Inl e, w') \<Rightarrow> log w' = log w
     | (Inr u, w') \<Rightarrow> log w' = log w @ [(i, src, dst, bs)])"

lemma recordsD:
  "records F log \<Longrightarrow> case send_datagram F i src dst bs w of
     (Inl e, w') \<Rightarrow> log w' = log w
   | (Inr u, w') \<Rightarrow> log w' = log w @ [(i, src, dst, bs)]"
  by (simp add: records_def)

text \<open>A queued packet as FIPS is to carry it: between the service ports, to the peer's identity.\<close>

definition addressed :: "u16 \<Rightarrow> 'i peer_key outbound \<Rightarrow> 'i \<times> u16 \<times> u16 \<times> bytes" where
  "addressed port x = (key_identity (out_peer x), port, port, out_bytes x)"

lemma send_all_log:
  assumes "records F log" "send_all F port xs w = (r, w')"
  shows "\<exists>k. log w' = log w @ map (addressed port) (take k xs) \<and>
    (if length xs \<le> k then r = Inr () else \<exists>e. r = Inl (Fips e))"
  using assms(2)
proof (induction xs arbitrary: w)
  case (Cons x xs)
  obtain q w1 where s: "send_datagram F (key_identity (out_peer x)) port port (out_bytes x) w = (q, w1)" by force
  have rec: "case q of Inl e \<Rightarrow> log w1 = log w | Inr u \<Rightarrow> log w1 = log w @ [addressed port x]"
    using recordsD [OF assms(1), where i = "key_identity (out_peer x)" and src = port and dst = port and bs = "out_bytes x" and w = w] s
    by (simp add: addressed_def split: sum.splits)
  show ?case
  proof (cases q)
    case (Inl e)
    then show ?thesis using Cons.prems s rec by (intro exI [of _ 0]) auto
  next
    case (Inr u)
    then obtain k where "log w' = log w1 @ map (addressed port) (take k xs)"
      "if length xs \<le> k then r = Inr () else \<exists>e. r = Inl (Fips e)"
      using Cons.IH [of w1] Cons.prems s by auto
    then show ?thesis using Inr rec by (intro exI [of _ "Suc k"]) simp
  qed
qed simp

section \<open>One call of the stack\<close>

text \<open>
  The result \<open>res\<close> of an adapter call on \<open>h\<close> is that of the stack call \<open>f\<close>: it panics when \<open>f\<close> does,
  an error of \<open>f\<close> is returned with nothing sent, and otherwise the first \<open>k\<close> packets of the queue were
  sent, the queue is empty, and the value is returned exactly when that was all of them.
\<close>

definition forwards ::
  "('w \<Rightarrow> ('i \<times> u16 \<times> u16 \<times> bytes) list) \<Rightarrow>
   (nat \<times> 'i peer_key stack \<Rightarrow> (stack_error, 'a, nat \<times> 'i peer_key stack) call) \<Rightarrow> ('i, 'w) host \<Rightarrow>
   ('fe adapter_error, 'a, ('i, 'w) host) call \<Rightarrow> bool" where
  "forwards log f h res \<longleftrightarrow>
     (case f (inner h) of
        None \<Rightarrow> res = None
      | Some (Inl e, ts) \<Rightarrow> \<exists>h'. res = Some (Inl (Tcp e), h') \<and> inner h' = ts \<and> log (snd (snd h')) = log (snd (snd h))
      | Some (Inr x, ts) \<Rightarrow> \<exists>r h' k. res = Some (r, h') \<and> inner h' = (fst ts, (snd ts)\<lparr>outbound := []\<rparr>) \<and>
          fsp_service_port (fst (snd h')) = fsp_service_port (fst (snd h)) \<and>
          log (snd (snd h')) = log (snd (snd h)) @
            map (addressed (fsp_service_port (fst (snd h)))) (take k (outbound (snd ts))) \<and>
          (if length (outbound (snd ts)) \<le> k then r = Inr x else \<exists>e. r = Inl (Fips e)))"

lemma flush_log:
  assumes "records F log"
  shows "\<exists>r w' k. flush F (token, a, w) = Some (r, (token, a\<lparr>endpoint_stack := (endpoint_stack a)\<lparr>outbound := []\<rparr>\<rparr>, w')) \<and>
    log w' = log w @ map (addressed (fsp_service_port a)) (take k (outbound (endpoint_stack a))) \<and>
    (if length (outbound (endpoint_stack a)) \<le> k then r = Inr () else \<exists>e. r = Inl (Fips e))"
proof -
  obtain r w' where s: "send_all F (fsp_service_port a) (outbound (endpoint_stack a)) w = (r, w')" by force
  from send_all_log [OF assms s] show ?thesis by (auto simp: flush_def drain_outbound_def s)
qed

text \<open>A value of the stack, once flushed.\<close>

lemma flushed_forwards:
  assumes "records F log" "f (inner h) = Some (Inr x, (token, s))"
    and "fsp_service_port b = fsp_service_port (fst (snd h))" "endpoint_stack b = s"
  shows "forwards log f h (call_bind (flush F (token, b, snd (snd h))) (\<lambda>u h1. Some (Inr x, h1)))"
proof -
  obtain r w' k where f: "flush F (token, b, snd (snd h)) = Some (r, (token, b\<lparr>endpoint_stack := s\<lparr>outbound := []\<rparr>\<rparr>, w'))"
    "log w' = log (snd (snd h)) @ map (addressed (fsp_service_port b)) (take k (outbound s))"
    "if length (outbound s) \<le> k then r = Inr () else \<exists>e. r = Inl (Fips e)"
    using flush_log [OF assms(1), of token b "snd (snd h)"] assms(4) by auto
  have "call_bind (flush F (token, b, snd (snd h))) (\<lambda>u h1. Some (Inr x, h1)) =
      Some (case r of Inl e \<Rightarrow> Inl e | Inr u \<Rightarrow> Inr x, (token, b\<lparr>endpoint_stack := s\<lparr>outbound := []\<rparr>\<rparr>, w'))"
    using f(1) by (simp add: call_bind_def split: sum.split)
  then show ?thesis using assms(2,3) f(2,3)
    by (auto simp: forwards_def split: if_splits intro!: exI [of _ k])
qed

lemma then_flush_forwards:
  assumes "records F log"
  shows "forwards log f h (then_flush F (on_stack f h))"
proof -
  obtain token a w where h: "h = (token, a, w)" by (metis surj_pair)
  show ?thesis
  proof (cases "f (inner h)")
    case None
    then show ?thesis by (simp add: forwards_def then_flush_def on_stack_def call_bind_def h)
  next
    case (Some res)
    obtain r token' s where r: "res = (r, (token', s))" by (metis surj_pair)
    show ?thesis
    proof (cases r)
      case (Inl e)
      then show ?thesis using Some r by (auto simp: forwards_def then_flush_def on_stack_def call_bind_def h)
    next
      case (Inr x)
      have "then_flush F (on_stack f h) =
          call_bind (flush F (token', a\<lparr>endpoint_stack := s\<rparr>, snd (snd h))) (\<lambda>u h1. Some (Inr x, h1))"
        using Some r Inr by (simp add: then_flush_def on_stack_def call_bind_def h)
      then show ?thesis using flushed_forwards [OF assms, of f h x token' s "a\<lparr>endpoint_stack := s\<rparr>"] Some r Inr by (simp add: h)
    qed
  qed
qed

section \<open>A batch\<close>

text \<open>The datagrams of a batch fed to the stack one after the other, with the result of each.\<close>

fun fed ::
  "('i, 'f, 'x, 'w, 'fe) fips_core \<Rightarrow> nat \<Rightarrow> 'i datagram list \<Rightarrow> nat \<times> 'i peer_key stack \<Rightarrow>
   ((stack_error + unit) list \<times> nat \<times> 'i peer_key stack) option" where
  "fed F now [] ts = Some ([], ts)"
| "fed F now (d # ds) ts =
     (case input (peer_key_from F (source_peer d)) (dg_data d) now ts of
        None \<Rightarrow> None
      | Some (r, ts1) \<Rightarrow> map_option (\<lambda>(rs, ts2). (r # rs, ts2)) (fed F now ds ts1))"

text \<open>How a report counts the results.\<close>

definition malformed_result :: "stack_error + unit \<Rightarrow> bool" where
  "malformed_result r \<longleftrightarrow> (\<exists>e. r = Inl (Wire e))"

definition tally :: "nat \<Rightarrow> nat \<Rightarrow> (stack_error + unit) list \<Rightarrow> receive_report" where
  "tally n refused rs = \<lparr>
     datagrams = n,
     processed = length (filter (\<lambda>r. r = Inr ()) rs),
     malformed = length (filter malformed_result rs),
     connection_limited = refused + length (filter (\<lambda>r. r = Inl ConnectionLimit) rs),
     other_errors = length (filter (\<lambda>r. r \<noteq> Inr () \<and> \<not> malformed_result r \<and> r \<noteq> Inl ConnectionLimit) rs)\<rparr>"

definition fed_report ::
  "('i, 'f, 'x, 'w, 'fe) fips_core \<Rightarrow> nat \<Rightarrow> ('i \<Rightarrow> bytes \<Rightarrow> bool) \<Rightarrow> 'i datagram list \<Rightarrow> nat \<times> 'i peer_key stack \<Rightarrow>
   (stack_error, receive_report, nat \<times> 'i peer_key stack) call" where
  "fed_report F now adm ds ts =
     (let admitted = filter (\<lambda>d. adm (source_peer d) (dg_data d)) ds
      in map_option (\<lambda>(rs, ts1). (Inr (tally (length ds) (length ds - length admitted) rs), ts1)) (fed F now admitted ts))"

definition plus_report :: "receive_report \<Rightarrow> receive_report \<Rightarrow> receive_report" where
  "plus_report a b = \<lparr>datagrams = datagrams a, processed = processed a + processed b, malformed = malformed a + malformed b,
     connection_limited = connection_limited a + connection_limited b, other_errors = other_errors a + other_errors b\<rparr>"

lemma count_result_tally: "plus_report (count_result r a) (tally n k rs) = plus_report a (tally n k (r # rs))"
  by (auto simp: count_result_def tally_def plus_report_def malformed_result_def split: sum.splits stack_error.splits)

lemma feed_fed:
  "feed F (\<lambda>p bs w. (adm p bs, w)) now ds report (token, a, w) =
     map_option (\<lambda>(rs, (token', s)). (plus_report report (tally n (length (filter (\<lambda>d. \<not> adm (source_peer d) (dg_data d)) ds)) rs),
         (token', a\<lparr>endpoint_stack := s\<rparr>, w)))
       (fed F now (filter (\<lambda>d. adm (source_peer d) (dg_data d)) ds) (token, endpoint_stack a))"
proof (induction ds arbitrary: report token a)
  case Nil
  have "a\<lparr>endpoint_stack := endpoint_stack a\<rparr> = a" by simp
  then show ?case by (simp add: plus_report_def tally_def)
next
  case (Cons d ds)
  show ?case
  proof (cases "adm (source_peer d) (dg_data d)")
    case True
    then show ?thesis
      by (auto simp: Cons.IH count_result_tally map_option_case split: option.split prod.split)
  next
    case False
    have "plus_report (report\<lparr>connection_limited := connection_limited report + 1\<rparr>) (tally n k rs) =
        plus_report report (tally n (Suc k) rs)" for k rs
      by (simp add: plus_report_def tally_def)
    with False show ?thesis by (simp add: Cons.IH)
  qed
qed

lemma receive_forwards:
  assumes "records F log" "receive_batch (fst (snd h)) \<noteq> []"
  shows "forwards log (fed_report F (clock (snd (snd h))) adm (receive_batch (fst (snd h)))) h
    (receive_report_filtered_datagrams_with_clock F clock (\<lambda>p bs w. (adm p bs, w)) h)"
proof -
  obtain token a w where h: "h = (token, a, w)" by (metis surj_pair)
  let ?ds = "receive_batch a" and ?a = "a\<lparr>receive_batch := []\<rparr>"
  let ?in = "filter (\<lambda>d. adm (source_peer d) (dg_data d)) ?ds" and ?no = "filter (\<lambda>d. \<not> adm (source_peer d) (dg_data d)) ?ds"
  have "length ?in + length ?no = length ?ds" by (rule sum_length_filter_compl)
  then have out: "length ?ds - length ?in = length ?no" by simp
  let ?zero = "\<lparr>datagrams = length ?ds, processed = 0, malformed = 0, connection_limited = 0, other_errors = 0\<rparr>"
  have plus: "plus_report ?zero (tally (length ?ds) (length ?no) rs) = tally (length ?ds) (length ?no) rs" for rs
    by (simp add: plus_report_def tally_def)
  note run = feed_fed [of F adm "clock w" ?ds ?zero token ?a w "length ?ds"]
  show ?thesis
  proof (cases "fed F (clock w) ?in (token, endpoint_stack a)")
    case None
    then show ?thesis using assms(2) run
      by (simp add: h forwards_def fed_report_def receive_report_filtered_datagrams_with_clock_def wait_for_input_def
          call_bind_def Let_def)
  next
    case (Some res)
    obtain rs token' s where r: "res = (rs, (token', s))" by (metis surj_pair)
    let ?report = "tally (length ?ds) (length ?no) rs"
    have "receive_report_filtered_datagrams_with_clock F clock (\<lambda>p bs w. (adm p bs, w)) h =
        call_bind (flush F (token', ?a\<lparr>endpoint_stack := s\<rparr>, snd (snd h))) (\<lambda>v h3. Some (Inr ?report, h3))"
      using assms(2) run Some r plus
      by (simp add: h receive_report_filtered_datagrams_with_clock_def wait_for_input_def call_bind_def Let_def)
    moreover have "fed_report F (clock w) adm ?ds (inner h) = Some (Inr ?report, (token', s))"
      using Some r out by (simp add: h fed_report_def Let_def)
    ultimately show ?thesis
      using flushed_forwards [OF assms(1), of "fed_report F (clock w) adm ?ds" h ?report token' s "?a\<lparr>endpoint_stack := s\<rparr>"]
      by (simp add: h)
  qed
qed

section \<open>The adapter forwards its stack\<close>

text \<open>
  C18: The adapter is its stack with the queue forwarded. Writing (with or without a marker), reading,
  closing, aborting, aborting a peer and polling are each exactly that one call of the stack, on the
  normalised peer; receiving is feeding the admitted datagrams of the batch in order, each from its
  normalised source, with every result counted under its kind and the refused ones as
  \<open>connection_limited\<close>. An error of the stack is returned and nothing is sent. Otherwise the packets
  queued are handed to FIPS in order, each once, between the service ports and to the identity it is
  for, the queue is empty afterwards, and the value is returned exactly when all of them could be
  sent; after a failed send the rest is dropped and its error returned.
\<close>

theorem endpoint_forwards_stack:
  assumes "records F log"
  shows "forwards log (tokenless (stack_write cid bs now)) h (endpoint_write F cid bs now h) \<and>
    forwards log (tokenless (write_with_marker cid bs now)) h (endpoint_write_with_marker F cid bs now h) \<and>
    forwards log (tokenless (\<lambda>s. Some (stack_read cid m now s))) h (endpoint_read F cid m now h) \<and>
    forwards log (tokenless (stack_close cid now)) h (endpoint_close F cid now h) \<and>
    forwards log (tokenless (\<lambda>s. Some (abort cid s))) h (endpoint_abort F cid h) \<and>
    forwards log (tokenless (\<lambda>s. Some (abort_peer (peer_key_from F p) s))) h (endpoint_abort_peer F p h) \<and>
    forwards log (tokenless (\<lambda>s. map_option (\<lambda>t. (Inr (), t)) (poll now s))) h (endpoint_poll F now h) \<and>
    (receive_batch (fst (snd h)) \<noteq> [] \<longrightarrow>
      forwards log (fed_report F (clock (snd (snd h))) adm (receive_batch (fst (snd h)))) h
        (receive_report_filtered_datagrams_with_clock F clock (\<lambda>p bs w. (adm p bs, w)) h))"
proof -
  have poll: "(\<lambda>s. case poll now s of None \<Rightarrow> None | Some t \<Rightarrow> Some (Inr (), t)) =
      (\<lambda>s. map_option (\<lambda>t. (Inr (), t)) (poll now s) :: ((stack_error + unit) \<times> 'a peer_key stack) option)"
    by (auto simp: fun_eq_iff split: option.split)
  show ?thesis
    unfolding endpoint_write_def endpoint_write_with_marker_def endpoint_read_def endpoint_close_def endpoint_abort_def
      endpoint_abort_peer_def endpoint_poll_def poll
    using receive_forwards [OF assms] by (intro conjI impI then_flush_forwards [OF assms]) blast
qed

text \<open>A socket with a log that takes two datagrams and then fails.\<close>

definition logging_core :: "(bool \<times> nat, bool \<times> nat, nat, ((bool \<times> nat) \<times> u16 \<times> u16 \<times> bytes) list, nat) fips_core" where
  "logging_core = \<lparr>pubkey_full = \<lambda>p. p, x_only_pubkey = snd,
     serialized_prefix = \<lambda>f. if fst f then 3 else 2, negate_pubkey = \<lambda>f. (\<not> fst f, snd f),
     from_pubkey_full = \<lambda>f. f,
     send_datagram = \<lambda>p src dst bs w. if length w < 2 then (Inr (), w @ [(p, src, dst, bs)]) else (Inl 13, w),
     recv_batch = \<lambda>n w. (None, w)\<rparr>"

theorem endpoint_forwards_stack_witness:
  "forwards (\<lambda>w. w) (tokenless (\<lambda>s. Some (abort_peer (PeerKey (False, 7)) s))) (1, example_endpoint port_80_stack, [])
      (endpoint_abort_peer logging_core (True, 7) (1, example_endpoint port_80_stack, [])) \<and>
   forwards (\<lambda>w. w) (fed_report logging_core 5 (\<lambda>p bs. p = (True, 7)) [example_datagram]) (1, example_endpoint port_80_stack, [])
      (receive_report_filtered_datagrams_with_clock logging_core (\<lambda>w. 5) (\<lambda>p bs w. (p = (True, 7), w))
        (1, example_endpoint port_80_stack, []))"
proof -
  have "records logging_core (\<lambda>w. w)" by (simp add: records_def logging_core_def)
  note all = endpoint_forwards_stack [OF this, where h = "(1, example_endpoint port_80_stack, [])" and p = "(True, 7)"
      and clock = "\<lambda>w. 5" and adm = "\<lambda>p bs. p = (True, 7)"]
  moreover have "peer_key_from logging_core (True, 7) = PeerKey (False, 7)" by (simp add: peer_key_from_def logging_core_def)
  ultimately show ?thesis by simp
qed

end
