(* ===== verification/Component_Props.thy ===== *)
theory Component_Props
  imports Wire Rtt Reno
begin

text \<open>
  Properties of the components below the connection: the wire codec, the sequence arithmetic, the
  retransmission timer and the congestion window. Each rests on the contract its component
  interprets (\<open>codec\<close>, \<open>stream_order\<close>, \<open>timer\<close>, \<open>congestion\<close>).
\<close>

section \<open>The wire codec\<close>

text \<open>
  C6: The segments that survive the wire are exactly the well-formed ones: encoding a segment
  succeeds with bytes that decode to the same segment if and only if its ports are not zero, its
  acknowledgment number is present exactly under ACK, its flags are supported, its options are
  encodable, and they fit the header.
\<close>

theorem wire_round_trip: "(\<exists>bs. encode s = Inr bs \<and> decode bs = Inr s) \<longleftrightarrow> good_segment s"
  using wire.round_trip [of s] decode_good [of _ s] by blast

text \<open>A datagram that ends early.\<close>

lemma fixed_header_offset: "from_be16 ((fixed_header s w @ rest) ! 12) ((fixed_header s w @ rest) ! 13) = w"
  by (simp add: fixed_header_def be16_def be32_def)

lemma header_offset:
  assumes "good_segment s"
  shows "unat (drop_bit 12 (from_be16 (wire_bytes s ! 12) (wire_bytes s ! 13))) * 4 = header_len s"
proof -
  let ?w = "push_bit 12 ((of_nat (header_len s) :: u16) div 4) OR seg_flags s"
  have "from_be16 (wire_bytes s ! 12) (wire_bytes s ! 13) = ?w"
    unfolding wire_bytes_def by (rule fixed_header_offset)
  with offset_word [OF assms] show ?thesis by simp
qed

lemma header_ports:
  "from_be16 (wire_bytes s ! 0) (wire_bytes s ! 1) = seg_src_port s"
  "from_be16 (wire_bytes s ! 2) (wire_bytes s ! 3) = seg_dst_port s"
  by (simp_all add: wire_bytes_def fixed_header_def be16_def be32_def)

lemma wire_bytes_payload: "wire_bytes (s\<lparr>seg_payload := p\<rparr>) = take (header_len s) (wire_bytes s) @ p"
proof -
  have "wire_bytes s = take (header_len s) (wire_bytes s) @ drop (header_len s) (wire_bytes s)" by simp
  have len: "length (wire_bytes s) = header_len s + length (seg_payload s)" by (rule length_wire_bytes)
  define h where "h = fixed_header s (push_bit 12 ((of_nat (header_len s) :: u16) div 4) OR seg_flags s)
     @ concat (map option_bytes (seg_options s))
     @ replicate (header_len s - HEADER_LEN - sum_list (map encoded_len (seg_options s))) 0"
  have bs: "wire_bytes s = h @ seg_payload s" by (simp add: wire_bytes_def h_def)
  then have "length h = header_len s" using len by simp
  moreover have "wire_bytes (s\<lparr>seg_payload := p\<rparr>) = h @ p"
    by (simp add: wire_bytes_def h_def fixed_header_def header_len_def)
  ultimately show ?thesis using bs by simp
qed

text \<open>
  A datagram cut short never yields a wrong header: of any prefix of an encoded segment the
  decoder reports \<open>Truncated\<close> inside the fixed header, \<open>InvalidHeaderLength\<close> inside the options,
  and otherwise it returns the segment with the payload cut at the same place.
\<close>

theorem truncated_decode:
  assumes "good_segment s"
  shows "decode (take n (wire_bytes s)) =
    (if n < 20 then Inl Truncated
     else if n < header_len s then Inl InvalidHeaderLength
     else Inr (s\<lparr>seg_payload := take (n - header_len s) (seg_payload s)\<rparr>))"
proof -
  have hl: "20 \<le> header_len s" "header_len s \<le> 60"
    using header_len_cases [OF assms] by (fastforce, fastforce)
  have len: "length (wire_bytes s) = header_len s + length (seg_payload s)" by (rule length_wire_bytes)
  consider (fixed) "n < 20" | (options) "20 \<le> n" "n < header_len s" | (payload) "header_len s \<le> n"
    by linarith
  then show ?thesis
  proof cases
    case fixed
    then have "length (take n (wire_bytes s)) < HEADER_LEN" by (simp add: HEADER_LEN_def)
    then show ?thesis using fixed unfolding decode_def by (simp only: if_True)
  next
    case options
    have "seg_src_port s \<noteq> 0" "seg_dst_port s \<noteq> 0" using assms by (simp_all add: good_segment_def)
    with options hl len show ?thesis
      by (simp add: decode_def Let_def HEADER_LEN_def header_ports [simplified] header_offset [OF assms])
  next
    case payload
    let ?s = "s\<lparr>seg_payload := take (n - header_len s) (seg_payload s)\<rparr>"
    have drop: "drop (header_len s) (wire_bytes s) = seg_payload s"
      using arg_cong [OF wire_bytes_payload [where s = s and p = "seg_payload s"], of "drop (header_len s)"] len by simp
    have "take n (wire_bytes s) = take (header_len s) (wire_bytes s) @
        take (n - header_len s) (drop (header_len s) (wire_bytes s))"
      using payload by (simp add: take_add flip: take_add)
    then have "take n (wire_bytes s) = wire_bytes ?s"
      by (simp only: drop wire_bytes_payload)
    moreover have "good_segment ?s" using assms by (simp add: good_segment_def)
    ultimately show ?thesis using decode_wire_bytes [of ?s] payload hl by simp
  qed
qed

theorem truncated_decode_witness:
  "decode (take 21 (wire_bytes (segment_new 5 7 9))) =
    (if 21 < (20 :: nat) then Inl Truncated
     else if 21 < header_len (segment_new 5 7 9) then Inl InvalidHeaderLength
     else Inr ((segment_new 5 7 9)\<lparr>seg_payload := take (21 - header_len (segment_new 5 7 9))
       (seg_payload (segment_new 5 7 9))\<rparr>))"
  by (rule truncated_decode) (simp add: good_segment_def segment_new_def flags_empty_def contains_def ACK_def)

section \<open>Sequence arithmetic\<close>

text \<open>
  C36: The wrapping comparisons are the order of the stream: for two positions of a stream less than
  half the number circle apart, however often the numbers have wrapped, \<open>before\<close>, \<open>after\<close>,
  \<open>before_or_equal\<close> and \<open>distance\<close> compute the comparison and the difference of the positions, and
  \<open>in_closed_interval\<close> the interval.
\<close>

theorem comparisons_are_stream_order:
  assumes "m < n + 2 ^ 31" "n < m + 2 ^ 31" "lo \<le> m" "m < lo + 2 ^ 31" "lo \<le> n"
  shows "before (seq_at b m) (seq_at b n) = (m < n) \<and> after (seq_at b m) (seq_at b n) = (n < m) \<and>
    before_or_equal (seq_at b m) (seq_at b n) = (m \<le> n) \<and>
    distance (seq_at b lo) (seq_at b m) = m - lo \<and>
    in_closed_interval (seq_at b m) (seq_at b lo) (seq_at b n) = (lo \<le> m \<and> m \<le> n)"
proof -
  have lt: "before (seq_at b m) (seq_at b n) = (m < n)" "before (seq_at b n) (seq_at b m) = (n < m)"
    "before (seq_at b m) (seq_at b lo) = (m < lo)"
    using assms by (auto simp: sq.lt_pos)
  have eq: "seq_at b m = seq_at b n \<longleftrightarrow> m = n" using assms by (intro seq_at_inj) auto
  have dist: "distance (seq_at b lo) (seq_at b m) = m - lo" using assms by (intro sq.dist_pos) auto
  show ?thesis
    using lt eq dist assms(3) by (auto simp: after_def before_or_equal_def in_closed_interval_def)
qed

text \<open>Two positions on either side of a wrap of the number.\<close>

theorem comparisons_are_stream_order_witness:
  "before (seq_at 0xFFFFFFF0 10) (seq_at 0xFFFFFFF0 20) = ((10 :: nat) < 20) \<and>
   after (seq_at 0xFFFFFFF0 10) (seq_at 0xFFFFFFF0 20) = ((20 :: nat) < 10) \<and>
   before_or_equal (seq_at 0xFFFFFFF0 10) (seq_at 0xFFFFFFF0 20) = ((10 :: nat) \<le> 20) \<and>
   distance (seq_at 0xFFFFFFF0 3) (seq_at 0xFFFFFFF0 10) = 10 - 3 \<and>
   in_closed_interval (seq_at 0xFFFFFFF0 10) (seq_at 0xFFFFFFF0 3) (seq_at 0xFFFFFFF0 20) =
     ((3 :: nat) \<le> 10 \<and> (10 :: nat) \<le> 20)"
  by (rule comparisons_are_stream_order) simp_all

section \<open>The retransmission timer\<close>

text \<open>
  The reference: the estimator of RFC 6298 on unbounded numbers, an optional pair of smoothed
  round-trip time and variation, the timeout, and the number of timeouts in a row.
\<close>

datatype timer_event = Sampled nat | TimedOut | Retransmitted u32

type_synonym rfc_state = "(nat \<times> nat) option \<times> nat \<times> nat"

fun rfc_estimate :: "(nat \<times> nat) option \<Rightarrow> nat \<Rightarrow> nat \<times> nat" where
  "rfc_estimate None sample = (sample, sample div 2)"
| "rfc_estimate (Some (smoothed, variation)) sample =
     (div_ceil (7 * smoothed + sample) 8, div_ceil (3 * variation + abs_diff smoothed sample) 4)"

fun rfc_event :: "nat \<Rightarrow> nat \<Rightarrow> timer_event \<Rightarrow> rfc_state \<Rightarrow> rfc_state" where
  "rfc_event lo hi (Sampled sample) (estimate, rto, row) =
     (let (smoothed, variation) = rfc_estimate estimate (max sample 1)
      in (Some (smoothed, variation), clamp (smoothed + max 5 (4 * variation)) lo hi, 0))"
| "rfc_event lo hi TimedOut (estimate, rto, row) =
     (if row < 2 then (estimate, min (2 * rto) hi, row + 1) else (None, min (2 * rto) hi, 0))"
| "rfc_event lo hi (Retransmitted e) st = st"

fun timer_run :: "timer_event \<Rightarrow> rtt_estimator \<Rightarrow> rtt_estimator" where
  "timer_run (Sampled sample) r = rtt_sample sample r"
| "timer_run TimedOut r = rtt_on_timeout r"
| "timer_run (Retransmitted e) r = on_retransmit e r"

definition rfc_view :: "rtt_estimator \<Rightarrow> rfc_state" where
  "rfc_view r = (if have_measurement r then Some (srtt_ms r, rttvar_ms r) else None,
     timeout_ms r, consecutive_rtos r)"

definition plausible :: "timer_event \<Rightarrow> bool" where
  "plausible e \<longleftrightarrow> (case e of Sampled sample \<Rightarrow> sample \<le> 2 ^ 60 | _ \<Rightarrow> True)"

definition timer_inv :: "nat \<Rightarrow> nat \<Rightarrow> rtt_estimator \<Rightarrow> bool" where
  "timer_inv lo hi r \<longleftrightarrow> rtt_ok lo hi r \<and> rtt_small r \<and> consecutive_rtos r \<le> 2"

lemma sampled_view:
  assumes "timer_inv lo hi r" "s \<le> 2 ^ 60"
  shows "rfc_view (rtt_sample s r) = rfc_event lo hi (Sampled s) (rfc_view r)"
proof -
  let ?s = "max s 1"
  let ?r = "sample_measure ?s r"
  have small: "rtt_small r" and ok: "rtt_ok lo hi r" using assms(1) by (simp_all add: timer_inv_def)
  have s: "?s \<le> 2 ^ 60" using assms(2) by simp
  have est: "(srtt_ms ?r, rttvar_ms ?r) =
      rfc_estimate (if have_measurement r then Some (srtt_ms r, rttvar_ms r) else None) ?s"
    using sample_measure_small [OF small _ s]
    by (cases "have_measurement r") (simp_all add: sample_measure_def mult.commute)
  have "rtt_small (rtt_sample s r)" using rtt_small_sample [OF small assms(2)] .
  then have b: "srtt_ms ?r \<le> 2 ^ 60" "rttvar_ms ?r \<le> 2 ^ 60"
    by (simp_all add: rtt_small_def rtt_sample_def Let_def)
  have m: "sat_mul64 (rttvar_ms ?r) 4 = 4 * rttvar_ms ?r"
    using b(2) by (simp add: sat_mul64_def u64_max_def)
  have "sat_add64 (srtt_ms ?r) (max 5 (4 * rttvar_ms ?r)) = srtt_ms ?r + max 5 (4 * rttvar_ms ?r)"
    using b by (simp add: sat_add64_def u64_max_def)
  moreover have "have_measurement ?r" by (simp add: sample_measure_def)
  ultimately show ?thesis
    using ok est [symmetric] m
    by (simp add: rfc_view_def rtt_sample_def Let_def timeout_ms_def rtt_ok_def)
qed

lemma timed_out_view:
  assumes "timer_inv lo hi r"
  shows "rfc_view (rtt_on_timeout r) = rfc_event lo hi TimedOut (rfc_view r)"
proof -
  have "rtt_ok lo hi r" "consecutive_rtos r \<le> 2" using assms by (simp_all add: timer_inv_def)
  then have "timeout_ms (rtt_on_timeout r) = min (2 * timeout_ms r) hi"
    "sat_add8 (consecutive_rtos r) 1 = consecutive_rtos r + 1"
    using rto.backoff_doubles by (auto simp: sat_add8_def u8_max_def)
  then show ?thesis
    by (cases "consecutive_rtos r < 2")
      (simp_all add: rfc_view_def rtt_on_timeout_def Let_def timeout_ms_def)
qed

lemma timer_run_inv:
  assumes "timer_inv lo hi r" "plausible e"
  shows "timer_inv lo hi (timer_run e r)"
proof (cases e)
  case (Sampled s)
  then show ?thesis
    using assms rto.ok_sampled rtt_small_sample [of r s]
    by (auto simp: timer_inv_def plausible_def rtt_sample_def Let_def)
next
  case TimedOut
  have "rtt_small (rtt_on_timeout r) = rtt_small r"
    by (simp add: rtt_small_def rtt_on_timeout_def Let_def)
  moreover have "consecutive_rtos (rtt_on_timeout r) \<le> 2"
    by (simp add: rtt_on_timeout_def Let_def)
  ultimately show ?thesis using assms rto.ok_backoff TimedOut by (auto simp: timer_inv_def)
next
  case (Retransmitted q)
  then show ?thesis using assms by (simp add: timer_inv_def rtt_small_def on_retransmit_def rtt_ok_def)
qed

lemma timer_run_view:
  assumes "timer_inv lo hi r" "plausible e"
  shows "rfc_view (timer_run e r) = rfc_event lo hi e (rfc_view r)"
proof (cases e)
  case (Retransmitted q)
  then show ?thesis by (simp add: rfc_view_def on_retransmit_def timeout_ms_def)
qed (use assms sampled_view timed_out_view in \<open>simp_all add: plausible_def\<close>)

text \<open>
  C34: The 64-bit estimator computes RFC 6298: for every sequence of samples of up to \<open>2 ^ 60\<close>
  milliseconds, timeouts and retransmissions, its smoothed time, its variation and its timeout are
  those of the reference on unbounded numbers, so that no multiplication of \<open>sample\<close> wraps.
\<close>

theorem estimator_is_rfc6298:
  assumes "lo \<le> hi" "hi \<le> u64_max" "list_all plausible events"
  shows "rfc_view (fold timer_run events (rtt_new initial lo hi)) =
    fold (rfc_event lo hi) events (None, clamp initial lo hi, 0)"
proof -
  have "rfc_view (fold timer_run events r) = fold (rfc_event lo hi) events (rfc_view r)"
    if "timer_inv lo hi r" for r
    using that assms(3) by (induction events arbitrary: r) (auto simp: timer_run_view timer_run_inv)
  moreover have "timer_inv lo hi (rtt_new initial lo hi)"
    using assms(1,2) rtt_ok_new by (simp add: timer_inv_def rtt_small_def) (simp add: rtt_new_def)
  ultimately show ?thesis by (simp add: rfc_view_def rtt_new_def timeout_ms_def)
qed

theorem estimator_is_rfc6298_witness:
  "rfc_view (fold timer_run [Sampled 100, Sampled 300, TimedOut] (rtt_new 1000 200 60000)) =
    fold (rfc_event 200 60000) [Sampled 100, Sampled 300, TimedOut] (None, clamp 1000 200 60000, 0)"
  by (rule estimator_is_rfc6298) (simp_all add: u64_max_def plausible_def)

text \<open>
  Exponential backoff is exact: after \<open>n\<close> timeouts in a row the timeout is the original one
  times \<open>2 ^ n\<close>, cut at the configured maximum, and it never leaves the configured bounds.
\<close>

theorem backoff_exact:
  assumes "rtt_ok lo hi r"
  shows "timeout_ms ((rtt_on_timeout ^^ n) r) = min (2 ^ n * timeout_ms r) hi \<and>
    lo \<le> timeout_ms ((rtt_on_timeout ^^ n) r) \<and> timeout_ms ((rtt_on_timeout ^^ n) r) \<le> hi"
  using rto.iterate_timeout [OF assms, of n] rto.ok_bounds [OF rto.ok_iterate [OF assms, of n]] by simp

theorem backoff_exact_witness:
  "timeout_ms ((rtt_on_timeout ^^ 9) (rtt_new 1000 200 60000)) =
      min (2 ^ 9 * timeout_ms (rtt_new 1000 200 60000)) 60000 \<and>
    200 \<le> timeout_ms ((rtt_on_timeout ^^ 9) (rtt_new 1000 200 60000)) \<and>
    timeout_ms ((rtt_on_timeout ^^ 9) (rtt_new 1000 200 60000)) \<le> 60000"
  by (rule backoff_exact, rule rtt_ok_new) (simp_all add: u64_max_def)

section \<open>The congestion window\<close>

text \<open>
  C35: The congestion window never falls below one segment, whatever acknowledgments, losses and
  timeouts happen; a loss outside fast recovery and a timeout outside its own recovery set the
  threshold to half of the flight (two segments at least), during which a further loss or timeout
  leaves it; a timeout takes the window down to one segment, and outside fast recovery one
  acknowledgment opens the window by at most one segment.
\<close>

theorem reno_window_laws:
  assumes "reno_ok r" "reno_event\<^sup>*\<^sup>* r r'"
  shows "reno_mss r \<le> reno_window r' \<and> 0 < reno_window r' \<and>
    reno_window (reno_on_timeout n r') = reno_mss r \<and>
    ssthresh (reno_on_timeout n r') = (if in_rto_recovery r' then ssthresh r' else max (n div 2) (2 * reno_mss r)) \<and>
    (if in_fast_recovery r' then ssthresh (reno_on_fast_loss n r') = ssthresh r'
     else reno_window (reno_on_ack n r') \<le> reno_window r' + reno_mss r \<and>
       ssthresh (reno_on_fast_loss n r') = max (n div 2) (2 * reno_mss r))"
proof -
  have ok: "reno_ok r'" and size: "reno_mss r' = reno_mss r" using rn.ok_events [OF assms(2,1)] by simp_all
  have "sat_mul64 (reno_mss r') 2 = 2 * reno_mss r'"
    using ok by (simp add: sat_mul64_def reno_ok_def u16_max_def u64_max_def)
  moreover have "in_rto_recovery r' \<Longrightarrow> ssthresh (reno_on_timeout n r') = ssthresh r'" by (simp add: reno_on_timeout_def)
  ultimately show ?thesis
    using size reno_window_on_ack_growth [OF ok, of n] reno_ssthresh_loss [of r' n]
      rn.window_never_closes [OF assms(2,1)] reno_window_timeout [of n r']
    by (simp add: reno_on_fast_loss_def)
qed

theorem reno_window_laws_witness:
  "reno_mss (reno_new 1000) \<le> reno_window (reno_on_ack 500 (reno_new 1000)) \<and>
    0 < reno_window (reno_on_ack 500 (reno_new 1000)) \<and>
    reno_window (reno_on_timeout 9000 (reno_on_ack 500 (reno_new 1000))) = reno_mss (reno_new 1000) \<and>
    ssthresh (reno_on_timeout 9000 (reno_on_ack 500 (reno_new 1000))) =
      (if in_rto_recovery (reno_on_ack 500 (reno_new 1000)) then ssthresh (reno_on_ack 500 (reno_new 1000))
       else max (9000 div 2) (2 * reno_mss (reno_new 1000))) \<and>
    (if in_fast_recovery (reno_on_ack 500 (reno_new 1000))
     then ssthresh (reno_on_fast_loss 9000 (reno_on_ack 500 (reno_new 1000))) =
       ssthresh (reno_on_ack 500 (reno_new 1000))
     else reno_window (reno_on_ack 9000 (reno_on_ack 500 (reno_new 1000))) \<le>
         reno_window (reno_on_ack 500 (reno_new 1000)) + reno_mss (reno_new 1000) \<and>
       ssthresh (reno_on_fast_loss 9000 (reno_on_ack 500 (reno_new 1000))) =
         max (9000 div 2) (2 * reno_mss (reno_new 1000)))"
  by (rule reno_window_laws [OF reno_ok_new r_into_rtranclp [of reno_event]])
    (simp_all add: u16_max_def reno_event.intros)

end
