(* ===== verification/Driver.thy ===== *)
theory Driver
  imports Stack Display
begin

text \<open>
  The interop driver of \<open>rust/interop-driver/src/main.rs\<close>: a loop that reads one JSON command per line,
  runs it on a stack whose peers are strings, and answers with one JSON value. The parser of a line
  (\<open>serde_json\<close> with the derived \<open>Deserialize\<close> of \<open>Command\<close>) is a parameter; a JSON value is the data type of
  that name, an object the list of its members. A Rust string is the list of its bytes; an operation returns \<open>None\<close> where the code panics.
\<close>

section \<open>Data\<close>

datatype json =
    Null
  | Boolean bool
  | Number nat
  | Text string
  | Array "json list"
  | Object "(string \<times> json) list"

datatype command =
    Configure nat nat "u64 option" "nat option" "nat option" "nat option" "nat option"
  | Reserve nat "string list"
  | Listen u16
  | Connect string u16 u16 u32 nat
  | AutoConnect string u16 nat
  | Input string string nat
  | Poll nat
  | Accept u16
  | Write nat string nat
  | WriteWithMarker nat string nat
  | MarkerStatus nat
  | Read nat nat nat
  | Close nat nat
  | State nat

record driver =
  drv_stack :: "string stack"
  drv_markers :: "nat \<rightharpoonup> send_marker"
  next_marker :: nat

section \<open>Hexadecimal\<close>

definition encode_hex :: "bytes \<Rightarrow> string" where
  "encode_hex bs = concat (map (\<lambda>b. [digit_char (unat b div 16), digit_char (unat b mod 16)]) bs)"

definition hex_digit :: "char \<Rightarrow> nat option" where
  "hex_digit c =
     (let n = of_char c :: nat
      in if 48 \<le> n \<and> n \<le> 57 then Some (n - 48)
         else if 97 \<le> n \<and> n \<le> 102 then Some (n - 87)
         else if 65 \<le> n \<and> n \<le> 70 then Some (n - 55)
         else None)"

text \<open>\<open>u8::from_str_radix\<close> in base 16, with its optional plus sign.\<close>

fun hex_loop :: "string \<Rightarrow> nat \<Rightarrow> string + u8" where
  "hex_loop [] acc = Inr (of_nat acc)"
| "hex_loop (c # cs) acc =
     (case hex_digit c of
        None \<Rightarrow> Inl ''invalid digit found in string''
      | Some d \<Rightarrow>
          if 255 < acc * 16 + d then Inl ''number too large to fit in target type''
          else hex_loop cs (acc * 16 + d))"

definition u8_from_hex :: "string \<Rightarrow> string + u8" where
  "u8_from_hex s =
     (if s = [] then Inl ''cannot parse integer from empty string''
      else if s = ''+'' \<or> s = ''-'' then Inl ''invalid digit found in string''
      else if hd s = CHR ''+'' then hex_loop (tl s) 0
      else hex_loop s 0)"

text \<open>A byte that continues a UTF-8 character: a slice that starts or ends before it panics.\<close>

definition continuation :: "char \<Rightarrow> bool" where
  "continuation c \<longleftrightarrow> 128 \<le> (of_char c :: nat) \<and> (of_char c :: nat) < 192"

fun decode_pairs :: "string \<Rightarrow> (string + bytes) option" where
  "decode_pairs (a # b # rest) =
     (if continuation a \<or> (rest \<noteq> [] \<and> continuation (hd rest)) then None
      else (case u8_from_hex [a, b] of
          Inl e \<Rightarrow> Some (Inl e)
        | Inr v \<Rightarrow>
            (case decode_pairs rest of
               None \<Rightarrow> None
             | Some (Inl e) \<Rightarrow> Some (Inl e)
             | Some (Inr vs) \<Rightarrow> Some (Inr (v # vs)))))"
| "decode_pairs s = Some (Inr [])"

definition decode_hex :: "string \<Rightarrow> (string + bytes) option" where
  "decode_hex s =
     (if odd (length s) then Some (Inl ''hex string has odd length'') else decode_pairs s)"

section \<open>Commands\<close>

definition state_name :: "tcp_state \<Rightarrow> string" where
  "state_name st =
     (case st of
        SynSent \<Rightarrow> ''syn-sent''
      | SynReceived \<Rightarrow> ''syn-received''
      | Established \<Rightarrow> ''established''
      | FinWait1 \<Rightarrow> ''fin-wait-1''
      | FinWait2 \<Rightarrow> ''fin-wait-2''
      | CloseWait \<Rightarrow> ''close-wait''
      | Closing \<Rightarrow> ''closing''
      | LastAck \<Rightarrow> ''last-ack''
      | TimeWait \<Rightarrow> ''time-wait'')"

definition marker_status_name :: "marker_status \<Rightarrow> string" where
  "marker_status_name m =
     (case m of Pending \<Rightarrow> ''pending'' | Acked \<Rightarrow> ''acked'' | ConnectionGone \<Rightarrow> ''connection-gone'')"

text \<open>The configuration of a \<open>configure\<close> command, and the driver it starts.\<close>

definition configured ::
  "nat \<Rightarrow> nat \<Rightarrow> nat option \<Rightarrow> nat option \<Rightarrow> nat option \<Rightarrow> nat option \<Rightarrow> config" where
  "configured n per_peer retransmissions initial_rto min_rto max_rto =
     (let default = (\<lambda>field x. case x of Some v \<Rightarrow> v | None \<Rightarrow> field config_default)
      in config_default\<lparr>max_connections := n, max_connections_per_peer := per_peer,
           max_retransmissions := default max_retransmissions retransmissions,
           initial_rto_ms := default initial_rto_ms initial_rto,
           min_rto_ms := default min_rto_ms min_rto,
           max_rto_ms := default max_rto_ms max_rto\<rparr>)"

definition default_isn_seed :: u64 where
  "default_isn_seed = 0x55aa123499887766"

definition fresh_driver :: "config \<Rightarrow> u64 \<Rightarrow> driver option" where
  "fresh_driver cfg isn_seed =
     map_option (\<lambda>s. \<lparr>drv_stack = s, drv_markers = Map.empty, next_marker = 1\<rparr>) (stack_new cfg isn_seed)"

text \<open>A call of the stack with its error turned into text and its value into JSON.\<close>

definition run_stack ::
  "(nat \<times> string stack \<Rightarrow> (stack_error, 'a, nat \<times> string stack) call) \<Rightarrow> ('a \<Rightarrow> json) \<Rightarrow> nat \<times> driver
     \<Rightarrow> (string, json, nat \<times> driver) call" where
  "run_stack f to_json td =
     (case td of (token, d) \<Rightarrow>
      (case f (token, drv_stack d) of
         None \<Rightarrow> None
       | Some (r, (token', s)) \<Rightarrow>
           Some (map_sum stack_error_text to_json r, (token', d\<lparr>drv_stack := s\<rparr>))))"

definition untokened :: "('s \<Rightarrow> ('e, 'a, 's) call) \<Rightarrow> nat \<times> 's \<Rightarrow> ('e, 'a, nat \<times> 's) call" where
  "untokened f ts = (case ts of (token, s) \<Rightarrow> map_option (\<lambda>(r, s'). (r, (token, s'))) (f s))"

definition with_hex ::
  "string \<Rightarrow> (bytes \<Rightarrow> nat \<times> driver \<Rightarrow> (string, json, nat \<times> driver) call) \<Rightarrow> nat \<times> driver
     \<Rightarrow> (string, json, nat \<times> driver) call" where
  "with_hex hex f td =
     (case decode_hex hex of
        None \<Rightarrow> None
      | Some (Inl e) \<Rightarrow> Some (Inl e, td)
      | Some (Inr bs) \<Rightarrow> f bs td)"

definition write_marked :: "nat \<Rightarrow> bytes \<Rightarrow> nat \<Rightarrow> nat \<times> driver \<Rightarrow> (string, json, nat \<times> driver) call" where
  "write_marked cid bs now td =
     (case td of (token, d) \<Rightarrow>
      (case write_with_marker cid bs now (drv_stack d) of
         None \<Rightarrow> None
       | Some (Inl e, s) \<Rightarrow> Some (Inl (stack_error_text e), (token, d\<lparr>drv_stack := s\<rparr>))
       | Some (Inr (accepted, marker), s) \<Rightarrow>
           (let handle = next_marker d
            in case checked_add u64_max (next_marker d) 1 of
                 None \<Rightarrow> None
               | Some following \<Rightarrow>
                   Some (Inr (Object [(''accepted'', Number accepted), (''marker'', Number handle)]),
                     (token, d\<lparr>drv_stack := s, drv_markers := (drv_markers d)(handle \<mapsto> marker),
                        next_marker := following\<rparr>)))))"

definition execute :: "command \<Rightarrow> nat \<times> driver \<Rightarrow> (string, json, nat \<times> driver) call" where
  "execute c td =
     (case c of
        Configure n per_peer seed retransmissions initial_rto min_rto max_rto \<Rightarrow>
          (case fresh_driver (configured n per_peer retransmissions initial_rto min_rto max_rto)
              (case seed of Some v \<Rightarrow> v | None \<Rightarrow> default_isn_seed) of
             None \<Rightarrow> None
           | Some d \<Rightarrow> Some (Inr Null, (fst td, d)))
      | Reserve slots eligible \<Rightarrow>
          run_stack (untokened (\<lambda>s. Some (set_connection_reservation slots (\<lambda>p. p \<in> set eligible) s)))
            (\<lambda>u. Null) td
      | Listen port \<Rightarrow> run_stack (untokened (\<lambda>s. Some (listen port s))) (\<lambda>u. Null) td
      | Connect p lport rport isn now \<Rightarrow>
          run_stack (connect_from_with_isn p lport rport isn now) Number td
      | AutoConnect p rport now \<Rightarrow> run_stack (connect p rport now) Number td
      | Input p hex now \<Rightarrow> with_hex hex (\<lambda>bs. run_stack (input p bs now) (\<lambda>u. Null)) td
      | Poll now \<Rightarrow>
          run_stack (untokened (\<lambda>s. map_option (\<lambda>s'. (Inr (), s')) (poll now s))) (\<lambda>u. Null) td
      | Accept port \<Rightarrow>
          run_stack (untokened (\<lambda>s. Some (case accept port s of (found, s') \<Rightarrow> (Inr found, s'))))
            (\<lambda>found. case found of None \<Rightarrow> Null | Some cid \<Rightarrow> Number cid) td
      | Write cid hex now \<Rightarrow> with_hex hex (\<lambda>bs. run_stack (untokened (stack_write cid bs now)) Number) td
      | WriteWithMarker cid hex now \<Rightarrow> with_hex hex (\<lambda>bs. write_marked cid bs now) td
      | MarkerStatus handle \<Rightarrow>
          Some (case drv_markers (snd td) handle of
              None \<Rightarrow> Inl ''unknown marker handle''
            | Some m \<Rightarrow> Inr (Text (marker_status_name (Stack.marker_status m (drv_stack (snd td))))), td)
      | Read cid maximum now \<Rightarrow>
          run_stack (untokened (\<lambda>s. Some (stack_read cid maximum now s))) (\<lambda>bs. Text (encode_hex bs)) td
      | Close cid now \<Rightarrow> run_stack (untokened (stack_close cid now)) (\<lambda>u. Null) td
      | State cid \<Rightarrow>
          Some (Inr (case stack_state cid (drv_stack (snd td)) of
              None \<Rightarrow> Null | Some st \<Rightarrow> Text (state_name st)), td))"

section \<open>The loop\<close>

definition drain_json :: "string stack \<Rightarrow> json list \<times> string stack" where
  "drain_json s =
     (case drain_outbound s of (packets, s') \<Rightarrow>
      (map (\<lambda>x. Object [(''peer'', Text (out_peer x)), (''bytes'', Text (encode_hex (out_bytes x)))]) packets, s'))"

definition respond ::
  "(string \<Rightarrow> string + command) \<Rightarrow> string + string \<Rightarrow> nat \<times> driver \<Rightarrow> (json \<times> nat \<times> driver) option" where
  "respond parse line td =
     (case (case line of
              Inl e \<Rightarrow> Some (Inl e, td)
            | Inr text \<Rightarrow> (case parse text of Inl e \<Rightarrow> Some (Inl e, td) | Inr c \<Rightarrow> execute c td)) of
        None \<Rightarrow> None
      | Some (r, (token, d)) \<Rightarrow>
          (case drain_json (drv_stack d) of (packets, s) \<Rightarrow>
            Some (Object ((case r of
                Inr v \<Rightarrow> [(''ok'', Boolean True), (''result'', v)]
              | Inl e \<Rightarrow> [(''ok'', Boolean False), (''error'', Text e)]) @ [(''outbound'', Array packets)]),
              (token, d\<lparr>drv_stack := s\<rparr>))))"

fun serve ::
  "(string \<Rightarrow> string + command) \<Rightarrow> (string + string) list \<Rightarrow> nat \<times> driver \<Rightarrow> (json list \<times> nat \<times> driver) option" where
  "serve parse [] td = Some ([], td)"
| "serve parse (line # lines) td =
     (case respond parse line td of
        None \<Rightarrow> None
      | Some (out, td') \<Rightarrow> map_option (\<lambda>(outs, td''). (out # outs, td'')) (serve parse lines td'))"

definition driver_main ::
  "(string \<Rightarrow> string + command) \<Rightarrow> (string + string) list \<Rightarrow> nat \<Rightarrow> (json list \<times> nat \<times> driver) option" where
  "driver_main parse lines token =
     (case fresh_driver config_default default_isn_seed of
        None \<Rightarrow> None
      | Some d \<Rightarrow> serve parse lines (token, d))"

end
