(* ===== verification/Driver_Props.thy ===== *)
theory Driver_Props
  imports Driver Stack_Calls
begin

text \<open>
  Properties of the interop driver: the hexadecimal texts, and that commands keep the driver running
  on a reachable stack.
\<close>

section \<open>Hexadecimal\<close>

lemma hex_digit_char [simp]:
  assumes "n < 16"
  shows "hex_digit (digit_char n) = Some n" "digit_char n \<noteq> CHR ''+''" "\<not> continuation (digit_char n)"
proof -
  have c: "(of_char (digit_char n) :: nat) = (if n < 10 then 48 + n else 87 + n)"
    using assms by (simp add: digit_char_def of_char_of)
  show "hex_digit (digit_char n) = Some n" "\<not> continuation (digit_char n)"
    using assms by (auto simp: hex_digit_def continuation_def Let_def c)
  show "digit_char n \<noteq> CHR ''+''"
  proof
    assume "digit_char n = CHR ''+''"
    then have "(if n < 10 then 48 + n else 87 + n) = (43 :: nat)" using c by simp
    then show False by (simp split: if_splits)
  qed
qed

lemma u8_from_hex_pair:
  assumes "a < 16" "b < 16"
  shows "u8_from_hex [digit_char a, digit_char b] = Inr (of_nat (a * 16 + b))"
  using assms by (simp add: u8_from_hex_def)

lemma encode_hex_simps [simp]:
  "encode_hex [] = []"
  "encode_hex (b # bs) = digit_char (unat b div 16) # digit_char (unat b mod 16) # encode_hex bs"
  by (simp_all add: encode_hex_def)

lemma unat_u8_less: "unat (b :: u8) < 256"
  by (rule order_less_le_trans [OF unsigned_less]) simp

lemma encode_hex_hd: "encode_hex bs \<noteq> [] \<Longrightarrow> \<not> continuation (hd (encode_hex bs))"
  using unat_u8_less by (cases bs) (simp_all add: less_mult_imp_div_less)

text \<open>
  What the driver prints as hexadecimal text it reads back: decoding the encoding of any bytes
  succeeds with the same bytes.
\<close>

theorem hex_round_trip: "decode_hex (encode_hex bs) = Some (Inr bs)"
proof -
  have "even (length (encode_hex bs))" by (induction bs) simp_all
  moreover have "decode_pairs (encode_hex bs) = Some (Inr bs)"
  proof (induction bs)
    case (Cons b bs)
    have b: "unat b div 16 < 16" "unat b mod 16 < 16"
      using unat_u8_less [of b] by (simp_all add: less_mult_imp_div_less)
    have "u8_from_hex [digit_char (unat b div 16), digit_char (unat b mod 16)] = Inr b"
      by (simp add: u8_from_hex_pair [OF b])
    with Cons.IH b(1) encode_hex_hd [of bs] show ?case by auto
  qed simp
  ultimately show ?thesis by (simp add: decode_hex_def)
qed

text \<open>Text of ASCII characters never makes the decoder panic, other text can.\<close>

definition ascii :: "string \<Rightarrow> bool" where
  "ascii s \<longleftrightarrow> (\<forall>c \<in> set s. (of_char c :: nat) < 128)"

lemma ascii_Cons: "ascii (c # cs) \<longleftrightarrow> \<not> continuation c \<and> (of_char c :: nat) < 128 \<and> ascii cs"
  by (auto simp: ascii_def continuation_def)

lemma ascii_hd: "ascii s \<Longrightarrow> s \<noteq> [] \<Longrightarrow> \<not> continuation (hd s)"
  by (cases s) (simp_all add: ascii_Cons)

lemma decode_hex_ascii: "ascii s \<Longrightarrow> decode_hex s \<noteq> None"
proof -
  have "ascii s \<Longrightarrow> decode_pairs s \<noteq> None"
    by (induction s rule: decode_pairs.induct)
      (auto simp: ascii_Cons dest: ascii_hd split: sum.split option.split)
  then show "ascii s \<Longrightarrow> decode_hex s \<noteq> None" by (simp add: decode_hex_def)
qed

text \<open>The four bytes of a, e with an acute accent, and b.\<close>

theorem hex_text_panics: "decode_hex [CHR ''a'', char_of (195 :: nat), char_of (169 :: nat), CHR ''b''] = None"
  by code_simp

section \<open>Commands\<close>

text \<open>
  What a command must satisfy for the driver not to panic: a valid configuration whose numbers have
  the widths of their fields, and hexadecimal text in ASCII.
\<close>

fun command_ok :: "command \<Rightarrow> bool" where
  "command_ok (Configure n per_peer seed retransmissions initial_rto min_rto max_rto) \<longleftrightarrow>
     validate (configured n per_peer retransmissions initial_rto min_rto max_rto) = Inr () \<and>
     config_typed (configured n per_peer retransmissions initial_rto min_rto max_rto)"
| "command_ok (Input p hex now) \<longleftrightarrow> ascii hex"
| "command_ok (Write cid hex now) \<longleftrightarrow> ascii hex"
| "command_ok (WriteWithMarker cid hex now) \<longleftrightarrow> ascii hex"
| "command_ok c \<longleftrightarrow> True"

definition answers :: "(string, json, nat \<times> driver) call \<Rightarrow> bool" where
  "answers r \<longleftrightarrow> (\<exists>v token d. r = Some (v, (token, d)) \<and> stack_reach (token, drv_stack d))"

lemma run_stack_answers:
  assumes "stack_reach (token, drv_stack d)" "f (token, drv_stack d) = Some (r, ts)"
    "stack_step (token, drv_stack d) ts"
  shows "answers (run_stack f g (token, d))"
  using reach_step [OF assms(1,3)] assms(2) by (cases ts) (simp add: answers_def run_stack_def)

lemma untokened_answers:
  assumes "stack_reach (token, drv_stack d)" "f (drv_stack d) = Some (r, s)"
    "stack_step (token, drv_stack d) (token, s)"
  shows "answers (run_stack (untokened f) g (token, d))"
  by (rule run_stack_answers [OF assms(1) _ assms(3)]) (simp add: untokened_def assms(2))

lemma with_hex_answers:
  assumes "ascii hex" "stack_reach (token, drv_stack d)" "\<And>bs. answers (f bs (token, d))"
  shows "answers (with_hex hex f (token, d))"
  using decode_hex_ascii [OF assms(1)] assms(2,3)
  by (auto simp: with_hex_def answers_def split: option.split sum.split)

text \<open>A write returns as long as the byte counter of the connection has room.\<close>

lemma write_total:
  assumes inv: "stack_inv H (token, s)"
    and room: "\<And>c. get_conn cid s = Some c \<Longrightarrow>
      accepted_payload_bytes (send_progress c) + send_buffer (config s) \<le> u128_max"
  shows "\<exists>r t. write_with_marker cid bs now s = Some (r, t)"
proof (cases "get_conn cid s")
  case None
  then show ?thesis by (simp add: write_with_marker_def)
next
  case (Some c)
  have "\<exists>x. conn_write bs now (config s) c = Some x"
  proof (cases "writable c")
    case True
    have "write_room bs (config s) c \<le> send_buffer (config s)" by (simp add: write_room_def)
    then have "accepted_payload_bytes (send_progress c) + write_room bs (config s) c \<le> u128_max"
      using room [OF Some] by simp
    from conn_write_effect [OF stack_inv_conn(1) [OF inv Some] True this, of now] show ?thesis by blast
  next
    case False
    then show ?thesis by (simp add: conn_write_def writable_def)
  qed
  then show ?thesis
    using Some by (auto simp: write_with_marker_def split: prod.split sum.split)
qed

text \<open>The counters that the code checks have not run out.\<close>

definition counters_ok :: "nat \<times> driver \<Rightarrow> bool" where
  "counters_ok td \<longleftrightarrow> fst td < u64_max \<and> next_marker (snd td) < u64_max \<and>
     (\<forall>cid c. get_conn cid (drv_stack (snd td)) = Some c \<longrightarrow>
        accepted_payload_bytes (send_progress c) + send_buffer (config (drv_stack (snd td))) \<le> u128_max)"

lemma write_marked_answers:
  assumes reach: "stack_reach (token, drv_stack d)" and ctr: "counters_ok (token, d)"
  shows "answers (write_marked cid bs now (token, d))"
proof -
  obtain r s where w: "write_with_marker cid bs now (drv_stack d) = Some (r, s)"
    using write_total [OF reach_inv [OF reach]] ctr by (fastforce simp: counters_ok_def)
  have "stack_reach (token, s)" by (rule reach_step [OF reach do_write [OF w]])
  moreover have "Suc (next_marker d) \<le> u64_max" using ctr by (simp add: counters_ok_def)
  ultimately show ?thesis
    using w by (cases r) (auto simp: write_marked_def answers_def Let_def checked_add_def)
qed

lemma execute_answers:
  assumes reach: "stack_reach (token, drv_stack d)" and ctr: "counters_ok (token, d)" and ok: "command_ok c"
  shows "answers (execute c (token, d))"
proof (cases c)
  case (Configure n per_peer seed retransmissions initial_rto min_rto max_rto)
  let ?cfg = "configured n per_peer retransmissions initial_rto min_rto max_rto"
  let ?seed = "case seed of Some v \<Rightarrow> v | None \<Rightarrow> default_isn_seed"
  have cfg: "validate ?cfg = Inr ()" "config_typed ?cfg" using ok Configure by simp_all
  obtain s :: "string stack" where s: "stack_new ?cfg ?seed = Some s" using cfg(1) by (simp add: stack_new_def)
  have "1 \<le> token" "token \<le> u64_max" using stack_invD(2-4) [OF reach_inv [OF reach]] by simp_all
  then have "stack_reach (token, s)" by (rule reach_start [of stack_start, OF start_new [OF s cfg(2)]])
  then show ?thesis using s by (simp add: Configure execute_def fresh_driver_def answers_def)
next
  case (Reserve slots eligible)
  obtain r s where s: "set_connection_reservation slots (\<lambda>p. p \<in> set eligible) (drv_stack d) = (r, s)" by force
  show ?thesis unfolding Reserve execute_def command.case
    by (rule untokened_answers [OF reach _ do_reservation [OF s]]) (simp add: s)
next
  case (Listen port)
  obtain r s where s: "listen port (drv_stack d) = (r, s)" by force
  show ?thesis unfolding Listen execute_def command.case
    by (rule untokened_answers [OF reach _ do_listen [OF s]]) (simp add: s)
next
  case (Connect p lport rport isn now)
  have "token < u64_max" using ctr by (simp add: counters_ok_def)
  from connect_from_effect [OF reach_inv [OF reach] this, of p lport rport isn now]
  obtain r ts where r: "connect_from_with_isn p lport rport isn now (token, drv_stack d) = Some (r, ts)" by blast
  show ?thesis unfolding Connect execute_def command.case
    by (rule run_stack_answers [where f = "connect_from_with_isn p lport rport isn now", OF reach r do_connect_from [OF r]])
next
  case (AutoConnect p rport now)
  have "token < u64_max" using ctr by (simp add: counters_ok_def)
  from connect_effect [OF reach_inv [OF reach] this, of p rport now]
  obtain r ts where r: "connect p rport now (token, drv_stack d) = Some (r, ts)" by blast
  show ?thesis unfolding AutoConnect execute_def command.case
    by (rule run_stack_answers [where f = "connect p rport now", OF reach r do_connect [OF r]])
next
  case (Input p hex now)
  have token: "token < u64_max" using ctr by (simp add: counters_ok_def)
  have "answers (run_stack (input p bs now) (\<lambda>u. Null) (token, d))" for bs
  proof -
    obtain r ts where r: "input p bs now (token, drv_stack d) = Some (r, ts)"
      using input_effect [OF reach_inv [OF reach] token, of p bs now] by blast
    show ?thesis by (rule run_stack_answers [where f = "input p bs now", OF reach r do_input [OF r]])
  qed
  then show ?thesis using ok unfolding Input execute_def command.case
    by (intro with_hex_answers [OF _ reach]) simp_all
next
  case (Poll now)
  obtain s where s: "poll now (drv_stack d) = Some s" using poll_effect [OF reach_inv [OF reach], of now] by blast
  show ?thesis unfolding Poll execute_def command.case
    by (rule untokened_answers [OF reach _ do_poll [OF s]]) (simp add: s)
next
  case (Accept port)
  obtain found s where s: "accept port (drv_stack d) = (found, s)" by force
  show ?thesis unfolding Accept execute_def command.case
    by (rule untokened_answers [OF reach _ do_accept [OF s]]) (simp add: s)
next
  case (Write cid hex now)
  have "answers (run_stack (untokened (stack_write cid bs now)) Number (token, d))" for bs
  proof -
    obtain r s where w: "write_with_marker cid bs now (drv_stack d) = Some (r, s)"
      using write_total [OF reach_inv [OF reach]] ctr by (fastforce simp: counters_ok_def)
    then have "stack_write cid bs now (drv_stack d) = Some (map_sum id fst r, s)"
      by (cases r) (simp_all add: stack_write_def call_bind_def)
    from untokened_answers [where f = "stack_write cid bs now", OF reach this do_plain_write [OF this]] show ?thesis .
  qed
  then show ?thesis using ok unfolding Write execute_def command.case
    by (intro with_hex_answers [OF _ reach]) simp_all
next
  case (WriteWithMarker cid hex now)
  then show ?thesis using ok write_marked_answers [OF reach ctr] unfolding WriteWithMarker execute_def command.case
    by (intro with_hex_answers [OF _ reach]) simp_all
next
  case (MarkerStatus handle)
  then show ?thesis using reach by (simp add: execute_def answers_def)
next
  case (Read cid m now)
  obtain r s where s: "stack_read cid m now (drv_stack d) = (r, s)" by force
  show ?thesis unfolding Read execute_def command.case
    by (rule untokened_answers [OF reach _ do_read [OF s]]) (simp add: s)
next
  case (Close cid now)
  obtain r s where s: "stack_close cid now (drv_stack d) = Some (r, s)"
    using stack_close_effect [OF reach_inv [OF reach], of cid now] by blast
  show ?thesis unfolding Close execute_def command.case
    by (rule untokened_answers [where f = "stack_close cid now", OF reach s do_close [OF s]])
next
  case (State cid)
  then show ?thesis using reach by (simp add: execute_def answers_def)
qed

text \<open>
  C40: A line of input cannot bring the driver down: as long as its counters have room, every line that
  cannot be read or parsed, and every command with a valid configuration and ASCII hexadecimal text,
  whatever peers, ports, identifiers and bytes it names, gets one answer, with every queued packet
  in it, and leaves a stack that stack calls alone reach.
\<close>

theorem driver_keeps_running:
  assumes "stack_reach (token, drv_stack d)" "counters_ok (token, d)"
    and "case line of Inl e \<Rightarrow> True | Inr text \<Rightarrow> (case parse text of Inl e \<Rightarrow> True | Inr c \<Rightarrow> command_ok c)"
  shows "\<exists>members packets token' d'.
    respond parse line (token, d) = Some (Object (members @ [(''outbound'', Array packets)]), (token', d')) \<and>
    stack_reach (token', drv_stack d') \<and> outbound (drv_stack d') = []"
proof -
  let ?run = "case line of
      Inl e \<Rightarrow> Some (Inl e, (token, d))
    | Inr text \<Rightarrow> (case parse text of Inl e \<Rightarrow> Some (Inl e, (token, d)) | Inr c \<Rightarrow> execute c (token, d))"
  have "answers ?run"
    using execute_answers [OF assms(1,2)] assms(1,3) by (auto simp: answers_def split: sum.splits)
  then obtain r token' d' where run: "?run = Some (r, (token', d'))" "stack_reach (token', drv_stack d')"
    by (auto simp: answers_def)
  obtain packets s where p: "drain_json (drv_stack d') = (packets, s)" "s = snd (drain_outbound (drv_stack d'))"
    by (simp add: drain_json_def drain_outbound_def)
  have "stack_reach (token', s)"
    by (rule reach_step [OF run(2) do_drain [of _ "outbound (drv_stack d')"]]) (simp add: p(2) drain_outbound_def)
  moreover have "outbound s = []" by (simp add: p(2) drain_outbound_def)
  ultimately show ?thesis
    using p(1) by (simp add: respond_def run(1))
qed

text \<open>A connect of the driver right after its start, in the default configuration.\<close>

definition example_driver :: driver where
  "example_driver = \<lparr>drv_stack = fresh_stack, drv_markers = Map.empty, next_marker = 1\<rparr>"

theorem driver_keeps_running_witness:
  "\<exists>members packets token' d'.
    respond (\<lambda>text. Inr (Connect text 49152 80 1000 0)) (Inr ''npub1'') (1, example_driver) =
      Some (Object (members @ [(''outbound'', Array packets)]), (token', d')) \<and>
    stack_reach (token', drv_stack d') \<and> outbound (drv_stack d') = []"
  by (rule driver_keeps_running)
    (simp_all add: example_driver_def example_stack_reach [simplified] counters_ok_def u64_max_def get_conn_def)

text \<open>The start of the program makes such a driver.\<close>

lemma driver_main_starts:
  assumes "1 \<le> token" "token \<le> u64_max"
  shows "\<exists>d. fresh_driver config_default default_isn_seed = Some d \<and> stack_reach (token, drv_stack d) \<and> next_marker d = 1"
proof -
  have "validate config_default = Inr ()" using valid_config_default validate_ok [of config_default] by simp
  then obtain s :: "string stack" where s: "stack_new config_default default_isn_seed = Some s"
    by (simp add: stack_new_def)
  have "stack_reach (token, s)"
    by (rule reach_start [of stack_start, OF start_new [OF s config_typed_default assms]])
  with s show ?thesis by (simp add: fresh_driver_def)
qed

end
